(* ===== verification/Prelude.thy ===== *)
theory Prelude
  imports
    Complex_Main
    "HOL-Library.Word"
    "HOL-Library.AList"
    "HOL-Library.Char_ord"
    "HOL-Library.List_Lexorder"
    "HOL-Library.Product_Lexorder"
    "HOL-Library.Multiset"
begin

text \<open>
  Shared vocabulary of the development: Go's fixed-width integers, the error values the
  packages of Tally return to each other, the built-in \<^verbatim>\<open>copy\<close>, and the
  generic lemmas on lists and association lists that the component theories use.
\<close>

section \<open>Types\<close>

type_synonym byte = "8 word"
type_synonym int32 = "32 word"
type_synonym uint64 = "64 word"

text \<open>
  Error values. The first three are the sentinels of \<^verbatim>\<open>internal/queue\<close>;
  \<open>ErrSketch\<close> is \<^verbatim>\<open>hll.FromBytes\<close>'s error and \<open>ErrCorrupt\<close> its
  wrapping in the store; \<open>ErrNoRows\<close> is the driver's empty-result error; \<open>ErrJSON\<close>
  is a failed \<^verbatim>\<open>json.Marshal\<close>; \<open>ErrDB\<close> is any error a database round trip
  reports; \<open>ErrUnreachable\<close> wraps the last ping error of \<^verbatim>\<open>store.New\<close>;
  \<open>ErrCtx\<close> is a cancelled context. \<open>GoPanic\<close> is no error value in Go: it
  stands for a run-time panic, so that a theorem can say that none happens.
\<close>

datatype go_error =
    ErrFull
  | ErrClosed
  | ErrUnavailable
  | ErrSketch
  | ErrCorrupt string int
  | ErrNoRows
  | ErrJSON
  | ErrDB string
  | ErrUnreachable go_error
  | ErrCtx
  | GoPanic

section \<open>Collections of facts\<close>

named_theorems tally_defs \<open>definitions that a component unfolds together\<close>
named_theorems inv_intros \<open>an operation keeps the invariant of its component\<close>

section \<open>Slices\<close>

text \<open>
  The built-in \<^verbatim>\<open>copy(dst, src)\<close> overwrites the first
  \<^verbatim>\<open>min(len(dst), len(src))\<close> elements of \<^verbatim>\<open>dst\<close>.
\<close>

definition go_copy :: "'a list \<Rightarrow> 'a list \<Rightarrow> 'a list" where
  "go_copy dst src = take (length dst) src @ drop (length src) dst"

lemma length_go_copy [simp]: "length (go_copy dst src) = length dst"
  by (simp add: go_copy_def)

lemma go_copy_same_length [simp]: "length src = length dst \<Longrightarrow> go_copy dst src = src"
  by (simp add: go_copy_def)

section \<open>Error returns\<close>

text \<open>
  \<^verbatim>\<open>x, err := m; if err != nil { return err }\<close>: go on with the value, or hand the
  error to the caller.
\<close>

definition err_bind :: "'e + 'a \<Rightarrow> ('a \<Rightarrow> 'e + 'b) \<Rightarrow> 'e + 'b" where
  "err_bind m f = (case m of Inl e \<Rightarrow> Inl e | Inr x \<Rightarrow> f x)"

lemma err_bind_simps [simp]:
  "err_bind (Inl e) f = Inl e"
  "err_bind (Inr x) f = f x"
  by (simp_all add: err_bind_def)

lemma err_bind_eq_Inr: "err_bind m f = Inr y \<longleftrightarrow> (\<exists>x. m = Inr x \<and> f x = Inr y)"
  by (cases m) simp_all

lemma err_bind_eq_Inl:
  "err_bind m f = Inl e \<longleftrightarrow> m = Inl e \<or> (\<exists>x. m = Inr x \<and> f x = Inl e)"
  by (cases m) simp_all

lemma err_bind_cong [fundef_cong]:
  "m = m' \<Longrightarrow> (\<And>x. m' = Inr x \<Longrightarrow> f x = f' x) \<Longrightarrow> err_bind m f = err_bind m' f'"
  by (cases m') simp_all

section \<open>Lists and tables\<close>

lemma mset_eq_set: "mset xs = mset ys \<Longrightarrow> set xs = set ys"
  by (metis set_mset_mset)

end
