(* ===== verification/Hll.thy ===== *)
theory Hll
  imports Prelude
begin

unbundle bit_operations_syntax

text \<open>
  The HyperLogLog sketch of \<^verbatim>\<open>src/internal/hll/hll.go\<close>: the hash, the register
  update, the register-wise merge and the byte format, at the widths the Go code uses.
  The correctness statements compare a sketch with the finite set of values it stands for.
\<close>

section \<open>Constants and the sketch\<close>

definition Precision :: nat where
  "Precision = 14"

definition hll_m :: nat where
  "hll_m = 2 ^ Precision"

definition formatVersion :: byte where
  "formatVersion = 1"

record sketch =
  regs :: "byte list"

definition New :: sketch where
  "New = \<lparr>regs = replicate hll_m 0\<rparr>"

section \<open>Hashing\<close>

text \<open>
  \<^verbatim>\<open>hash/fnv\<close>'s 64-bit FNV-1a: xor in each byte, then multiply by the FNV prime.
\<close>

definition fnv1a_byte :: "uint64 \<Rightarrow> char \<Rightarrow> uint64" where
  "fnv1a_byte h c = (h XOR of_char c) * 1099511628211"

definition fnv64a :: "string \<Rightarrow> uint64" where
  "fnv64a value = foldl fnv1a_byte 14695981039346656037 value"

definition hash64 :: "string \<Rightarrow> uint64" where
  "hash64 value =
     (let x = fnv64a value;
          x = x XOR drop_bit 30 x;
          x = x * 0xbf58476d1ce4e5b9;
          x = x XOR drop_bit 27 x;
          x = x * 0x94d049bb133111eb;
          x = x XOR drop_bit 31 x
      in x)"

text \<open>\<^verbatim>\<open>math/bits.LeadingZeros64\<close>: the zero bits above the highest set bit, 64 for 0.\<close>

definition leading_zeros64 :: "uint64 \<Rightarrow> nat" where
  "leading_zeros64 x = length (takeWhile (\<lambda>i. \<not> bit x i) (rev [0..<64]))"

section \<open>Operations\<close>

definition reg_index :: "uint64 \<Rightarrow> nat" where
  "reg_index h = unat (drop_bit (64 - Precision) h)"

definition reg_rank :: "uint64 \<Rightarrow> byte" where
  "reg_rank h =
     (let rest = push_bit Precision h;
          rank = of_nat (leading_zeros64 rest) + 1
      in if rank > of_nat (64 - Precision + 1) then of_nat (64 - Precision + 1) else rank)"

text \<open>\<open>None\<close> is the run-time panic of an index out of range.\<close>

definition Add :: "sketch \<Rightarrow> string \<Rightarrow> sketch option" where
  "Add s value =
     (let h = hash64 value;
          idx = reg_index h;
          rank = reg_rank h
      in if idx < length (regs s)
         then Some (if rank > regs s ! idx then s\<lparr>regs := (regs s)[idx := rank]\<rparr> else s)
         else None)"

fun merge_from :: "nat \<Rightarrow> byte list \<Rightarrow> byte list \<Rightarrow> byte list option" where
  "merge_from i [] sr = Some sr"
| "merge_from i (r # rs) sr =
     (if i < length sr
      then merge_from (Suc i) rs (if r > sr ! i then sr[i := r] else sr)
      else None)"

definition Merge :: "sketch \<Rightarrow> sketch \<Rightarrow> sketch option" where
  "Merge s other = map_option (\<lambda>r. s\<lparr>regs := r\<rparr>) (merge_from 0 (regs other) (regs s))"

definition Bytes :: "sketch \<Rightarrow> byte list" where
  "Bytes s = [formatVersion, of_nat Precision] @ go_copy (replicate hll_m 0) (regs s)"

definition FromBytes :: "byte list \<Rightarrow> go_error + sketch" where
  "FromBytes b =
     (if length b \<noteq> 2 + hll_m \<or> b ! 0 \<noteq> formatVersion \<or> b ! 1 \<noteq> of_nat Precision
      then Inl ErrSketch
      else Inr (New\<lparr>regs := go_copy (regs New) (drop 2 b)\<rparr>))"

text \<open>Adding a list of values one after the other, as \<^verbatim>\<open>updateUniques\<close> does.\<close>

fun add_all :: "sketch \<Rightarrow> string list \<Rightarrow> sketch option" where
  "add_all s [] = Some s"
| "add_all s (v # vs) = Option.bind (Add s v) (\<lambda>s'. add_all s' vs)"

section \<open>Hash and rank\<close>

lemma reg_index_less: "reg_index h < hll_m"
proof -
  have "unat h < 2 ^ 64" using unsigned_less [of h] by simp
  then have "drop_bit 50 (unat h) < 2 ^ 14"
    by (simp add: drop_bit_eq_div less_mult_imp_div_less)
  then show ?thesis
    by (simp add: reg_index_def hll_m_def Precision_def unat_drop_bit_eq del: drop_bit_eq_div)
qed

lemma leading_zeros64_le: "leading_zeros64 x \<le> 64"
  unfolding leading_zeros64_def
  using length_takeWhile_le [of "\<lambda>i. \<not> bit x i" "rev [0..<64]"] by simp

lemma unat_reg_rank: "unat (reg_rank h) = min (leading_zeros64 (push_bit Precision h) + 1) 51"
proof -
  let ?z = "leading_zeros64 (push_bit Precision h)"
  have z: "?z \<le> 64" by (rule leading_zeros64_le)
  then have u: "unat (of_nat ?z + 1 :: byte) = ?z + 1"
    using unat_of_nat [of "?z + 1", where 'a = 8] by (simp add: add.commute)
  show ?thesis using u
    by (simp add: reg_rank_def Let_def Precision_def word_less_nat_alt min_def)
qed

lemma leading_zeros64_spec:
  "(\<forall>i < 64. 64 - leading_zeros64 x \<le> i \<longrightarrow> \<not> bit x i) \<and>
   (leading_zeros64 x < 64 \<longrightarrow> bit x (63 - leading_zeros64 x))"
proof -
  let ?P = "\<lambda>i. \<not> bit x i" and ?l = "rev [0..<64] :: nat list"
  let ?n = "leading_zeros64 x"
  have nth: "?l ! k = 63 - k" if "k < 64" for k
    using that by (simp add: rev_nth del: upt_rec_numeral)
  have below: "\<not> bit x (63 - k)" if "k < ?n" for k
  proof -
    have "k < 64" using that leading_zeros64_le [of x] by simp
    moreover have "takeWhile ?P ?l ! k = ?l ! k"
      using that by (simp add: leading_zeros64_def takeWhile_nth del: upt_rec_numeral)
    moreover have "takeWhile ?P ?l ! k \<in> set (takeWhile ?P ?l)"
      using that by (simp add: leading_zeros64_def del: upt_rec_numeral)
    ultimately show ?thesis using set_takeWhileD nth by metis
  qed
  have "\<not> bit x i" if "i < 64" "64 - ?n \<le> i" for i
    using below [of "63 - i"] that by auto
  moreover have "bit x (63 - ?n)" if "?n < 64"
    using that nth [of ?n] nth_length_takeWhile [of ?P ?l]
    by (simp add: leading_zeros64_def del: upt_rec_numeral)
  ultimately show ?thesis by blast
qed

section \<open>Updates that commute and absorb repetition\<close>

text \<open>
  What the store relies on when it folds a batch into a sketch: the result does not depend
  on the order of the values nor on how often each occurs.
\<close>

locale idem_acc =
  fixes step :: "'s \<Rightarrow> 'v \<Rightarrow> 's"
    and ok :: "'s \<Rightarrow> bool"
  assumes ok_step: "ok s \<Longrightarrow> ok (step s v)"
    and step_comm: "ok s \<Longrightarrow> step (step s u) v = step (step s v) u"
    and step_idem: "ok s \<Longrightarrow> step (step s v) v = step s v"
begin

lemma foldl_ok: "ok s \<Longrightarrow> ok (foldl step s vs)"
  by (induction vs arbitrary: s) (auto intro: ok_step)

lemma foldl_step_comm: "ok s \<Longrightarrow> foldl step (step s v) vs = step (foldl step s vs) v"
proof (induction vs arbitrary: s)
  case (Cons u vs)
  have "foldl step (step (step s v) u) vs = foldl step (step (step s u) v) vs"
    using Cons.prems by (simp add: step_comm)
  then show ?case using Cons by (simp add: ok_step)
qed simp

lemma foldl_absorb: "ok s \<Longrightarrow> v \<in> set vs \<Longrightarrow> step (foldl step s vs) v = foldl step s vs"
proof (induction vs arbitrary: s)
  case (Cons u vs)
  show ?case
  proof (cases "u = v")
    case True
    then show ?thesis using Cons.prems
      by (simp add: foldl_step_comm [symmetric] ok_step step_idem)
  next
    case False
    then show ?thesis using Cons by (simp add: ok_step)
  qed
qed simp

lemma foldl_absorb_all:
  "ok s \<Longrightarrow> set us \<subseteq> set vs \<Longrightarrow> foldl step (foldl step s vs) us = foldl step s vs"
  by (induction us) (simp_all add: foldl_absorb)

lemma foldl_swap:
  "ok s \<Longrightarrow> foldl step (foldl step s us) vs = foldl step (foldl step s vs) us"
  by (induction us arbitrary: s) (simp_all add: ok_step foldl_ok foldl_step_comm)

lemma foldl_set_cong:
  assumes "ok s" and "set us = set vs"
  shows "foldl step s us = foldl step s vs"
proof -
  have "foldl step s us = foldl step (foldl step s us) vs"
    using assms by (simp add: foldl_absorb_all)
  also have "\<dots> = foldl step (foldl step s vs) us"
    using assms(1) by (rule foldl_swap)
  also have "\<dots> = foldl step s vs"
    using assms by (simp add: foldl_absorb_all)
  finally show ?thesis .
qed

end

section \<open>The register update\<close>

definition sketch_ok :: "sketch \<Rightarrow> bool" where
  "sketch_ok s \<longleftrightarrow> length (regs s) = hll_m \<and> (\<forall>r \<in> set (regs s). r \<le> 51)"

definition add_total :: "sketch \<Rightarrow> string \<Rightarrow> sketch" where
  "add_total s v = (case Add s v of None \<Rightarrow> s | Some s' \<Rightarrow> s')"

abbreviation idx_of :: "string \<Rightarrow> nat" where
  "idx_of v \<equiv> reg_index (hash64 v)"

abbreviation rank_of :: "string \<Rightarrow> byte" where
  "rank_of v \<equiv> reg_rank (hash64 v)"

lemma Add_regs:
  assumes "length (regs s) = hll_m"
  shows "Add s v =
    Some (s\<lparr>regs := (regs s)[idx_of v := max (regs s ! idx_of v) (rank_of v)]\<rparr>)"
  using assms reg_index_less [of "hash64 v"]
  by (auto simp: Add_def Let_def max_def not_less)

lemma regs_add_total:
  "length (regs s) = hll_m \<Longrightarrow>
   regs (add_total s v) = (regs s)[idx_of v := max (regs s ! idx_of v) (rank_of v)]"
  by (simp add: add_total_def Add_regs)

lemma Add_add_total: "length (regs s) = hll_m \<Longrightarrow> Add s v = Some (add_total s v)"
  by (simp add: add_total_def Add_regs)

lemma reg_rank_le: "reg_rank h \<le> 51"
  by (simp add: word_le_nat_alt unat_reg_rank)

lemma sketch_ok_New [simp, inv_intros]: "sketch_ok New"
  by (simp add: sketch_ok_def New_def)

lemma sketch_ok_length: "sketch_ok s \<Longrightarrow> length (regs s) = hll_m"
  by (simp add: sketch_ok_def)

lemma sketch_ok_add_total [inv_intros]: "sketch_ok s \<Longrightarrow> sketch_ok (add_total s v)"
  using reg_index_less [of "hash64 v"] reg_rank_le [of "hash64 v"] set_update_subset_insert
  by (fastforce simp: sketch_ok_def regs_add_total max_def)

lemma add_total_comm:
  assumes "sketch_ok s"
  shows "add_total (add_total s u) v = add_total (add_total s v) u"
proof -
  have l: "length (regs s) = hll_m" using assms by (rule sketch_ok_length)
  note i = reg_index_less [of "hash64 u"] reg_index_less [of "hash64 v"]
  have "regs (add_total (add_total s u) v) = regs (add_total (add_total s v) u)"
    using l i by (cases "idx_of u = idx_of v")
      (simp_all add: regs_add_total list_update_swap max.commute max.left_commute)
  then show ?thesis by simp
qed

lemma add_total_idem:
  assumes "sketch_ok s"
  shows "add_total (add_total s v) v = add_total s v"
proof -
  have l: "length (regs s) = hll_m" using assms by (rule sketch_ok_length)
  have "regs (add_total (add_total s v) v) = regs (add_total s v)"
    using l reg_index_less [of "hash64 v"] by (simp add: regs_add_total)
  then show ?thesis by simp
qed

interpretation hll_acc: idem_acc add_total sketch_ok
  by unfold_locales (simp_all add: sketch_ok_add_total add_total_comm add_total_idem)

lemma add_all_foldl: "sketch_ok s \<Longrightarrow> add_all s vs = Some (foldl add_total s vs)"
  by (induction vs arbitrary: s)
    (simp_all add: Add_add_total sketch_ok_length sketch_ok_add_total)

section \<open>The set a sketch stands for\<close>

text \<open>
  The specification: register \<open>i\<close> of the sketch of a finite set \<open>A\<close> holds the largest
  rank among the members of \<open>A\<close> that hash to \<open>i\<close>, and 0 if there is none.
\<close>

definition reg_spec :: "string set \<Rightarrow> nat \<Rightarrow> byte" where
  "reg_spec A i = Max (insert 0 (rank_of ` {v \<in> A. idx_of v = i}))"

definition sketch_of :: "string set \<Rightarrow> sketch" where
  "sketch_of A = \<lparr>regs = map (reg_spec A) [0..<hll_m]\<rparr>"

lemma length_sketch_of [simp]: "length (regs (sketch_of A)) = hll_m"
  by (simp add: sketch_of_def)

lemma sketch_of_empty: "sketch_of {} = New"
  unfolding sketch_of_def New_def by (simp add: reg_spec_def list_eq_iff_nth_eq)

lemma reg_spec_insert:
  assumes "finite A"
  shows "reg_spec (insert v A) i =
    (if i = idx_of v then max (reg_spec A i) (rank_of v) else reg_spec A i)"
proof (cases "i = idx_of v")
  case True
  then have "insert 0 (rank_of ` {u \<in> insert v A. idx_of u = i}) =
      insert (rank_of v) (insert 0 (rank_of ` {u \<in> A. idx_of u = i}))"
    by auto
  with assms True show ?thesis by (simp add: reg_spec_def max.commute)
next
  case False
  then have "{u \<in> insert v A. idx_of u = i} = {u \<in> A. idx_of u = i}" by auto
  with False show ?thesis by (simp add: reg_spec_def)
qed

lemma reg_spec_union:
  assumes "finite A" and "finite B"
  shows "reg_spec (A \<union> B) i = max (reg_spec A i) (reg_spec B i)"
  using assms(2)
proof (induction B)
  case empty
  then show ?case by (simp add: reg_spec_def)
next
  case (insert v B)
  then show ?case using assms(1)
    by (cases "i = idx_of v") (simp_all add: reg_spec_insert max.assoc)
qed

lemma add_total_sketch_of:
  assumes "finite A"
  shows "add_total (sketch_of A) v = sketch_of (insert v A)"
proof -
  have "regs (add_total (sketch_of A) v) = regs (sketch_of (insert v A))"
    using assms reg_index_less [of "hash64 v"]
    by (intro nth_equalityI)
      (auto simp: regs_add_total sketch_of_def reg_spec_insert nth_list_update)
  then show ?thesis by simp
qed

lemma sketch_ok_sketch_of [inv_intros]:
  assumes "finite A"
  shows "sketch_ok (sketch_of A)"
  using assms
proof (induction A)
  case empty
  then show ?case by (simp add: sketch_of_empty)
next
  case (insert v A)
  then show ?case by (simp add: add_total_sketch_of [symmetric] sketch_ok_add_total)
qed

lemma foldl_add_total_sketch_of:
  "finite A \<Longrightarrow> foldl add_total (sketch_of A) vs = sketch_of (A \<union> set vs)"
  by (induction vs arbitrary: A) (simp_all add: add_total_sketch_of)

section \<open>Merging\<close>

lemma merge_from_max:
  "i + length rs \<le> length sr \<Longrightarrow>
   merge_from i rs sr =
     Some (take i sr @ map2 max (take (length rs) (drop i sr)) rs @ drop (i + length rs) sr)"
proof (induction rs arbitrary: i sr)
  case Nil
  then show ?case by simp
next
  case (Cons r rs)
  let ?sr = "if r > sr ! i then sr[i := r] else sr"
  have i: "i < length sr" using Cons.prems by simp
  have sr: "?sr = sr[i := max (sr ! i) r]" by (cases "r > sr ! i") (auto simp: max_def)
  have "merge_from i (r # rs) sr = merge_from (Suc i) rs ?sr" using i by simp
  also have "\<dots> = Some (take (Suc i) ?sr @ map2 max (take (length rs) (drop (Suc i) ?sr)) rs
                     @ drop (Suc i + length rs) ?sr)"
    using Cons.prems by (intro Cons.IH) simp
  also have "\<dots> = Some (take i sr @ map2 max (take (length (r # rs)) (drop i sr)) (r # rs)
                     @ drop (i + length (r # rs)) sr)"
    using i by (simp add: sr take_Suc_conv_app_nth Cons_nth_drop_Suc [symmetric])
  finally show ?case .
qed

lemma Merge_regs:
  assumes "length (regs s) = hll_m" and "length (regs t) = hll_m"
  shows "Merge s t = Some (s\<lparr>regs := map2 max (regs s) (regs t)\<rparr>)"
  using assms by (simp add: Merge_def merge_from_max)

section \<open>The byte format\<close>

lemma length_Bytes [simp]: "length (Bytes s) = 2 + hll_m"
  by (simp add: Bytes_def)

lemma FromBytes_Bytes: "sketch_ok s \<Longrightarrow> FromBytes (Bytes s) = Inr s"
  by (simp add: FromBytes_def Bytes_def New_def sketch_ok_def)

lemma FromBytes_Inr:
  assumes "FromBytes b = Inr s"
  shows "length (regs s) = hll_m \<and> Bytes s = b"
proof -
  have l: "length b = 2 + hll_m" and b0: "b ! 0 = formatVersion" and b1: "b ! 1 = of_nat Precision"
    and s: "s = New\<lparr>regs := go_copy (regs New) (drop 2 b)\<rparr>"
    using assms by (auto simp: FromBytes_def split: if_splits)
  have r: "regs s = drop 2 b" using l by (simp add: s New_def)
  obtain x y zs where b: "b = x # y # zs" using l by (metis add_2_eq_Suc length_Suc_conv)
  show ?thesis using l b0 b1 r by (simp add: b Bytes_def)
qed

section \<open>Properties\<close>

text \<open>
  C19. Adding a value to the sketch of a finite set never panics and gives the sketch of the
  set with that value inserted: the registers depend on nothing but the set of values seen.
\<close>

theorem Add_refines_insert:
  assumes "finite A"
  shows "Add (sketch_of A) v = Some (sketch_of (insert v A))"
  using assms by (simp add: Add_add_total add_total_sketch_of)

theorem Add_refines_insert_witness:
  "Add (sketch_of {''user_1''}) ''user_2'' = Some (sketch_of {''user_2'', ''user_1''})"
  using Add_refines_insert [of "{''user_1''}" "''user_2''"] by simp

text \<open>
  Folding a list of values into a well-formed sketch never panics, keeps it well-formed,
  and gives the same sketch for every list with the same members, whatever their order and
  their repetitions.
\<close>

lemma add_all_order_and_duplicates:
  assumes "sketch_ok s" and "set us = set vs"
  shows "\<exists>t. add_all s us = Some t \<and> add_all s vs = Some t \<and> sketch_ok t"
  using assms hll_acc.foldl_set_cong [of s us vs] hll_acc.foldl_ok [of s vs]
  by (simp add: add_all_foldl)

text \<open>
  C20. Merging the sketches of two finite sets never panics and gives the sketch of their
  union, the same as if every value had been added to one sketch.
\<close>

theorem Merge_refines_union:
  assumes "finite A" and "finite B"
  shows "Merge (sketch_of A) (sketch_of B) = Some (sketch_of (A \<union> B))"
proof -
  have "map2 max (regs (sketch_of A)) (regs (sketch_of B)) = regs (sketch_of (A \<union> B))"
    using assms by (intro nth_equalityI) (simp_all add: sketch_of_def reg_spec_union)
  then show ?thesis by (simp add: Merge_regs)
qed

theorem Merge_refines_union_witness:
  "Merge (sketch_of {''a'', ''b''}) (sketch_of {''b'', ''c''}) = Some (sketch_of ({''a'', ''b''} \<union> {''b'', ''c''}))"
  by (rule Merge_refines_union) simp_all

text \<open>
  C21. \<^verbatim>\<open>FromBytes\<close> inverts \<^verbatim>\<open>Bytes\<close> and accepts nothing else: it returns a
  sketch exactly for the encoding of that sketch, and every other byte string is rejected
  with the format error.
\<close>

theorem FromBytes_iff_Bytes:
  "(FromBytes b = Inr s \<longleftrightarrow> length (regs s) = hll_m \<and> b = Bytes s) \<and>
   (FromBytes b = Inl ErrSketch \<longleftrightarrow> (\<nexists>t. length (regs t) = hll_m \<and> b = Bytes t))"
proof -
  have inv: "FromBytes (Bytes t) = Inr t" if "length (regs t) = hll_m" for t
    using that by (simp add: FromBytes_def Bytes_def New_def)
  have sum: "FromBytes b = Inl ErrSketch \<or> (\<exists>t. FromBytes b = Inr t)"
    by (simp add: FromBytes_def)
  show ?thesis using inv sum FromBytes_Inr by (metis Inl_Inr_False)
qed

text \<open>
  The rank stored for a hash is one more than the number of leading zeros of the hash
  without its top 14 bits, capped at 51: the \<^verbatim>\<open>uint8\<close> arithmetic does not wrap, and
  the register it goes to is in range.
\<close>

lemma rank_and_index_bounds:
  "unat (reg_rank h) = min (leading_zeros64 (push_bit Precision h) + 1) 51 \<and>
   1 \<le> reg_rank h \<and> reg_rank h \<le> 51 \<and> reg_index h < length (regs New)"
  using unat_reg_rank [of h] reg_rank_le [of h] reg_index_less [of h]
  by (simp add: word_le_nat_alt New_def)

end
