(* ===== verification/Store.thy ===== *)
theory Store
  imports Hll
begin

text \<open>
  The write side of \<^verbatim>\<open>src/internal/store/store.go\<close>: connecting, the batch insert with
  its rollup (\<^verbatim>\<open>insertBatchSQL\<close>) and the unique-user sketches
  (\<^verbatim>\<open>updateUniques\<close>), over the three tables of \<^verbatim>\<open>src/migrations\<close>.

  A \<^verbatim>\<open>time.Time\<close> is its UTC instant in nanoseconds since the epoch. Postgres keeps
  \<^verbatim>\<open>timestamptz\<close> in microseconds; rows carry that. The date text
  \<^verbatim>\<open>YYYY-MM-DD\<close> of a sketch key is represented by its day number, the value the cast
  \<^verbatim>\<open>$2::date\<close> gives it.

  What is not under \<^verbatim>\<open>src\<close> is a field of \<open>pg_env\<close> or \<open>faults\<close>: how
  Postgres collates text and breaks ties in \<^verbatim>\<open>ORDER BY\<close>, which values a row's columns
  accept, what \<^verbatim>\<open>json.Marshal\<close> returns, and which round trip of a call fails.
\<close>

section \<open>Data\<close>

datatype json =
    JNull
  | JBool bool
  | JNum real
  | JStr string
  | JArr "json list"
  | JObj "(string \<times> json) list"

type_synonym props = "(string \<times> json) list"

text \<open>\<open>None\<close> is the nil map.\<close>

record event =
  EventID :: string
  Name :: string
  DistinctID :: string
  Properties :: "props option"
  TS :: int

text \<open>A row of the table \<^verbatim>\<open>events\<close>; \<open>row_ts\<close> in microseconds.\<close>

record row =
  row_event_id :: string
  row_name :: string
  row_distinct_id :: string
  row_properties :: string
  row_ts :: int

type_synonym minute_key = "string \<times> int"
type_synonym uniqueKey = "string \<times> int"

text \<open>The three tables; the second and third are keyed by their primary keys.\<close>

record db =
  events_tbl :: "row list"
  counts_minute :: "(minute_key \<times> int) list"
  uniques_day :: "(uniqueKey \<times> byte list) list"

definition empty_db :: db where
  "empty_db = \<lparr>events_tbl = [], counts_minute = [], uniques_day = []\<rparr>"

record pg_env =
  collation :: "string \<Rightarrow> string"
  tiebreak :: "row \<Rightarrow> nat"
  row_accepted :: "row \<Rightarrow> bool"
  json_marshal :: "props \<Rightarrow> string option"

text \<open>
  The outcome of the round trips of one call: \<open>stmt_fault f n\<close> is the error of its \<open>n\<close>th
  round trip. A commit may fail, or succeed on the server while the acknowledgement is lost.
\<close>

datatype commit_result = CommitOk | CommitErr string | CommitLost string

record faults =
  stmt_fault :: "nat \<Rightarrow> string option"
  commit_fault :: commit_result

definition no_faults :: faults where
  "no_faults = \<lparr>stmt_fault = (\<lambda>_. None), commit_fault = CommitOk\<rparr>"

definition round_trip :: "faults \<Rightarrow> nat \<Rightarrow> go_error + unit" where
  "round_trip f n = (case stmt_fault f n of Some msg \<Rightarrow> Inl (ErrDB msg) | None \<Rightarrow> Inr ())"

section \<open>Connecting\<close>

text \<open>
  \<^verbatim>\<open>store.New\<close>: open the pool, then ping up to 30 times. The result also says whether
  the pool is left open.
\<close>

function ping_loop :: "(nat \<Rightarrow> string option) \<Rightarrow> nat \<Rightarrow> go_error option \<Rightarrow> bool \<times> (go_error + unit)" where
  "ping_loop ping attempt lastErr =
     (if attempt \<le> 30
      then (case ping attempt of
              None \<Rightarrow> (True, Inr ())
            | Some msg \<Rightarrow> ping_loop ping (attempt + 1) (Some (ErrDB msg)))
      else (False, Inl (ErrUnreachable (case lastErr of None \<Rightarrow> ErrDB [] | Some e \<Rightarrow> e))))"
  by pat_completeness auto
termination
  by (relation "measure (\<lambda>(ping, attempt, lastErr). 31 - attempt)") auto

declare ping_loop.simps [simp del]

definition store_New :: "string option \<Rightarrow> (nat \<Rightarrow> string option) \<Rightarrow> bool \<times> (go_error + unit)" where
  "store_New open_err ping =
     (case open_err of Some msg \<Rightarrow> (False, Inl (ErrDB msg)) | None \<Rightarrow> ping_loop ping 1 None)"

section \<open>The batch insert\<close>

definition minute_of :: "int \<Rightarrow> int" where
  "minute_of t = t - t mod 60000000"

definition row_key :: "row \<Rightarrow> minute_key" where
  "row_key r = (row_name r, minute_of (row_ts r))"

text \<open>
  The loop of \<^verbatim>\<open>InsertBatch\<close> that fills the column arrays: a nil map is stored as an
  empty one, and the first event that does not marshal ends the call.
\<close>

definition marshal_props :: "pg_env \<Rightarrow> event \<Rightarrow> string option" where
  "marshal_props env e = json_marshal env (case Properties e of None \<Rightarrow> [] | Some p \<Rightarrow> p)"

definition event_row :: "event \<Rightarrow> string \<Rightarrow> row" where
  "event_row e p =
     \<lparr>row_event_id = EventID e, row_name = Name e, row_distinct_id = DistinctID e,
      row_properties = p, row_ts = TS e div 1000\<rparr>"

fun marshal_rows :: "pg_env \<Rightarrow> event list \<Rightarrow> go_error + row list" where
  "marshal_rows env [] = Inr []"
| "marshal_rows env (e # es) =
     (case marshal_props env e of
        None \<Rightarrow> Inl ErrJSON
      | Some p \<Rightarrow> err_bind (marshal_rows env es) (\<lambda>rows. Inr (event_row e p # rows)))"

text \<open>\<^verbatim>\<open>ORDER BY event_id\<close>: sorted in the database's collation, ties in any order.\<close>

definition order_by_event_id :: "pg_env \<Rightarrow> row list \<Rightarrow> row list" where
  "order_by_event_id env = sort_key (\<lambda>r. (collation env (row_event_id r), tiebreak env r))"

text \<open>
  \<^verbatim>\<open>INSERT INTO events ... ON CONFLICT (event_id) DO NOTHING RETURNING ...\<close>: the new
  table and the rows that were inserted.
\<close>

fun insert_do_nothing :: "row list \<Rightarrow> row list \<Rightarrow> row list \<times> row list" where
  "insert_do_nothing [] tbl = (tbl, [])"
| "insert_do_nothing (r # rs) tbl =
     (if row_event_id r \<in> row_event_id ` set tbl then insert_do_nothing rs tbl
      else let (tbl', out) = insert_do_nothing rs (tbl @ [r]) in (tbl', r # out))"

text \<open>
  \<^verbatim>\<open>ON CONFLICT (name, minute) DO UPDATE SET n = event_counts_minute.n + EXCLUDED.n\<close>.
\<close>

definition upsert_count :: "(minute_key \<times> int) \<Rightarrow> (minute_key \<times> int) list \<Rightarrow> (minute_key \<times> int) list" where
  "upsert_count = (\<lambda>(k, n) tbl.
     case map_of tbl k of None \<Rightarrow> AList.update k n tbl | Some old \<Rightarrow> AList.update k (old + n) tbl)"

text \<open>\<^verbatim>\<open>SELECT name, minute, count(*) FROM inserted GROUP BY 1, 2 ORDER BY 1, 2\<close>.\<close>

definition group_minutes :: "row list \<Rightarrow> (minute_key \<times> int) list" where
  "group_minutes rows =
     map (\<lambda>k. (k, int (length (filter (\<lambda>r. row_key r = k) rows))))
       (sort (remdups (map row_key rows)))"

text \<open>The whole statement: it fails as a whole or takes effect as a whole.\<close>

definition insertBatchSQL :: "pg_env \<Rightarrow> db \<Rightarrow> row list \<Rightarrow> go_error + db \<times> int" where
  "insertBatchSQL env d rows =
     (if \<not> list_all (row_accepted env) rows then Inl (ErrDB ''invalid value'')
      else let (tbl, inserted) = insert_do_nothing (order_by_event_id env rows) (events_tbl d)
           in Inr (d\<lparr>events_tbl := tbl,
                     counts_minute := fold upsert_count (group_minutes inserted) (counts_minute d)\<rparr>,
                   int (length inserted)))"

section \<open>The unique-user sketches\<close>

definition utc_day :: "int \<Rightarrow> int" where
  "utc_day t = t div 86400000000000"

definition unique_key :: "event \<Rightarrow> uniqueKey" where
  "unique_key e = (Name e, utc_day (TS e))"

text \<open>\<^verbatim>\<open>groups[k] = append(groups[k], e.DistinctID)\<close>.\<close>

definition append_group :: "uniqueKey \<Rightarrow> string \<Rightarrow> (uniqueKey \<times> string list) list \<Rightarrow> (uniqueKey \<times> string list) list" where
  "append_group k v g =
     AList.update k ((case map_of g k of None \<Rightarrow> [] | Some vs \<Rightarrow> vs) @ [v]) g"

fun group_ids :: "event list \<Rightarrow> (uniqueKey \<times> string list) list \<Rightarrow> (uniqueKey \<times> string list) list" where
  "group_ids [] g = g"
| "group_ids (e # es) g =
     (if DistinctID e = [] then group_ids es g
      else group_ids es (append_group (unique_key e) (DistinctID e) g))"

text \<open>
  One iteration of the loop over the sorted keys: make sure the row is there, lock and read
  it, add the identifiers, write it back. \<open>n\<close> counts the round trips.
\<close>

definition update_key :: "faults \<Rightarrow> nat \<Rightarrow> uniqueKey \<Rightarrow> string list \<Rightarrow> db \<Rightarrow> go_error + db" where
  "update_key f n k vs d =
     err_bind (round_trip f n) (\<lambda>_.
     let d1 = (case map_of (uniques_day d) k of
                 Some _ \<Rightarrow> d
               | None \<Rightarrow> d\<lparr>uniques_day := AList.update k (Bytes New) (uniques_day d)\<rparr>) in
     err_bind (round_trip f (n + 1)) (\<lambda>_.
     case map_of (uniques_day d1) k of
       None \<Rightarrow> Inl ErrNoRows
     | Some raw \<Rightarrow>
         (case FromBytes raw of
            Inl _ \<Rightarrow> Inl (ErrCorrupt (fst k) (snd k))
          | Inr sk \<Rightarrow>
              (case add_all sk vs of
                 None \<Rightarrow> Inl GoPanic
               | Some sk' \<Rightarrow>
                   err_bind (round_trip f (n + 2)) (\<lambda>_.
                   Inr (d1\<lparr>uniques_day := AList.update k (Bytes sk') (uniques_day d1)\<rparr>))))))"

fun update_keys :: "faults \<Rightarrow> nat \<Rightarrow> (uniqueKey \<times> string list) list \<Rightarrow> uniqueKey list \<Rightarrow> db \<Rightarrow> go_error + db" where
  "update_keys f n g [] d = Inr d"
| "update_keys f n g (k # ks) d =
     err_bind (update_key f n k (case map_of g k of None \<Rightarrow> [] | Some vs \<Rightarrow> vs) d)
       (update_keys f (n + 3) g ks)"

definition updateUniques :: "faults \<Rightarrow> nat \<Rightarrow> event list \<Rightarrow> db \<Rightarrow> go_error + db" where
  "updateUniques f n events d =
     (let groups = group_ids events [] in
      if groups = [] then Inr d else update_keys f n groups (sort (map fst groups)) d)"

section \<open>InsertBatch\<close>

text \<open>
  The call as a whole: round trip 0 is \<^verbatim>\<open>Begin\<close>, 1 the batch statement, the rest
  belong to \<^verbatim>\<open>updateUniques\<close>. An error before the commit rolls everything back.
\<close>

definition insert_tx :: "pg_env \<Rightarrow> faults \<Rightarrow> event list \<Rightarrow> row list \<Rightarrow> db \<Rightarrow> go_error + db \<times> int" where
  "insert_tx env f events rows d =
     err_bind (round_trip f 0) (\<lambda>_.
     err_bind (round_trip f 1) (\<lambda>_.
     err_bind (insertBatchSQL env d rows) (\<lambda>(d1, inserted).
     err_bind (updateUniques f 2 events d1) (\<lambda>d2.
     Inr (d2, inserted)))))"

definition InsertBatch :: "pg_env \<Rightarrow> faults \<Rightarrow> db \<Rightarrow> event list \<Rightarrow> db \<times> (go_error + int)" where
  "InsertBatch env f d events =
     (if events = [] then (d, Inr 0)
      else case marshal_rows env events of
        Inl e \<Rightarrow> (d, Inl e)
      | Inr rows \<Rightarrow>
          (case insert_tx env f events rows d of
             Inl e \<Rightarrow> (d, Inl e)
           | Inr (d', inserted) \<Rightarrow>
               (case commit_fault f of
                  CommitOk \<Rightarrow> (d', Inr inserted)
                | CommitErr msg \<Rightarrow> (d, Inl (ErrDB msg))
                | CommitLost msg \<Rightarrow> (d', Inl (ErrDB msg)))))"

section \<open>The connection loop\<close>

lemma ping_loop_result:
  "if \<exists>a \<ge> n. a \<le> 30 \<and> ping a = None then ping_loop ping n e = (True, Inr ())
   else \<exists>e'. ping_loop ping n e = (False, Inl (ErrUnreachable e'))"
proof (induction ping n e rule: ping_loop.induct)
  case (1 ping n e)
  show ?case
  proof (cases "n \<le> 30 \<and> ping n \<noteq> None")
    case True
    then obtain msg where msg: "ping n = Some msg" by auto
    have "(\<exists>a \<ge> n. a \<le> 30 \<and> ping a = None) \<longleftrightarrow> (\<exists>a \<ge> n + 1. a \<le> 30 \<and> ping a = None)"
      using msg by (metis Suc_eq_plus1 Suc_leD le_antisym not_less_eq_eq option.distinct(1))
    with 1 [OF _ msg] True msg show ?thesis
      by (auto simp: ping_loop.simps [of ping n e] split: if_splits)
  next
    case False
    then show ?thesis by (cases "ping n") (auto simp: ping_loop.simps [of ping n e])
  qed
qed

section \<open>The events table\<close>

abbreviation ids_of :: "row list \<Rightarrow> string set" where
  "ids_of rows \<equiv> row_event_id ` set rows"

definition stored_ids :: "db \<Rightarrow> string set" where
  "stored_ids d = ids_of (events_tbl d)"

lemma fst_insert_do_nothing:
  "fst (insert_do_nothing rs tbl) = tbl @ snd (insert_do_nothing rs tbl)"
  by (induction rs tbl rule: insert_do_nothing.induct) (auto simp: case_prod_beta Let_def)

lemma ids_insert_do_nothing:
  "ids_of (fst (insert_do_nothing rs tbl)) = ids_of tbl \<union> ids_of rs"
  by (induction rs tbl rule: insert_do_nothing.induct) (auto simp: case_prod_beta Let_def)

lemma distinct_insert_do_nothing:
  "distinct (map row_event_id tbl) \<Longrightarrow>
   distinct (map row_event_id (fst (insert_do_nothing rs tbl)))"
  by (induction rs tbl rule: insert_do_nothing.induct) (auto simp: case_prod_beta Let_def)

lemma subset_insert_do_nothing: "set (snd (insert_do_nothing rs tbl)) \<subseteq> set rs"
  by (induction rs tbl rule: insert_do_nothing.induct) (auto simp: case_prod_beta Let_def)

lemma insert_do_nothing_all_present:
  "ids_of rs \<subseteq> ids_of tbl \<Longrightarrow> insert_do_nothing rs tbl = (tbl, [])"
  by (induction rs tbl rule: insert_do_nothing.induct) auto

text \<open>One row is inserted for every identifier that is new to the table.\<close>

lemma card_insert_do_nothing:
  assumes "distinct (map row_event_id tbl)"
  shows "length (snd (insert_do_nothing rs tbl)) = card (ids_of rs - ids_of tbl)"
proof -
  let ?out = "snd (insert_do_nothing rs tbl)"
  have d: "distinct (map row_event_id (tbl @ ?out))"
    using assms distinct_insert_do_nothing fst_insert_do_nothing by metis
  have "ids_of tbl \<union> ids_of ?out = ids_of tbl \<union> ids_of rs"
    using ids_insert_do_nothing [of rs tbl] by (simp add: fst_insert_do_nothing image_Un)
  moreover have "ids_of tbl \<inter> ids_of ?out = {}" using d by auto
  ultimately have "ids_of rs - ids_of tbl = ids_of ?out" by blast
  then have "ids_of rs - ids_of tbl = set (map row_event_id ?out)" by simp
  then have "card (ids_of rs - ids_of tbl) = card (set (map row_event_id ?out))" by (rule arg_cong)
  also have "\<dots> = length (map row_event_id ?out)" using d by (intro distinct_card) simp
  finally show ?thesis by simp
qed

lemma set_order_by_event_id [simp]: "set (order_by_event_id env rows) = set rows"
  by (simp add: order_by_event_id_def)

section \<open>The rollup table\<close>

text \<open>The specification: how many stored rows fall into a bucket, if any does.\<close>

definition roll_spec :: "row list \<Rightarrow> minute_key \<Rightarrow> int option" where
  "roll_spec rows k =
     (if k \<in> row_key ` set rows then Some (int (length (filter (\<lambda>r. row_key r = k) rows))) else None)"

lemma map_of_upsert_count:
  "map_of (upsert_count (k, n) t) =
   (map_of t)(k \<mapsto> (case map_of t k of None \<Rightarrow> 0 | Some m \<Rightarrow> m) + n)"
  by (auto simp: upsert_count_def update_conv' split: option.splits)

lemma map_of_fold_upsert_count:
  "distinct (map fst gs) \<Longrightarrow>
   map_of (fold upsert_count gs t) k =
     (case map_of gs k of
        None \<Rightarrow> map_of t k
      | Some n \<Rightarrow> Some ((case map_of t k of None \<Rightarrow> 0 | Some m \<Rightarrow> m) + n))"
proof (induction gs arbitrary: t)
  case (Cons g gs)
  obtain k' n where g: "g = (k', n)" by fastforce
  with Cons.prems have "map_of gs k' = None" by (auto simp: map_of_eq_None_iff)
  with Cons show ?case by (auto simp: g map_of_upsert_count split: option.splits)
qed simp

lemma distinct_fold_upsert_count:
  "distinct (map fst t) \<Longrightarrow> distinct (map fst (fold upsert_count gs t))"
  by (induction gs arbitrary: t)
    (auto simp: upsert_count_def distinct_update split: option.splits prod.splits)

lemma map_of_group_minutes: "map_of (group_minutes rows) k = roll_spec rows k"
  by (auto simp: group_minutes_def roll_spec_def map_of_map_restrict restrict_map_def)

lemma distinct_group_minutes: "distinct (map fst (group_minutes rows))"
  by (simp add: group_minutes_def comp_def)

lemma roll_spec_append:
  "roll_spec (xs @ ys) k =
     (case roll_spec ys k of
        None \<Rightarrow> roll_spec xs k
      | Some n \<Rightarrow> Some ((case roll_spec xs k of None \<Rightarrow> 0 | Some m \<Rightarrow> m) + n))"
proof -
  have "filter (\<lambda>r. row_key r = k) zs = []" if "k \<notin> row_key ` set zs" for zs
    using that by (auto simp: filter_empty_conv)
  then show ?thesis by (auto simp: roll_spec_def)
qed

section \<open>The sketch table\<close>

text \<open>The users a sketch row stands for, over all events handed to the table so far.\<close>

definition users :: "event list \<Rightarrow> uniqueKey \<Rightarrow> string set" where
  "users es k = DistinctID ` {e \<in> set es. DistinctID e \<noteq> [] \<and> unique_key e = k}"

definition uniq_spec :: "event list \<Rightarrow> uniqueKey \<Rightarrow> byte list option" where
  "uniq_spec es k = (if users es k = {} then None else Some (Bytes (sketch_of (users es k))))"

lemma finite_users [simp]: "finite (users es k)"
  by (simp add: users_def)

lemma users_Nil [simp]: "users [] k = {}"
  by (simp add: users_def)

lemma users_Cons:
  "users (e # es) k =
   (if DistinctID e \<noteq> [] \<and> unique_key e = k then insert (DistinctID e) (users es k) else users es k)"
  by (auto simp: users_def)

lemma users_append [simp]: "users (xs @ ys) k = users xs k \<union> users ys k"
  by (auto simp: users_def)

lemma map_of_group_ids:
  "(case map_of (group_ids es g) k of None \<Rightarrow> {} | Some vs \<Rightarrow> set vs) =
     (case map_of g k of None \<Rightarrow> {} | Some vs \<Rightarrow> set vs) \<union> users es k"
  by (induction es g rule: group_ids.induct)
    (auto simp: users_Cons append_group_def update_conv' split: option.splits if_splits)

lemma dom_group_ids: "fst ` set (group_ids es g) = fst ` set g \<union> {k. users es k \<noteq> {}}"
  by (induction es g rule: group_ids.induct)
    (auto simp: users_Cons append_group_def dom_update split: if_splits)

lemma distinct_group_ids:
  "distinct (map fst g) \<Longrightarrow> distinct (map fst (group_ids es g))"
  by (induction es g rule: group_ids.induct) (simp_all add: append_group_def distinct_update)

lemma round_trip_cases: "round_trip f n = Inr () \<or> (\<exists>msg. round_trip f n = Inl (ErrDB msg))"
  by (simp add: round_trip_def split: option.split)

lemma round_trip_Inl: "round_trip f n = Inl e \<Longrightarrow> \<exists>msg. e = ErrDB msg"
  by (auto simp: round_trip_def split: option.splits)

lemma round_trip_no_faults [simp]: "round_trip no_faults n = Inr ()"
  by (simp add: round_trip_def no_faults_def)

text \<open>
  On a row that holds the sketch of \<open>A\<close> (or is absent, for the empty set), one iteration
  either fails at a round trip or writes the sketch of \<open>A \<union> set vs\<close>.
\<close>

lemma update_key_eq:
  assumes "map_of (uniques_day d) k = (if A = {} then None else Some (Bytes (sketch_of A)))"
    and "finite A"
  shows "update_key f n k vs d =
    err_bind (round_trip f n) (\<lambda>_. err_bind (round_trip f (n + 1)) (\<lambda>_.
    err_bind (round_trip f (n + 2)) (\<lambda>_.
      Inr (d\<lparr>uniques_day := AList.update k (Bytes (sketch_of (A \<union> set vs))) (uniques_day d)\<rparr>))))"
proof (cases "A = {}")
  case True
  have "add_all New vs = Some (sketch_of (set vs))"
    using foldl_add_total_sketch_of [of "{}" vs] by (simp add: add_all_foldl sketch_of_empty)
  with True assms show ?thesis
    by (simp add: update_key_def update_conv' FromBytes_Bytes)
next
  case False
  have "add_all (sketch_of A) vs = Some (sketch_of (A \<union> set vs))"
    using assms(2) by (simp add: add_all_foldl sketch_ok_sketch_of foldl_add_total_sketch_of)
  with False assms show ?thesis
    by (simp add: update_key_def FromBytes_Bytes sketch_ok_sketch_of)
qed

lemma update_key_cases:
  assumes "map_of (uniques_day d) k = uniq_spec hist k"
  shows "update_key f n k vs d =
      Inr (d\<lparr>uniques_day :=
        AList.update k (Bytes (sketch_of (users hist k \<union> set vs))) (uniques_day d)\<rparr>) \<or>
    (\<exists>msg. update_key f n k vs d = Inl (ErrDB msg)) \<and> (\<exists>i. stmt_fault f i \<noteq> None)"
proof -
  have eq: "update_key f n k vs d =
    err_bind (round_trip f n) (\<lambda>_. err_bind (round_trip f (n + 1)) (\<lambda>_.
    err_bind (round_trip f (n + 2)) (\<lambda>_.
      Inr (d\<lparr>uniques_day :=
        AList.update k (Bytes (sketch_of (users hist k \<union> set vs))) (uniques_day d)\<rparr>))))"
    using assms by (intro update_key_eq) (simp_all add: uniq_spec_def)
  have fault: "round_trip f i = Inr () \<or>
      (\<exists>msg. round_trip f i = Inl (ErrDB msg)) \<and> stmt_fault f i \<noteq> None" for i
    by (simp add: round_trip_def split: option.split)
  show ?thesis unfolding eq
    using fault [of n] fault [of "n + 1"] fault [of "n + 2"] by (elim disjE conjE exE) auto
qed

definition group_members :: "(uniqueKey \<times> string list) list \<Rightarrow> uniqueKey \<Rightarrow> string list" where
  "group_members g k = (case map_of g k of None \<Rightarrow> [] | Some vs \<Rightarrow> vs)"

abbreviation new_sketch :: "event list \<Rightarrow> (uniqueKey \<times> string list) list \<Rightarrow> uniqueKey \<Rightarrow> byte list" where
  "new_sketch hist g k \<equiv> Bytes (sketch_of (users hist k \<union> set (group_members g k)))"

lemma map_of_fold_update:
  "map_of (fold (\<lambda>k. AList.update k (v k)) ks t) k = (if k \<in> set ks then Some (v k) else map_of t k)"
  by (induction ks arbitrary: t) (auto simp: update_conv')

lemma fold_update_triv:
  "(\<And>k. k \<in> set ks \<Longrightarrow> map_of t k = Some (v k)) \<Longrightarrow> fold (\<lambda>k. AList.update k (v k)) ks t = t"
  by (induction ks) (simp_all add: update_triv)

lemma distinct_fold_update:
  "distinct (map fst t) \<Longrightarrow> distinct (map fst (fold (\<lambda>k. AList.update k (v k)) ks t))"
  by (induction ks arbitrary: t) (simp_all add: distinct_update)

lemma update_keys_cases:
  assumes "distinct ks" and "\<And>k. k \<in> set ks \<Longrightarrow> map_of (uniques_day d) k = uniq_spec hist k"
  shows "update_keys f n g ks d =
      Inr (d\<lparr>uniques_day := fold (\<lambda>k. AList.update k (new_sketch hist g k)) ks (uniques_day d)\<rparr>) \<or>
    (\<exists>msg. update_keys f n g ks d = Inl (ErrDB msg)) \<and> (\<exists>i. stmt_fault f i \<noteq> None)"
  using assms
proof (induction ks arbitrary: n d)
  case Nil
  then show ?case by simp
next
  case (Cons k ks)
  let ?d = "d\<lparr>uniques_day := AList.update k (new_sketch hist g k) (uniques_day d)\<rparr>"
  have "update_key f n k (group_members g k) d = Inr ?d \<or>
      (\<exists>msg. update_key f n k (group_members g k) d = Inl (ErrDB msg)) \<and> (\<exists>i. stmt_fault f i \<noteq> None)"
    using Cons.prems(2) by (intro update_key_cases) simp
  then show ?case
  proof
    assume step: "update_key f n k (group_members g k) d = Inr ?d"
    have "update_keys f (n + 3) g ks ?d =
        Inr (?d\<lparr>uniques_day := fold (\<lambda>k. AList.update k (new_sketch hist g k)) ks (uniques_day ?d)\<rparr>) \<or>
      (\<exists>msg. update_keys f (n + 3) g ks ?d = Inl (ErrDB msg)) \<and> (\<exists>i. stmt_fault f i \<noteq> None)"
      using Cons.prems by (intro Cons.IH) (auto simp: update_conv')
    with step show ?thesis by (simp add: group_members_def)
  next
    assume "(\<exists>msg. update_key f n k (group_members g k) d = Inl (ErrDB msg)) \<and> (\<exists>i. stmt_fault f i \<noteq> None)"
    then show ?thesis by (auto simp: group_members_def)
  qed
qed

section \<open>The invariant of the database\<close>

text \<open>
  Relative to the events \<open>hist\<close> of the committed batches: identifiers are unique, every
  rollup counter is the number of stored rows in its bucket, every sketch is the sketch of the
  users in \<open>hist\<close>, exactly the identifiers of \<open>hist\<close> are stored, and every stored row is
  one of its events.
\<close>

definition tables_inv :: "db \<Rightarrow> bool" where
  "tables_inv d \<longleftrightarrow>
     distinct (map row_event_id (events_tbl d)) \<and>
     distinct (map fst (counts_minute d)) \<and>
     (\<forall>k. map_of (counts_minute d) k = roll_spec (events_tbl d) k)"

definition uniq_inv :: "event list \<Rightarrow> db \<Rightarrow> bool" where
  "uniq_inv hist d \<longleftrightarrow>
     distinct (map fst (uniques_day d)) \<and> (\<forall>k. map_of (uniques_day d) k = uniq_spec hist k)"

abbreviation event_ids :: "event list \<Rightarrow> string set" where
  "event_ids es \<equiv> EventID ` set es"

definition row_matches :: "row \<Rightarrow> event \<Rightarrow> bool" where
  "row_matches r e \<longleftrightarrow>
     row_event_id r = EventID e \<and> row_name r = Name e \<and> row_distinct_id r = DistinctID e \<and>
     row_ts r = TS e div 1000"

definition rows_inv :: "event list \<Rightarrow> db \<Rightarrow> bool" where
  "rows_inv hist d \<longleftrightarrow>
     stored_ids d = event_ids hist \<and> (\<forall>r \<in> set (events_tbl d). \<exists>e \<in> set hist. row_matches r e)"

definition db_inv :: "event list \<Rightarrow> db \<Rightarrow> bool" where
  "db_inv hist d \<longleftrightarrow> tables_inv d \<and> uniq_inv hist d \<and> rows_inv hist d"

lemma db_inv_empty [simp, inv_intros]: "db_inv [] empty_db"
  by (simp add: db_inv_def tables_inv_def uniq_inv_def rows_inv_def stored_ids_def empty_db_def
      roll_spec_def uniq_spec_def)

lemma users_cong: "set h = set h' \<Longrightarrow> users h k = users h' k"
  by (simp add: users_def)

lemma db_inv_cong: "set h = set h' \<Longrightarrow> db_inv h d = db_inv h' d"
  using users_cong [of h h'] by (simp add: db_inv_def uniq_inv_def rows_inv_def uniq_spec_def)

lemma db_inv_stored: "db_inv hist d \<Longrightarrow> stored_ids d = event_ids hist"
  by (simp add: db_inv_def rows_inv_def)

lemma marshal_rows_columns:
  "marshal_rows env es = Inr rows \<Longrightarrow>
   map row_event_id rows = map EventID es \<and> map row_name rows = map Name es \<and>
   map row_distinct_id rows = map DistinctID es \<and> map row_ts rows = map (\<lambda>e. TS e div 1000) es"
  by (induction es arbitrary: rows)
    (auto simp: err_bind_eq_Inr event_row_def split: option.splits)

lemma marshal_rows_ids: "marshal_rows env es = Inr rows \<Longrightarrow> ids_of rows = event_ids es"
  by (metis list.set_map marshal_rows_columns)

lemma marshal_rows_matches:
  "marshal_rows env es = Inr rows \<Longrightarrow> r \<in> set rows \<Longrightarrow> \<exists>e \<in> set es. row_matches r e"
  by (induction es arbitrary: rows)
    (auto simp: err_bind_eq_Inr row_matches_def event_row_def split: option.splits)

lemma marshal_rows_Inl: "marshal_rows env es = Inl e \<Longrightarrow> e = ErrJSON"
  by (induction es) (auto simp: err_bind_eq_Inl split: option.splits)

text \<open>The batch statement keeps the tables in step and touches no sketch.\<close>

lemma insertBatchSQL_ok:
  assumes "tables_inv d" and "insertBatchSQL env d rows = Inr (d', n)"
  shows "tables_inv d'" and "uniques_day d' = uniques_day d"
    and "stored_ids d' = stored_ids d \<union> ids_of rows"
    and "n = int (card (ids_of rows - stored_ids d))"
    and "set (events_tbl d') \<subseteq> set (events_tbl d) \<union> set rows"
proof -
  let ?rs = "order_by_event_id env rows"
  let ?ins = "insert_do_nothing ?rs (events_tbl d)"
  have d': "d' = d\<lparr>events_tbl := fst ?ins,
      counts_minute := fold upsert_count (group_minutes (snd ?ins)) (counts_minute d)\<rparr>"
    and n: "n = int (length (snd ?ins))"
    using assms(2) by (auto simp: insertBatchSQL_def case_prod_beta Let_def split: if_splits)
  show "tables_inv d'"
    using assms(1)
    by (auto simp: d' tables_inv_def distinct_insert_do_nothing distinct_fold_upsert_count
        map_of_fold_upsert_count [OF distinct_group_minutes] map_of_group_minutes
        fst_insert_do_nothing [of ?rs] roll_spec_append split: option.split
        simp del: map_append)
      (metis distinct_insert_do_nothing fst_insert_do_nothing)
  show "uniques_day d' = uniques_day d" by (simp add: d')
  show "stored_ids d' = stored_ids d \<union> ids_of rows"
    using ids_insert_do_nothing [of ?rs "events_tbl d"] by (simp add: d' stored_ids_def)
  show "n = int (card (ids_of rows - stored_ids d))"
    using assms(1) card_insert_do_nothing [of "events_tbl d" ?rs]
    by (simp add: n stored_ids_def tables_inv_def)
  show "set (events_tbl d') \<subseteq> set (events_tbl d) \<union> set rows"
    using subset_insert_do_nothing [of ?rs "events_tbl d"]
    by (auto simp: d' fst_insert_do_nothing)
qed

lemma insertBatchSQL_Inl: "insertBatchSQL env d rows = Inl e \<Longrightarrow> \<exists>msg. e = ErrDB msg"
  by (auto simp: insertBatchSQL_def case_prod_beta Let_def split: if_splits)

text \<open>Folding a batch into the sketches: what it writes, and that it fails only at a round trip.\<close>

lemma users_group_members: "set (group_members (group_ids es []) k) = users es k"
  using map_of_group_ids [of es "[]" k] by (simp add: group_members_def split: option.splits)

lemma updateUniques_cases:
  assumes "uniq_inv hist d"
  shows "updateUniques f n es d =
      Inr (d\<lparr>uniques_day := fold (\<lambda>k. AList.update k (Bytes (sketch_of (users (hist @ es) k))))
                             (sort (map fst (group_ids es []))) (uniques_day d)\<rparr>) \<or>
    (\<exists>msg. updateUniques f n es d = Inl (ErrDB msg)) \<and> (\<exists>i. stmt_fault f i \<noteq> None)"
proof (cases "group_ids es [] = []")
  case True
  then show ?thesis by (simp add: updateUniques_def)
next
  case False
  have "distinct (sort (map fst (group_ids es [])))"
    by (simp add: distinct_group_ids)
  then show ?thesis
    using False assms
      update_keys_cases [of "sort (map fst (group_ids es []))" d hist f n "group_ids es []"]
    by (simp add: updateUniques_def uniq_inv_def users_group_members Let_def
        del: split_paired_All)
qed

lemma updateUniques_Inl:
  "uniq_inv hist d \<Longrightarrow> updateUniques f n es d = Inl e \<Longrightarrow> \<exists>msg. e = ErrDB msg"
  using updateUniques_cases [of hist d f n es] by auto

lemma updateUniques_ok:
  assumes "uniq_inv hist d" and "updateUniques f n es d = Inr d'"
  shows "uniq_inv (hist @ es) d'" and "events_tbl d' = events_tbl d"
    and "counts_minute d' = counts_minute d"
proof -
  let ?ks = "sort (map fst (group_ids es []))"
  have d': "d' = d\<lparr>uniques_day := fold (\<lambda>k. AList.update k (Bytes (sketch_of (users (hist @ es) k))))
                             ?ks (uniques_day d)\<rparr>"
    using updateUniques_cases [OF assms(1), of f n es] assms(2) by auto
  have ks: "k \<in> set ?ks \<longleftrightarrow> users es k \<noteq> {}" for k
    using dom_group_ids [of es "[]"] by simp
  show "uniq_inv (hist @ es) d'"
    using assms(1) unfolding uniq_inv_def d'
    by (simp add: distinct_fold_update map_of_fold_update ks uniq_spec_def
        del: split_paired_All set_sort set_map)
  show "events_tbl d' = events_tbl d" "counts_minute d' = counts_minute d"
    by (simp_all add: d')
qed

text \<open>The transaction, before the outcome of its commit is known.\<close>

lemma insert_tx_ok:
  assumes "db_inv hist d" and "marshal_rows env es = Inr rows"
    and "insert_tx env f es rows d = Inr (d', n)"
  shows "db_inv (hist @ es) d'" and "stored_ids d' = stored_ids d \<union> event_ids es"
    and "n = int (card (event_ids es - stored_ids d))"
proof -
  obtain d1 where sql: "insertBatchSQL env d rows = Inr (d1, n)"
    and uu: "updateUniques f 2 es d1 = Inr d'"
    using assms(3) by (auto simp: insert_tx_def err_bind_eq_Inr)
  have t: "tables_inv d" and u: "uniq_inv hist d" using assms(1) by (auto simp: db_inv_def)
  note s = insertBatchSQL_ok [OF t sql]
  have "uniq_inv hist d1" using u s(2) by (simp add: uniq_inv_def)
  note q = updateUniques_ok [OF this uu]
  show st: "stored_ids d' = stored_ids d \<union> event_ids es"
    using s(3) q(2) marshal_rows_ids [OF assms(2)] by (simp add: stored_ids_def)
  have "\<exists>e \<in> set (hist @ es). row_matches r e" if "r \<in> set (events_tbl d')" for r
  proof -
    have "r \<in> set (events_tbl d) \<union> set rows" using that s(5) q(2) by auto
    then show ?thesis
      using assms(1) marshal_rows_matches [OF assms(2), of r]
      by (fastforce simp: db_inv_def rows_inv_def)
  qed
  then show "db_inv (hist @ es) d'"
    using s(1) q st db_inv_stored [OF assms(1)]
    by (simp add: db_inv_def tables_inv_def rows_inv_def image_Un)
  show "n = int (card (event_ids es - stored_ids d))"
    using s(4) marshal_rows_ids [OF assms(2)] by simp
qed

lemma insert_tx_Inl:
  assumes "db_inv hist d" and "insert_tx env f es rows d = Inl e"
  shows "\<exists>msg. e = ErrDB msg"
proof -
  have u: "uniq_inv hist d1" if "insertBatchSQL env d rows = Inr (d1, n)" for d1 n
    using that assms(1) insertBatchSQL_ok(2) [of d env rows d1 n]
    by (simp add: db_inv_def uniq_inv_def)
  show ?thesis
    using assms(2) unfolding insert_tx_def err_bind_eq_Inl case_prod_beta
    by (elim disjE exE conjE)
      (auto dest: round_trip_Inl insertBatchSQL_Inl updateUniques_Inl [OF u])
qed

text \<open>
  A batch of events that are all stored, with all their users already in the sketches, leaves
  the whole database as it is.
\<close>

lemma updateUniques_noop:
  assumes "uniq_inv hist d" and "\<And>k. users es k \<subseteq> users hist k"
    and "updateUniques f n es d = Inr d'"
  shows "d' = d"
proof -
  let ?ks = "sort (map fst (group_ids es []))"
  have eq: "users (hist @ es) k = users hist k" for k using assms(2) [of k] by auto
  have "fold (\<lambda>k. AList.update k (Bytes (sketch_of (users (hist @ es) k)))) ?ks (uniques_day d) = uniques_day d"
  proof (rule fold_update_triv)
    fix k assume "k \<in> set ?ks"
    then have "users es k \<noteq> {}" using dom_group_ids [of es "[]"] by simp
    then have "users hist k \<noteq> {}" using assms(2) [of k] by auto
    then show "map_of (uniques_day d) k = Some (Bytes (sketch_of (users (hist @ es) k)))"
      using assms(1) by (simp add: uniq_inv_def uniq_spec_def eq del: users_append split_paired_All)
  qed
  then show ?thesis
    using updateUniques_cases [OF assms(1), of f n es] assms(3) by auto
qed

lemma insertBatchSQL_noop:
  assumes "ids_of rows \<subseteq> stored_ids d" and "insertBatchSQL env d rows = Inr (d', n)"
  shows "d' = d \<and> n = 0"
proof -
  have "insert_do_nothing (order_by_event_id env rows) (events_tbl d) = (events_tbl d, [])"
    using assms(1) by (intro insert_do_nothing_all_present) (simp add: stored_ids_def)
  with assms(2) show ?thesis
    by (auto simp: insertBatchSQL_def group_minutes_def split: if_splits)
qed

lemma InsertBatch_noop:
  assumes "db_inv hist d" and "set es \<subseteq> set hist" and "InsertBatch env f d es = (d', res)"
  shows "d' = d \<and> (\<forall>n. res = Inr n \<longrightarrow> n = 0)"
proof (cases "marshal_rows env es")
  case (Inl e)
  then show ?thesis using assms(3) by (auto simp: InsertBatch_def split: if_splits)
next
  case (Inr rows)
  have tx: "d1 = d \<and> n = 0" if ok: "insert_tx env f es rows d = Inr (d1, n)" for d1 n
  proof -
    obtain d2 where sql: "insertBatchSQL env d rows = Inr (d2, n)"
      and uu: "updateUniques f 2 es d2 = Inr d1"
      using ok by (auto simp: insert_tx_def err_bind_eq_Inr)
    have "d2 = d \<and> n = 0"
      using assms(2) sql marshal_rows_ids [OF Inr] db_inv_stored [OF assms(1)]
      by (intro insertBatchSQL_noop) auto
    moreover have "uniq_inv hist d" using assms(1) by (simp add: db_inv_def)
    moreover have "users es k \<subseteq> users hist k" for k using assms(2) by (auto simp: users_def)
    ultimately show ?thesis using updateUniques_noop uu by blast
  qed
  show ?thesis
  proof (cases "insert_tx env f es rows d")
    case (Inl e)
    with Inr show ?thesis using assms(3) by (auto simp: InsertBatch_def split: if_splits)
  next
    case tx_ok: (Inr r)
    obtain d1 n where "r = (d1, n)" by fastforce
    with tx_ok tx have "r = (d, 0)" by blast
    with Inr tx_ok show ?thesis using assms(3)
      by (auto simp: InsertBatch_def split: if_splits commit_result.splits)
  qed
qed

text \<open>The two outcomes of the call.\<close>

lemma InsertBatch_Inr:
  assumes "db_inv hist d" and "InsertBatch env f d es = (d', Inr n)"
  shows "db_inv (hist @ es) d' \<and> n = int (card (event_ids es - stored_ids d))"
proof (cases "es = []")
  case True
  with assms show ?thesis by (simp add: InsertBatch_def)
next
  case False
  with assms(2) obtain rows where "marshal_rows env es = Inr rows"
    and "insert_tx env f es rows d = Inr (d', n)"
    by (auto simp: InsertBatch_def split: sum.splits commit_result.splits)
  with insert_tx_ok [OF assms(1)] show ?thesis by metis
qed

lemma InsertBatch_Inl:
  assumes "db_inv hist d" and "InsertBatch env f d es = (d', Inl e)"
  shows "(d' = d \<or> db_inv (hist @ es) d') \<and> (e = ErrJSON \<or> (\<exists>msg. e = ErrDB msg))"
proof (cases "marshal_rows env es")
  case (Inl e')
  with assms(2) marshal_rows_Inl [OF Inl] show ?thesis
    by (auto simp: InsertBatch_def split: if_splits)
next
  case (Inr rows)
  show ?thesis
  proof (cases "insert_tx env f es rows d")
    case (Inl e')
    with Inr assms(2) insert_tx_Inl [OF assms(1) Inl] show ?thesis
      by (auto simp: InsertBatch_def split: if_splits)
  next
    case tx_ok: (Inr r)
    obtain d1 n where r: "r = (d1, n)" by fastforce
    have "db_inv (hist @ es) d1" using insert_tx_ok(1) [OF assms(1) Inr] tx_ok r by simp
    with Inr tx_ok r assms(2) show ?thesis
      by (auto simp: InsertBatch_def split: if_splits commit_result.splits)
  qed
qed

text \<open>An event whose properties marshal to a row that the columns accept.\<close>

definition storable :: "pg_env \<Rightarrow> event \<Rightarrow> bool" where
  "storable env e \<longleftrightarrow>
     (case marshal_props env e of None \<Rightarrow> False | Some p \<Rightarrow> row_accepted env (event_row e p))"

lemma storable_marshal:
  "(\<forall>e \<in> set es. storable env e) \<longleftrightarrow>
   (\<exists>rows. marshal_rows env es = Inr rows \<and> list_all (row_accepted env) rows)"
  by (induction es) (auto simp: storable_def err_bind_eq_Inr split: option.splits)

lemma insertBatchSQL_accepted:
  "(\<exists>r. insertBatchSQL env d rows = Inr r) \<longleftrightarrow> list_all (row_accepted env) rows"
  by (simp add: insertBatchSQL_def case_prod_beta Let_def)

lemma InsertBatch_unstorable:
  assumes "e \<in> set es" and "\<not> storable env e"
  shows "\<exists>err. InsertBatch env f d es = (d, Inl err)"
proof (cases "marshal_rows env es")
  case (Inl err)
  with assms(1) show ?thesis by (auto simp: InsertBatch_def)
next
  case (Inr rows)
  with assms storable_marshal [of es env] have "\<not> list_all (row_accepted env) rows" by auto
  then obtain err where "insertBatchSQL env d rows = Inl err"
    using insertBatchSQL_accepted [of env d rows] by (cases "insertBatchSQL env d rows") auto
  then have "\<exists>err. insert_tx env f es rows d = Inl err"
    using round_trip_cases [of f 0] round_trip_cases [of f 1] by (auto simp: insert_tx_def)
  with Inr assms(1) show ?thesis by (auto simp: InsertBatch_def)
qed

lemma InsertBatch_no_faults:
  assumes "db_inv hist d" and "\<forall>e \<in> set es. storable env e"
    and "\<And>i. stmt_fault f i = None" and "commit_fault f = CommitOk"
  shows "\<exists>d' n. InsertBatch env f d es = (d', Inr n)"
proof -
  obtain rows where rows: "marshal_rows env es = Inr rows" "list_all (row_accepted env) rows"
    using assms(2) storable_marshal by metis
  then obtain d1 n where sql: "insertBatchSQL env d rows = Inr (d1, n)"
    using insertBatchSQL_accepted by (metis surj_pair)
  have "uniq_inv hist d1"
    using assms(1) insertBatchSQL_ok(2) [OF _ sql] by (simp add: db_inv_def uniq_inv_def)
  then obtain d2 where "updateUniques f 2 es d1 = Inr d2"
    using updateUniques_cases [of hist d1 f 2 es] assms(3) by auto
  then have "insert_tx env f es rows d = Inr (d2, n)"
    using sql assms(3) by (simp add: insert_tx_def round_trip_def)
  with rows(1) assms(4) show ?thesis by (simp add: InsertBatch_def)
qed

section \<open>The contract of the batch inserter\<close>

text \<open>
  What \<^verbatim>\<open>worker.BatchInserter\<close> promises to its callers, the worker pool and the Kafka
  consumer. \<open>inv h d\<close> says that \<open>d\<close> stores exactly the events \<open>h\<close>. A successful call adds
  its events and counts the new identifiers; a failed one changes nothing, or has in fact
  added its events (a lost acknowledgement).
\<close>

locale batch_inserter =
  fixes ins :: "'f \<Rightarrow> 'd \<Rightarrow> event list \<Rightarrow> 'd \<times> (go_error + int)"
    and inv :: "event list \<Rightarrow> 'd \<Rightarrow> bool"
    and ids :: "'d \<Rightarrow> string set"
  assumes ins_Inr: "inv h d \<Longrightarrow> ins f d es = (d', Inr n) \<Longrightarrow>
      inv (h @ es) d' \<and> n = int (card (event_ids es - ids d))"
    and ins_Inl: "inv h d \<Longrightarrow> ins f d es = (d', Inl e) \<Longrightarrow> d' = d \<or> inv (h @ es) d'"
    and ins_replay: "inv h d \<Longrightarrow> set es \<subseteq> set h \<Longrightarrow> ins f d es = (d', r) \<Longrightarrow> d' = d"
    and inv_cong: "set h = set h' \<Longrightarrow> inv h d \<Longrightarrow> inv h' d"
    and inv_ids: "inv h d \<Longrightarrow> ids d = event_ids h"
begin

lemma ins_count_bounds:
  assumes "inv h d" and "ins f d es = (d', Inr n)"
  shows "0 \<le> n \<and> n \<le> int (length es)"
proof -
  have "card (event_ids es - ids d) \<le> card (event_ids es)" by (simp add: card_mono)
  also have "\<dots> \<le> length es" by (metis card_image_le card_length finite_set le_trans)
  finally show ?thesis using ins_Inr [OF assms] by simp
qed

lemma ins_inv:
  assumes "inv h d" and "ins f d es = (d', r)"
  shows "inv h d' \<or> inv (h @ es) d'"
  using assms ins_Inr ins_Inl by (cases r) blast+

lemma ins_mono:
  assumes "inv h d" and "ins f d es = (d', r)"
  shows "ids d \<subseteq> ids d' \<and> ids d' \<subseteq> ids d \<union> event_ids es"
  using ins_inv [OF assms] inv_ids [of h d'] inv_ids [of "h @ es" d'] inv_ids [OF assms(1)]
  by (auto simp: image_Un)

end

interpretation pg: batch_inserter "InsertBatch env" db_inv stored_ids for env
proof (unfold_locales, goal_cases)
  case (1 h d f es d' n)
  then show ?case by (rule InsertBatch_Inr)
next
  case (2 h d f es d' e)
  then show ?case using InsertBatch_Inl by blast
next
  case (3 h d es f d' r)
  then show ?case using InsertBatch_noop by blast
next
  case (4 h h' d)
  then show ?case using db_inv_cong by blast
next
  case (5 h d)
  then show ?case by (rule db_inv_stored)
qed

section \<open>Properties\<close>

text \<open>A concrete environment and event for the witnesses: text columns refuse a NUL byte.\<close>

definition demo_env :: pg_env where
  "demo_env = \<lparr>collation = (\<lambda>s. s), tiebreak = (\<lambda>_. 0),
     row_accepted = (\<lambda>r. CHR 0x00 \<notin> set (row_event_id r)),
     json_marshal = (\<lambda>_. Some ''{}'')\<rparr>"

definition demo_event :: event where
  "demo_event = \<lparr>EventID = ''evt-1'', Name = ''buy_click'', DistinctID = ''user_42'',
     Properties = None, TS = 1000000000\<rparr>"

lemma storable_demo: "storable demo_env (demo_event\<lparr>TS := t\<rparr>)"
  by (simp add: storable_def marshal_props_def event_row_def demo_env_def demo_event_def)

lemma demo_insert:
  "\<exists>d n. InsertBatch demo_env no_faults empty_db [demo_event] = (d, Inr n)"
  using storable_demo [of 1000000000]
  by (intro InsertBatch_no_faults [where hist = "[]"]) (simp_all add: no_faults_def demo_event_def)

text \<open>
  C4. A batch insert keeps the database consistent whatever fails: after a success the rollups,
  the sketches and the stored identifiers account for the batch and the result is the number of
  new identifiers; after an error the database is unchanged or, if only the acknowledgement of
  the commit was lost, holds the whole batch. No sketch is ever found corrupt and no index
  panics.
\<close>

theorem InsertBatch_atomic:
  assumes "db_inv hist d" and "InsertBatch env f d es = (d', res)"
  shows "case res of
      Inr n \<Rightarrow> db_inv (hist @ es) d' \<and> n = int (card (event_ids es - stored_ids d))
    | Inl e \<Rightarrow> (d' = d \<or> db_inv (hist @ es) d') \<and> (e = ErrJSON \<or> (\<exists>msg. e = ErrDB msg))"
  using assms InsertBatch_Inr InsertBatch_Inl by (cases res) auto

theorem InsertBatch_atomic_witness:
  "\<exists>d n. InsertBatch demo_env no_faults empty_db [demo_event] = (d, Inr n) \<and>
     db_inv [demo_event] d \<and> n = 1"
proof -
  obtain d n where ok: "InsertBatch demo_env no_faults empty_db [demo_event] = (d, Inr n)"
    using demo_insert by blast
  with InsertBatch_atomic [OF db_inv_empty ok] show ?thesis
    by (simp add: stored_ids_def empty_db_def)
qed

text \<open>
  C8. Replay is harmless: once a batch is stored, inserting any selection of stored events again,
  under whatever faults, leaves all three tables exactly as they are, and a success reports no
  new event.
\<close>

theorem InsertBatch_replay:
  assumes "db_inv hist d" and "InsertBatch env f d es = (d1, Inr n)"
    and "set es' \<subseteq> set (hist @ es)" and "InsertBatch env' g d1 es' = (d2, res)"
  shows "d2 = d1 \<and> (\<forall>m. res = Inr m \<longrightarrow> m = 0)"
  using assms InsertBatch_Inr InsertBatch_noop by metis

theorem InsertBatch_replay_witness:
  "\<exists>d. fst (InsertBatch demo_env no_faults empty_db [demo_event]) = d \<and>
     fst (InsertBatch demo_env no_faults d [demo_event, demo_event]) = d"
proof -
  obtain d n where ok: "InsertBatch demo_env no_faults empty_db [demo_event] = (d, Inr n)"
    using demo_insert by blast
  obtain d2 res where again: "InsertBatch demo_env no_faults d [demo_event, demo_event] = (d2, res)"
    by fastforce
  have "d2 = d" using InsertBatch_replay [OF db_inv_empty ok _ again] by simp
  with ok again show ?thesis by simp
qed

text \<open>
  C30. Without a fault, a batch is stored if and only if every one of its events has properties that
  marshal and values that the columns accept. A single event that does not makes every attempt
  fail, whatever the other events are.
\<close>

theorem InsertBatch_all_or_nothing:
  assumes "db_inv hist d" and "\<And>i. stmt_fault f i = None" and "commit_fault f = CommitOk"
  shows "(\<exists>d' n. InsertBatch env f d es = (d', Inr n)) \<longleftrightarrow> (\<forall>e \<in> set es. storable env e)"
proof
  assume ok: "\<exists>d' n. InsertBatch env f d es = (d', Inr n)"
  show "\<forall>e \<in> set es. storable env e"
  proof (rule ccontr)
    assume "\<not> (\<forall>e \<in> set es. storable env e)"
    then obtain e where "e \<in> set es" "\<not> storable env e" by blast
    with InsertBatch_unstorable [of e es env f d] ok show False by auto
  qed
qed (rule InsertBatch_no_faults [OF assms(1) _ assms(2,3)])

theorem InsertBatch_all_or_nothing_witness:
  "\<not> (\<exists>d' n. InsertBatch demo_env no_faults empty_db [demo_event, demo_event\<lparr>EventID := [CHR 0x00]\<rparr>] = (d', Inr n))"
  using InsertBatch_all_or_nothing [OF db_inv_empty, of no_faults demo_env
      "[demo_event, demo_event\<lparr>EventID := [CHR 0x00]\<rparr>]"]
  by (simp add: no_faults_def storable_def marshal_props_def event_row_def demo_env_def)

text \<open>
  C31. A repeated event whose second copy is stamped on another day is not stored and not counted
  again, but its user enters the sketch of that other day: the unique-user estimate of a day can
  count users for whom no event of that day is stored.
\<close>

theorem duplicate_enters_uniques:
  assumes "db_inv hist d" and "EventID e \<in> stored_ids d" and "DistinctID e \<noteq> []"
    and "users hist (unique_key e) = {}" and "InsertBatch env f d [e] = (d', Inr n)"
  shows "n = 0 \<and> events_tbl d' = events_tbl d \<and> counts_minute d' = counts_minute d \<and>
    map_of (uniques_day d) (unique_key e) = None \<and>
    map_of (uniques_day d') (unique_key e) = Some (Bytes (sketch_of {DistinctID e}))"
proof -
  obtain rows d1 where m: "marshal_rows env [e] = Inr rows"
    and sql: "insertBatchSQL env d rows = Inr (d1, n)" and uu: "updateUniques f 2 [e] d1 = Inr d'"
    using assms(5)
    by (auto simp: InsertBatch_def insert_tx_def err_bind_eq_Inr simp del: marshal_rows.simps
        split: sum.splits commit_result.splits)
  have "d1 = d \<and> n = 0"
    using assms(2) sql marshal_rows_ids [OF m] by (intro insertBatchSQL_noop) auto
  moreover have u: "uniq_inv hist d" using assms(1) by (simp add: db_inv_def)
  ultimately have q: "uniq_inv (hist @ [e]) d'" "events_tbl d' = events_tbl d"
    "counts_minute d' = counts_minute d" and "n = 0"
    using updateUniques_ok uu by blast+
  then show ?thesis using u assms(3,4)
    by (simp add: uniq_inv_def uniq_spec_def users_Cons del: split_paired_All)
qed

theorem duplicate_enters_uniques_witness:
  "\<exists>d d' n. fst (InsertBatch demo_env no_faults empty_db [demo_event]) = d \<and>
     InsertBatch demo_env no_faults d [demo_event\<lparr>TS := 86401000000000\<rparr>] = (d', Inr n) \<and>
     counts_minute d' = counts_minute d \<and>
     map_of (uniques_day d) (''buy_click'', 1) = None \<and>
     map_of (uniques_day d') (''buy_click'', 1) = Some (Bytes (sketch_of {''user_42''}))"
proof -
  let ?e = "demo_event\<lparr>TS := 86401000000000\<rparr>"
  obtain d n where ok: "InsertBatch demo_env no_faults empty_db [demo_event] = (d, Inr n)"
    using demo_insert by blast
  have inv: "db_inv [demo_event] d" using InsertBatch_Inr [OF db_inv_empty ok] by simp
  obtain d' m where again: "InsertBatch demo_env no_faults d [?e] = (d', Inr m)"
    using InsertBatch_no_faults [OF inv, of "[?e]" demo_env no_faults] storable_demo
    by (auto simp: no_faults_def)
  have st: "EventID ?e \<in> stored_ids d" using db_inv_stored [OF inv] by simp
  have key: "unique_key ?e = (''buy_click'', 1)" "users [demo_event] (''buy_click'', 1) = {}"
    "DistinctID ?e = ''user_42''"
    by (simp_all add: unique_key_def utc_day_def users_def demo_event_def)
  show ?thesis
    using duplicate_enters_uniques [OF inv st _ _ again] ok again key by auto
qed

text \<open>
  Connecting tries at most 30 pings: it succeeds, with the pool open, exactly when one of the
  first 30 does, and otherwise closes the pool and returns an error.
\<close>

lemma store_New_result:
  "(store_New None ping = (True, Inr ()) \<longleftrightarrow> (\<exists>a. 1 \<le> a \<and> a \<le> 30 \<and> ping a = None)) \<and>
   ((\<exists>e. store_New None ping = (False, Inl (ErrUnreachable e))) \<longleftrightarrow>
      (\<nexists>a. 1 \<le> a \<and> a \<le> 30 \<and> ping a = None))"
  using ping_loop_result [of 1 ping None] by (auto simp: store_New_def split: if_splits)

end
