(* ===== verification/Queue.thy ===== *)
theory Queue
  imports Store
begin

text \<open>
  The in-process queue of \<^verbatim>\<open>src/internal/queue/queue.go\<close>: the bounded channel behind
  \<^verbatim>\<open>Memory\<close>, the refusing \<^verbatim>\<open>Reject\<close>, and the contract both share with the
  Kafka producer (\<^verbatim>\<open>ingest.Enqueuer\<close>). The second half takes \<^verbatim>\<open>Enqueue\<close> and
  \<^verbatim>\<open>Close\<close> apart into their atomic accesses, to say what the shutdown contract in the
  comments buys.
\<close>

section \<open>The buffered channel\<close>

record chan =
  buf :: "event list"
  cap :: nat
  ch_closed :: bool

datatype recv = RecvEvent event | RecvClosed | RecvBlock

text \<open>A send in a \<^verbatim>\<open>select\<close> with a \<^verbatim>\<open>default\<close>: it never blocks.\<close>

datatype sent = Sent | SentFull | SentPanic

definition chan_send :: "chan \<Rightarrow> event \<Rightarrow> chan \<times> sent" where
  "chan_send c e =
     (if ch_closed c then (c, SentPanic)
      else if length (buf c) < cap c then (c\<lparr>buf := buf c @ [e]\<rparr>, Sent)
      else (c, SentFull))"

definition chan_recv :: "chan \<Rightarrow> chan \<times> recv" where
  "chan_recv c =
     (case buf c of
        e # es \<Rightarrow> (c\<lparr>buf := es\<rparr>, RecvEvent e)
      | [] \<Rightarrow> (c, if ch_closed c then RecvClosed else RecvBlock))"

section \<open>The memory queue\<close>

record mem_queue =
  ch :: chan
  closed :: bool

text \<open>
  \<^verbatim>\<open>make(chan, size)\<close> panics on a negative size: \<open>None\<close>. It also does so on a size
  that exceeds the address space, which is left to the platform here.
\<close>

definition NewMemory :: "int \<Rightarrow> mem_queue option" where
  "NewMemory n =
     (if n < 0 then None
      else Some \<lparr>ch = \<lparr>buf = [], cap = nat n, ch_closed = False\<rparr>, closed = False\<rparr>)"

definition Enqueue :: "mem_queue \<Rightarrow> event \<Rightarrow> mem_queue \<times> go_error option" where
  "Enqueue q e =
     (if closed q then (q, Some ErrClosed)
      else case chan_send (ch q) e of
        (c, Sent) \<Rightarrow> (q\<lparr>ch := c\<rparr>, None)
      | (c, SentFull) \<Rightarrow> (q, Some ErrFull)
      | (c, SentPanic) \<Rightarrow> (q, Some GoPanic))"

definition Depth :: "mem_queue \<Rightarrow> nat" where
  "Depth q = length (buf (ch q))"

definition Close :: "mem_queue \<Rightarrow> mem_queue" where
  "Close q = (if closed q then q else q\<lparr>closed := True, ch := (ch q)\<lparr>ch_closed := True\<rparr>\<rparr>)"

text \<open>A receive by a worker from \<^verbatim>\<open>Events()\<close>.\<close>

definition Events_recv :: "mem_queue \<Rightarrow> mem_queue \<times> recv" where
  "Events_recv q = (let (c, r) = chan_recv (ch q) in (q\<lparr>ch := c\<rparr>, r))"

text \<open>\<^verbatim>\<open>Reject\<close> has no state and refuses everything.\<close>

definition Reject_Enqueue :: "unit \<Rightarrow> event \<Rightarrow> unit \<times> go_error option" where
  "Reject_Enqueue q e = (q, Some ErrUnavailable)"

section \<open>The contract of an enqueuer\<close>

text \<open>
  What the front doors rely on: acceptance appends exactly this event (as the queue represents
  it), refusal changes nothing, and neither panics.
\<close>

locale enqueuer =
  fixes enq :: "'q \<Rightarrow> event \<Rightarrow> 'q \<times> go_error option"
    and contents :: "'q \<Rightarrow> 'c list"
    and item :: "event \<Rightarrow> 'c"
    and inv :: "'q \<Rightarrow> bool"
  assumes enq_None: "inv q \<Longrightarrow> enq q e = (q', None) \<Longrightarrow> contents q' = contents q @ [item e]"
    and enq_Some: "inv q \<Longrightarrow> enq q e = (q', Some err) \<Longrightarrow> q' = q"
    and enq_inv: "inv q \<Longrightarrow> enq q e = (q', r) \<Longrightarrow> inv q'"
    and enq_no_panic: "inv q \<Longrightarrow> snd (enq q e) \<noteq> Some GoPanic"
begin

lemma enq_contents:
  assumes "inv q" and "enq q e = (q', r)"
  shows "contents q' = contents q @ (if r = None then [item e] else [])"
proof (cases r)
  case None
  with assms enq_None show ?thesis by simp
next
  case (Some err)
  with assms enq_Some have "q' = q" by blast
  with Some show ?thesis by simp
qed

end

definition mq_inv :: "mem_queue \<Rightarrow> bool" where
  "mq_inv q \<longleftrightarrow> length (buf (ch q)) \<le> cap (ch q) \<and> ch_closed (ch q) = closed q"

lemmas queue_defs = Enqueue_def Close_def Events_recv_def chan_send_def chan_recv_def mq_inv_def

lemma mq_inv_NewMemory [inv_intros]: "NewMemory n = Some q \<Longrightarrow> mq_inv q"
  by (auto simp: NewMemory_def mq_inv_def split: if_splits)

lemma mq_inv_Enqueue [inv_intros]: "mq_inv q \<Longrightarrow> mq_inv (fst (Enqueue q e))"
  by (auto simp: queue_defs)

lemma mq_inv_Close [inv_intros]: "mq_inv q \<Longrightarrow> mq_inv (Close q)"
  by (auto simp: queue_defs)

lemma mq_inv_Events_recv [inv_intros]: "mq_inv q \<Longrightarrow> mq_inv (fst (Events_recv q))"
  by (auto simp: queue_defs split: list.splits)

interpretation mem: enqueuer Enqueue "\<lambda>q. buf (ch q)" "\<lambda>e. e" mq_inv
  by unfold_locales (auto simp: queue_defs split: if_splits)

interpretation rej: enqueuer Reject_Enqueue "\<lambda>_. [] :: event list" "\<lambda>e. e" "\<lambda>_. True"
  by unfold_locales (auto simp: Reject_Enqueue_def)

section \<open>Runs of the queue\<close>

datatype qop = QEnqueue event | QRecv | QClose

record qrun =
  rq :: mem_queue
  accepted :: "event list"
  received :: "event list"

definition qstep :: "qrun \<Rightarrow> qop \<Rightarrow> qrun" where
  "qstep s op = (case op of
     QEnqueue e \<Rightarrow> (case Enqueue (rq s) e of
        (q, None) \<Rightarrow> s\<lparr>rq := q, accepted := accepted s @ [e]\<rparr>
      | (q, Some _) \<Rightarrow> s\<lparr>rq := q\<rparr>)
   | QRecv \<Rightarrow> (case Events_recv (rq s) of
        (q, RecvEvent e) \<Rightarrow> s\<lparr>rq := q, received := received s @ [e]\<rparr>
      | (q, _) \<Rightarrow> s\<lparr>rq := q\<rparr>)
   | QClose \<Rightarrow> s\<lparr>rq := Close (rq s)\<rparr>)"

definition qrun_inv :: "qrun \<Rightarrow> bool" where
  "qrun_inv s \<longleftrightarrow> mq_inv (rq s) \<and> accepted s = received s @ buf (ch (rq s))"

lemma qstep_inv [inv_intros]: "qrun_inv s \<Longrightarrow> qrun_inv (qstep s op)"
  by (auto simp: qrun_inv_def qstep_def queue_defs split: qop.splits if_splits list.splits)

lemma qrun_inv_foldl: "qrun_inv s \<Longrightarrow> qrun_inv (foldl qstep s ops)"
  by (induction ops arbitrary: s) (auto intro: qstep_inv)

section \<open>Enqueue and Close, one access at a time\<close>

text \<open>
  \<^verbatim>\<open>Enqueue\<close> loads the flag and then selects on the channel; \<^verbatim>\<open>Close\<close> swaps the
  flag and then closes the channel. Any number of calls of \<^verbatim>\<open>Enqueue\<close> run concurrently;
  \<open>inflight\<close> holds the events of those that have seen the flag unset.
\<close>

record micro =
  mq :: mem_queue
  inflight :: "event list"
  swapped :: bool
  panicked :: bool

definition micro_init :: "nat \<Rightarrow> micro" where
  "micro_init n = \<lparr>mq = \<lparr>ch = \<lparr>buf = [], cap = n, ch_closed = False\<rparr>, closed = False\<rparr>,
     inflight = [], swapped = False, panicked = False\<rparr>"

text \<open>
  The flag \<open>contract\<close> says whether callers keep the shutdown contract: \<^verbatim>\<open>Close\<close> is
  called only when no \<^verbatim>\<open>Enqueue\<close> is running.
\<close>

inductive micro_step :: "bool \<Rightarrow> micro \<Rightarrow> micro \<Rightarrow> bool" for contract :: bool where
  load_open: "\<not> closed (mq s) \<Longrightarrow>
     micro_step contract s (s\<lparr>inflight := inflight s @ [e]\<rparr>)"
| load_closed: "closed (mq s) \<Longrightarrow> micro_step contract s s"
| select: "inflight s = xs @ e # ys \<Longrightarrow> chan_send (ch (mq s)) e = (c, r) \<Longrightarrow>
     micro_step contract s (s\<lparr>mq := (mq s)\<lparr>ch := c\<rparr>, inflight := xs @ ys,
                              panicked := (panicked s \<or> r = SentPanic)\<rparr>)"
| receive: "chan_recv (ch (mq s)) = (c, r) \<Longrightarrow>
     micro_step contract s (s\<lparr>mq := (mq s)\<lparr>ch := c\<rparr>\<rparr>)"
| swap: "\<not> closed (mq s) \<Longrightarrow> (contract \<longrightarrow> inflight s = []) \<Longrightarrow>
     micro_step contract s (s\<lparr>mq := (mq s)\<lparr>closed := True\<rparr>, swapped := True\<rparr>)"
| close_chan: "swapped s \<Longrightarrow>
     micro_step contract s (s\<lparr>mq := (mq s)\<lparr>ch := (ch (mq s))\<lparr>ch_closed := True\<rparr>\<rparr>,
                              swapped := False\<rparr>)"

inductive_cases micro_stepE: "micro_step contract s t"

inductive micro_reach :: "bool \<Rightarrow> nat \<Rightarrow> micro \<Rightarrow> bool" for contract :: bool and n :: nat where
  start: "micro_reach contract n (micro_init n)"
| step: "micro_reach contract n s \<Longrightarrow> micro_step contract s t \<Longrightarrow> micro_reach contract n t"

definition micro_inv :: "micro \<Rightarrow> bool" where
  "micro_inv s \<longleftrightarrow>
     \<not> panicked s \<and> (ch_closed (ch (mq s)) \<or> swapped s \<longrightarrow> closed (mq s)) \<and>
     (closed (mq s) \<longrightarrow> inflight s = [])"

lemma micro_step_inv [inv_intros]:
  "micro_step True s t \<Longrightarrow> micro_inv s \<Longrightarrow> micro_inv t"
  by (erule micro_stepE)
    (auto simp: micro_inv_def chan_send_def chan_recv_def split: if_splits list.splits)

lemma micro_reach_inv: "micro_reach True n s \<Longrightarrow> micro_inv s"
proof (induction rule: micro_reach.induct)
  case start
  show ?case by (simp add: micro_init_def micro_inv_def)
next
  case (step s t)
  then show ?case by (blast intro: micro_step_inv)
qed

section \<open>Properties\<close>

text \<open>
  C24. The queue is first-in first-out and loses nothing: whatever sequence of enqueues, receives
  and closes runs on a new queue, the accepted events are exactly those received, in that order,
  followed by those still buffered, and the buffer never exceeds its capacity.
\<close>

theorem queue_fifo_conservation:
  assumes "NewMemory n = Some q"
    and "s = foldl qstep \<lparr>rq = q, accepted = [], received = []\<rparr> ops"
  shows "accepted s = received s @ buf (ch (rq s)) \<and> Depth (rq s) \<le> cap (ch (rq s))"
proof -
  have "qrun_inv \<lparr>rq = q, accepted = [], received = []\<rparr>"
    using assms(1) by (auto simp: qrun_inv_def NewMemory_def mq_inv_def split: if_splits)
  then have "qrun_inv s" unfolding assms(2) by (rule qrun_inv_foldl)
  then show ?thesis by (simp add: qrun_inv_def mq_inv_def Depth_def)
qed

theorem queue_fifo_conservation_witness:
  "accepted (foldl qstep \<lparr>rq = the (NewMemory 1), accepted = [], received = []\<rparr>
     [QEnqueue demo_event, QEnqueue demo_event, QRecv, QClose, QEnqueue demo_event]) = [demo_event]"
proof -
  let ?s = "foldl qstep \<lparr>rq = the (NewMemory 1), accepted = [], received = []\<rparr>
     [QEnqueue demo_event, QEnqueue demo_event, QRecv, QClose, QEnqueue demo_event]"
  have n: "NewMemory 1 = Some (the (NewMemory 1))" by (simp add: NewMemory_def)
  have "received ?s @ buf (ch (rq ?s)) = [demo_event]"
    by (simp add: qstep_def queue_defs NewMemory_def)
  with queue_fifo_conservation [OF n refl] show ?thesis by metis
qed

text \<open>
  Backpressure: on a queue whose channel is closed exactly when its flag says so,
  \<^verbatim>\<open>Enqueue\<close> accepts if and only if the queue is open and has room; otherwise it returns
  \<^verbatim>\<open>ErrClosed\<close> after \<^verbatim>\<open>Close\<close> and \<^verbatim>\<open>ErrFull\<close> at capacity, and leaves
  the queue as it was.
\<close>

lemma Enqueue_result:
  assumes "mq_inv q"
  shows "Enqueue q e =
    (if closed q then (q, Some ErrClosed)
     else if Depth q = cap (ch q) then (q, Some ErrFull)
     else (q\<lparr>ch := (ch q)\<lparr>buf := buf (ch q) @ [e]\<rparr>\<rparr>, None))"
  using assms by (auto simp: queue_defs Depth_def)

text \<open>
  C25. The shutdown contract is what keeps \<^verbatim>\<open>Enqueue\<close> from panicking: if
  \<^verbatim>\<open>Close\<close> is only called when no \<^verbatim>\<open>Enqueue\<close> is running, no interleaving sends
  on the closed channel; without that restriction some interleaving does.
\<close>

theorem shutdown_contract_needed:
  "(\<forall>n s. micro_reach True n s \<longrightarrow> \<not> panicked s) \<and> (\<exists>n s. micro_reach False n s \<and> panicked s)"
proof -
  let ?s0 = "micro_init 1"
  let ?s1 = "?s0\<lparr>inflight := [demo_event]\<rparr>"
  let ?s2 = "?s1\<lparr>mq := (mq ?s1)\<lparr>closed := True\<rparr>, swapped := True\<rparr>"
  let ?s3 = "?s2\<lparr>mq := (mq ?s2)\<lparr>ch := (ch (mq ?s2))\<lparr>ch_closed := True\<rparr>\<rparr>, swapped := False\<rparr>"
  let ?s4 = "?s3\<lparr>mq := (mq ?s3)\<lparr>ch := ch (mq ?s3)\<rparr>, inflight := [] @ [],
                 panicked := (panicked ?s3 \<or> SentPanic = SentPanic)\<rparr>"
  have "micro_step False ?s0 ?s1"
    using micro_step.load_open [of ?s0 False demo_event] by (simp add: micro_init_def)
  then have "micro_reach False 1 ?s1" by (rule micro_reach.step [OF micro_reach.start])
  moreover have "micro_step False ?s1 ?s2"
    by (rule micro_step.swap) (simp_all add: micro_init_def)
  ultimately have "micro_reach False 1 ?s2" by (rule micro_reach.step)
  moreover have "micro_step False ?s2 ?s3"
    by (rule micro_step.close_chan) (simp add: micro_init_def)
  ultimately have "micro_reach False 1 ?s3" by (rule micro_reach.step)
  moreover have "micro_step False ?s3 ?s4"
    by (rule micro_step.select) (simp_all add: micro_init_def chan_send_def)
  ultimately have "micro_reach False 1 ?s4" by (rule micro_reach.step)
  moreover have "panicked ?s4" by simp
  ultimately show ?thesis using micro_reach_inv unfolding micro_inv_def by blast
qed

theorem shutdown_contract_needed_witness: "\<not> panicked (micro_init 1)"
  using shutdown_contract_needed micro_reach.start by blast

end
