(* ===== verification/Worker.thy ===== *)
theory Worker
  imports Queue
begin

text \<open>
  The worker pool of \<^verbatim>\<open>src/internal/worker/worker.go\<close>. The first part translates
  \<^verbatim>\<open>New\<close>, \<^verbatim>\<open>flush\<close> and the body of \<^verbatim>\<open>run\<close> for one worker; the
  second runs any number of workers, producers and database faults against one another, one
  channel operation or insert attempt at a time. The sink is any implementation of the batch
  inserter contract of theory Store.
\<close>

section \<open>Configuration and reports\<close>

record FlushInfo =
  BatchSize :: int
  Inserted :: int
  Duplicates :: int
  Took :: int
  Err :: "go_error option"

record Config =
  cfg_Workers :: int
  cfg_BatchSize :: int
  cfg_FlushInterval :: int
  cfg_MaxRetries :: int
  cfg_OnFlush :: bool

text \<open>
  \<open>cfg_OnFlush\<close> says whether the hook is set; its calls are logged, in order.
  \<^verbatim>\<open>worker.New\<close> replaces every setting that is not positive; durations in nanoseconds.
\<close>

definition worker_New :: "Config \<Rightarrow> Config" where
  "worker_New cfg =
     \<lparr>cfg_Workers = (if cfg_Workers cfg \<le> 0 then 4 else cfg_Workers cfg),
      cfg_BatchSize = (if cfg_BatchSize cfg \<le> 0 then 1000 else cfg_BatchSize cfg),
      cfg_FlushInterval = (if cfg_FlushInterval cfg \<le> 0 then 200000000 else cfg_FlushInterval cfg),
      cfg_MaxRetries = (if cfg_MaxRetries cfg \<le> 0 then 3 else cfg_MaxRetries cfg),
      cfg_OnFlush = cfg_OnFlush cfg\<rparr>"

definition config_ok :: "Config \<Rightarrow> bool" where
  "config_ok cfg \<longleftrightarrow> 0 < cfg_Workers cfg \<and> 0 < cfg_BatchSize cfg \<and>
     0 < cfg_FlushInterval cfg \<and> 0 < cfg_MaxRetries cfg"

lemma config_ok_worker_New [simp, inv_intros]: "config_ok (worker_New cfg)"
  by (simp add: config_ok_def worker_New_def)

section \<open>Flushing a batch\<close>

type_synonym ('f, 'd) sink = "'f \<Rightarrow> 'd \<Rightarrow> event list \<Rightarrow> 'd \<times> (go_error + int)"

text \<open>The report of a flush: counts only when there was no error.\<close>

definition flush_info :: "event list \<Rightarrow> int \<Rightarrow> go_error + int \<Rightarrow> FlushInfo" where
  "flush_info events took res =
     (case res of
        Inl e \<Rightarrow> \<lparr>BatchSize = int (length events), Inserted = 0, Duplicates = 0, Took = took, Err = Some e\<rparr>
      | Inr n \<Rightarrow> \<lparr>BatchSize = int (length events), Inserted = n,
                   Duplicates = int (length events) - n, Took = took, Err = None\<rparr>)"

definition report :: "Config \<Rightarrow> event list \<Rightarrow> int \<Rightarrow> go_error + int \<Rightarrow> FlushInfo list" where
  "report cfg events took res = (if cfg_OnFlush cfg then [flush_info events took res] else [])"

text \<open>
  The retry loop, from the attempt given; \<open>fs a\<close> decides how attempt \<open>a\<close> goes. The pair
  \<^verbatim>\<open>(inserted, err)\<close> is a sum, \<open>Inr 0\<close> before the first attempt.
\<close>

function retry_loop :: "('f, 'd) sink \<Rightarrow> (int \<Rightarrow> 'f) \<Rightarrow> int \<Rightarrow> int \<Rightarrow> 'd \<Rightarrow> event list \<Rightarrow> go_error + int
    \<Rightarrow> 'd \<times> (go_error + int)" where
  "retry_loop ins fs maxr attempt d events res =
     (if attempt \<le> maxr
      then (case ins (fs attempt) d events of
              (d', Inr n) \<Rightarrow> (d', Inr n)
            | (d', Inl e) \<Rightarrow> retry_loop ins fs maxr (attempt + 1) d' events (Inl e))
      else (d, res))"
  by pat_completeness auto
termination
  by (relation "measure (\<lambda>(ins, fs, maxr, attempt, d, events, res). nat (maxr + 1 - attempt))") auto

declare retry_loop.simps [simp del]

text \<open>
  \<^verbatim>\<open>flush\<close>: nothing to do on an empty batch; otherwise try, report, and empty the batch,
  whether it was stored or has to be dropped.
\<close>

definition flush :: "('f, 'd) sink \<Rightarrow> Config \<Rightarrow> (int \<Rightarrow> 'f) \<Rightarrow> int \<Rightarrow> 'd \<Rightarrow> event list
    \<Rightarrow> 'd \<times> event list \<times> FlushInfo list" where
  "flush ins cfg fs took d batch =
     (if batch = [] then (d, batch, [])
      else let (d', res) = retry_loop ins fs (cfg_MaxRetries cfg) 1 d batch (Inr 0)
           in (d', [], report cfg batch took res))"

section \<open>One worker\<close>

text \<open>What the \<^verbatim>\<open>select\<close> of \<^verbatim>\<open>run\<close> can deliver.\<close>

datatype arm = ArmEvent event | ArmClosed | ArmTick

text \<open>One iteration of the loop; the boolean says that the worker returns.\<close>

definition run_iter :: "('f, 'd) sink \<Rightarrow> Config \<Rightarrow> (int \<Rightarrow> 'f) \<Rightarrow> int \<Rightarrow> arm \<Rightarrow> 'd \<Rightarrow> event list
    \<Rightarrow> ('d \<times> event list \<times> FlushInfo list) \<times> bool" where
  "run_iter ins cfg fs took a d batch =
     (case a of
        ArmClosed \<Rightarrow> (flush ins cfg fs took d batch, True)
      | ArmEvent e \<Rightarrow>
          (if int (length (batch @ [e])) \<ge> cfg_BatchSize cfg
           then flush ins cfg fs took d (batch @ [e]) else (d, batch @ [e], []), False)
      | ArmTick \<Rightarrow> (flush ins cfg fs took d batch, False))"

section \<open>The pool\<close>

text \<open>
  A worker is collecting, or in \<^verbatim>\<open>flush\<close> about to make an attempt (and returning
  afterwards or not), or has returned.
\<close>

datatype wmode = Collecting | Flushing int bool | Exited

record wstate =
  w_batch :: "event list"
  w_mode :: wmode

text \<open>
  \<open>infos\<close> logs the calls of \<^verbatim>\<open>OnFlush\<close>; \<open>p_acc\<close>, \<open>p_done\<close> and \<open>p_drop\<close>
  record the events accepted, reported stored, and dropped.
\<close>

record 'd pool =
  p_q :: mem_queue
  p_ws :: "wstate list"
  p_db :: 'd
  infos :: "FlushInfo list"
  p_acc :: "event list"
  p_done :: "event list"
  p_drop :: "event list"

definition pool_Start :: "Config \<Rightarrow> mem_queue \<Rightarrow> 'd \<Rightarrow> 'd pool" where
  "pool_Start cfg q d =
     \<lparr>p_q = q, p_ws = replicate (nat (cfg_Workers cfg)) \<lparr>w_batch = [], w_mode = Collecting\<rparr>,
      p_db = d, infos = [], p_acc = buf (ch q), p_done = [], p_drop = []\<rparr>"

text \<open>Entering \<^verbatim>\<open>flush\<close>: an empty batch returns at once.\<close>

definition enter_flush :: "bool \<Rightarrow> event list \<Rightarrow> wstate" where
  "enter_flush ret batch =
     \<lparr>w_batch = batch,
      w_mode = (if batch = [] then (if ret then Exited else Collecting) else Flushing 1 ret)\<rparr>"

definition leave_flush :: "bool \<Rightarrow> wstate" where
  "leave_flush ret = \<lparr>w_batch = [], w_mode = (if ret then Exited else Collecting)\<rparr>"

inductive pool_step :: "('f, 'd) sink \<Rightarrow> Config \<Rightarrow> 'd pool \<Rightarrow> 'd pool \<Rightarrow> bool"
  for ins :: "('f, 'd) sink" and cfg :: Config where
  produce: "Enqueue (p_q s) e = (q, r) \<Longrightarrow>
     pool_step ins cfg s
       (s\<lparr>p_q := q, p_acc := (if r = None then p_acc s @ [e] else p_acc s)\<rparr>)"
| close: "pool_step ins cfg s (s\<lparr>p_q := Close (p_q s)\<rparr>)"
| recv_event: "i < length (p_ws s) \<Longrightarrow> w_mode (p_ws s ! i) = Collecting \<Longrightarrow>
     Events_recv (p_q s) = (q, RecvEvent e) \<Longrightarrow> batch = w_batch (p_ws s ! i) @ [e] \<Longrightarrow>
     w = (if int (length batch) \<ge> cfg_BatchSize cfg then enter_flush False batch
          else \<lparr>w_batch = batch, w_mode = Collecting\<rparr>) \<Longrightarrow>
     pool_step ins cfg s (s\<lparr>p_q := q, p_ws := (p_ws s)[i := w]\<rparr>)"
| recv_closed: "i < length (p_ws s) \<Longrightarrow> w_mode (p_ws s ! i) = Collecting \<Longrightarrow>
     Events_recv (p_q s) = (q, RecvClosed) \<Longrightarrow>
     pool_step ins cfg s (s\<lparr>p_q := q, p_ws := (p_ws s)[i := enter_flush True (w_batch (p_ws s ! i))]\<rparr>)"
| tick: "i < length (p_ws s) \<Longrightarrow> w_mode (p_ws s ! i) = Collecting \<Longrightarrow>
     pool_step ins cfg s (s\<lparr>p_ws := (p_ws s)[i := enter_flush False (w_batch (p_ws s ! i))]\<rparr>)"
| attempt_ok: "i < length (p_ws s) \<Longrightarrow> w_mode (p_ws s ! i) = Flushing a ret \<Longrightarrow>
     a \<le> cfg_MaxRetries cfg \<Longrightarrow> batch = w_batch (p_ws s ! i) \<Longrightarrow>
     ins f (p_db s) batch = (d, Inr n) \<Longrightarrow>
     pool_step ins cfg s
       (s\<lparr>p_ws := (p_ws s)[i := leave_flush ret], p_db := d,
          infos := infos s @ report cfg batch took (Inr n), p_done := p_done s @ batch\<rparr>)"
| attempt_retry: "i < length (p_ws s) \<Longrightarrow> w_mode (p_ws s ! i) = Flushing a ret \<Longrightarrow>
     a < cfg_MaxRetries cfg \<Longrightarrow> batch = w_batch (p_ws s ! i) \<Longrightarrow>
     ins f (p_db s) batch = (d, Inl e) \<Longrightarrow>
     pool_step ins cfg s
       (s\<lparr>p_ws := (p_ws s)[i := \<lparr>w_batch = batch, w_mode = Flushing (a + 1) ret\<rparr>], p_db := d\<rparr>)"
| attempt_drop: "i < length (p_ws s) \<Longrightarrow> w_mode (p_ws s ! i) = Flushing a ret \<Longrightarrow>
     a = cfg_MaxRetries cfg \<Longrightarrow> batch = w_batch (p_ws s ! i) \<Longrightarrow>
     ins f (p_db s) batch = (d, Inl e) \<Longrightarrow>
     pool_step ins cfg s
       (s\<lparr>p_ws := (p_ws s)[i := leave_flush ret], p_db := d,
          infos := infos s @ report cfg batch took (Inl e), p_drop := p_drop s @ batch\<rparr>)"

inductive pool_reach :: "('f, 'd) sink \<Rightarrow> Config \<Rightarrow> 'd pool \<Rightarrow> 'd pool \<Rightarrow> bool"
  for ins :: "('f, 'd) sink" and cfg :: Config and s0 :: "'d pool" where
  start: "pool_reach ins cfg s0 s0"
| step: "pool_reach ins cfg s0 s \<Longrightarrow> pool_step ins cfg s t \<Longrightarrow> pool_reach ins cfg s0 t"

section \<open>Conservation\<close>

text \<open>The events held by the workers, as a multiset.\<close>

definition held :: "wstate list \<Rightarrow> event multiset" where
  "held ws = (\<Sum>w\<leftarrow>ws. mset (w_batch w))"

lemma sum_list_list_update:
  fixes f :: "'a \<Rightarrow> 'b::comm_monoid_add"
  shows "i < length xs \<Longrightarrow> sum_list (map f (xs[i := x])) + f (xs ! i) = sum_list (map f xs) + f x"
  by (induction xs arbitrary: i) (auto simp: ac_simps less_Suc_eq_0_disj split: nat.splits)

lemma held_update:
  "i < length ws \<Longrightarrow> held (ws[i := w]) + mset (w_batch (ws ! i)) = held ws + mset (w_batch w)"
  using sum_list_list_update [of i ws "\<lambda>w. mset (w_batch w)" w] by (simp add: held_def)

definition worker_ok :: "Config \<Rightarrow> mem_queue \<Rightarrow> wstate \<Rightarrow> bool" where
  "worker_ok cfg q w \<longleftrightarrow>
     (case w_mode w of
        Collecting \<Rightarrow> int (length (w_batch w)) < cfg_BatchSize cfg
      | Flushing a ret \<Rightarrow> w_batch w \<noteq> [] \<and> int (length (w_batch w)) \<le> cfg_BatchSize cfg \<and>
          1 \<le> a \<and> a \<le> cfg_MaxRetries cfg \<and> (ret \<longrightarrow> closed q \<and> buf (ch q) = [])
      | Exited \<Rightarrow> w_batch w = [] \<and> closed q \<and> buf (ch q) = [])"

definition pool_inv :: "Config \<Rightarrow> 'd pool \<Rightarrow> bool" where
  "pool_inv cfg s \<longleftrightarrow>
     mq_inv (p_q s) \<and> (\<forall>w \<in> set (p_ws s). worker_ok cfg (p_q s) w) \<and>
     mset (p_acc s) = mset (buf (ch (p_q s))) + held (p_ws s) + mset (p_done s) + mset (p_drop s)"

lemma Enqueue_cases:
  assumes "Enqueue q e = (q', r)"
  shows "closed q' = closed q \<and> cap (ch q') = cap (ch q) \<and>
    (closed q \<longrightarrow> q' = q \<and> r \<noteq> None)"
  using assms by (auto simp: Enqueue_def chan_send_def split: if_splits)

lemma Events_recv_cases:
  assumes "Events_recv q = (q', r)"
  shows "closed q' = closed q \<and>
    (case r of RecvEvent e \<Rightarrow> buf (ch q) = e # buf (ch q')
     | RecvClosed \<Rightarrow> q' = q \<and> buf (ch q) = [] \<and> ch_closed (ch q)
     | RecvBlock \<Rightarrow> q' = q \<and> buf (ch q) = [] \<and> \<not> ch_closed (ch q))"
  using assms by (cases q; cases "ch q") (auto simp: Events_recv_def chan_recv_def split: list.splits if_splits)

lemma worker_ok_enter_flush:
  assumes "config_ok cfg" and "int (length batch) \<le> cfg_BatchSize cfg"
    and "ret \<longrightarrow> closed q \<and> buf (ch q) = []"
  shows "worker_ok cfg q (enter_flush ret batch)"
  using assms by (auto simp: worker_ok_def enter_flush_def config_ok_def)

lemma worker_ok_leave_flush:
  assumes "config_ok cfg" and "ret \<longrightarrow> closed q \<and> buf (ch q) = []"
  shows "worker_ok cfg q (leave_flush ret)"
  using assms by (auto simp: worker_ok_def leave_flush_def config_ok_def)

lemma worker_ok_batch: "worker_ok cfg q w \<Longrightarrow> config_ok cfg \<Longrightarrow> int (length (w_batch w)) \<le> cfg_BatchSize cfg"
  by (simp add: worker_ok_def config_ok_def split: wmode.splits)

lemma batch_simps [simp]:
  "w_batch (enter_flush ret b) = b" "w_batch (leave_flush ret) = []"
  by (simp_all add: enter_flush_def leave_flush_def)

text \<open>Workers stay well formed when the queue changes, as long as a drained queue stays drained.\<close>

lemma worker_ok_queue:
  assumes "worker_ok cfg q w" and "closed q \<and> buf (ch q) = [] \<Longrightarrow> closed q' \<and> buf (ch q') = []"
  shows "worker_ok cfg q' w"
  using assms by (auto simp: worker_ok_def split: wmode.splits)

lemma workers_update:
  assumes "\<forall>w \<in> set ws. worker_ok cfg q w" and "worker_ok cfg q' w"
    and "closed q \<and> buf (ch q) = [] \<Longrightarrow> closed q' \<and> buf (ch q') = []"
  shows "\<forall>w \<in> set (ws[i := w]). worker_ok cfg q' w"
proof
  fix v assume "v \<in> set (ws[i := w])"
  then have "v = w \<or> v \<in> set ws" using set_update_subset_insert [of ws i w] by blast
  then show "worker_ok cfg q' v" using assms worker_ok_queue [OF _ assms(3)] by blast
qed

inductive_cases pool_stepE: "pool_step ins cfg s t"

lemma pool_inv_produce:
  assumes inv: "pool_inv cfg s" and enq: "Enqueue (p_q s) e = (q, r)"
  shows "pool_inv cfg (s\<lparr>p_q := q, p_acc := (if r = None then p_acc s @ [e] else p_acc s)\<rparr>)"
proof -
  have mq: "mq_inv (p_q s)" using inv by (simp add: pool_inv_def)
  have "mq_inv q" using mem.enq_inv [OF mq enq] .
  moreover have "buf (ch q) = buf (ch (p_q s)) @ (if r = None then [e] else [])"
    using mem.enq_contents [OF mq enq] .
  moreover have "\<forall>w \<in> set (p_ws s). worker_ok cfg q w"
  proof
    fix w assume "w \<in> set (p_ws s)"
    then have "worker_ok cfg (p_q s) w" using inv by (simp add: pool_inv_def)
    then show "worker_ok cfg q w" by (rule worker_ok_queue) (use Enqueue_cases [OF enq] in auto)
  qed
  ultimately show ?thesis using inv by (auto simp: pool_inv_def)
qed

lemma pool_inv_close:
  assumes inv: "pool_inv cfg s"
  shows "pool_inv cfg (s\<lparr>p_q := Close (p_q s)\<rparr>)"
proof -
  have same: "buf (ch (Close (p_q s))) = buf (ch (p_q s))" "closed (Close (p_q s))"
    by (simp_all add: Close_def)
  have "\<forall>w \<in> set (p_ws s). worker_ok cfg (Close (p_q s)) w"
  proof
    fix w assume "w \<in> set (p_ws s)"
    then have "worker_ok cfg (p_q s) w" using inv by (simp add: pool_inv_def)
    then show "worker_ok cfg (Close (p_q s)) w" by (rule worker_ok_queue) (use same in auto)
  qed
  then show ?thesis using inv same by (simp add: pool_inv_def mq_inv_Close)
qed

text \<open>The update of one worker, with what it does to the multiset of held events.\<close>

lemma pool_inv_worker:
  assumes inv: "pool_inv cfg s" and i: "i < length (p_ws s)"
    and mq: "mq_inv q" and ok: "worker_ok cfg q w"
    and drained: "closed (p_q s) \<and> buf (ch (p_q s)) = [] \<Longrightarrow> closed q \<and> buf (ch q) = []"
    and bal: "mset (buf (ch (p_q s))) + mset (w_batch (p_ws s ! i)) + mset (p_done s) + mset (p_drop s) =
      mset (buf (ch q)) + mset (w_batch w) + mset dn + mset dr"
  shows "pool_inv cfg (s\<lparr>p_q := q, p_ws := (p_ws s)[i := w], p_db := d, infos := is,
    p_done := dn, p_drop := dr\<rparr>)"
proof -
  have "held ((p_ws s)[i := w]) + mset (w_batch (p_ws s ! i)) = held (p_ws s) + mset (w_batch w)"
    by (rule held_update [OF i])
  then have "mset (buf (ch q)) + held ((p_ws s)[i := w]) + mset dn + mset dr + mset (w_batch (p_ws s ! i)) =
      held (p_ws s) + (mset (buf (ch q)) + mset (w_batch w) + mset dn + mset dr)"
    by (simp add: ac_simps)
  also have "\<dots> = mset (p_acc s) + mset (w_batch (p_ws s ! i))"
    using inv unfolding bal [symmetric] by (simp add: pool_inv_def ac_simps)
  finally have "mset (p_acc s) = mset (buf (ch q)) + held ((p_ws s)[i := w]) + mset dn + mset dr"
    by simp
  moreover have "\<forall>w \<in> set ((p_ws s)[i := w]). worker_ok cfg q w"
    using inv workers_update [OF _ ok drained] by (auto simp: pool_inv_def)
  ultimately show ?thesis using mq by (simp add: pool_inv_def)
qed

lemma worker_ok_nth: "pool_inv cfg s \<Longrightarrow> i < length (p_ws s) \<Longrightarrow> worker_ok cfg (p_q s) (p_ws s ! i)"
  by (simp add: pool_inv_def)

lemma pool_inv_step [inv_intros]:
  assumes step: "pool_step ins cfg s t" and inv: "pool_inv cfg s" and cfg: "config_ok cfg"
  shows "pool_inv cfg t"
  using step
proof cases
  case (produce e q r)
  then show ?thesis using pool_inv_produce [OF inv] by blast
next
  case close
  then show ?thesis using pool_inv_close [OF inv] by blast
next
  case (recv_event i q e batch w)
  have ok: "int (length (w_batch (p_ws s ! i))) < cfg_BatchSize cfg"
    using worker_ok_nth [OF inv recv_event(2)] recv_event(3) by (simp add: worker_ok_def)
  have r: "closed q = closed (p_q s)" "buf (ch (p_q s)) = e # buf (ch q)"
    using Events_recv_cases [OF recv_event(4)] by simp_all
  have "mq_inv q" using mq_inv_Events_recv [of "p_q s"] inv recv_event(4) by (simp add: pool_inv_def)
  moreover have "worker_ok cfg q w"
    using ok cfg worker_ok_enter_flush [of cfg batch False q] unfolding recv_event(5,6)
    by (cases "int (length batch) \<ge> cfg_BatchSize cfg") (auto simp: worker_ok_def recv_event(5))
  moreover have "w_batch w = w_batch (p_ws s ! i) @ [e]" using recv_event(5,6) by simp
  ultimately show ?thesis
    using pool_inv_worker [OF inv recv_event(2), of q w "p_done s" "p_drop s" "infos s" "p_db s"] r
    unfolding recv_event(1) by simp
next
  case (recv_closed i q)
  have ok: "int (length (w_batch (p_ws s ! i))) < cfg_BatchSize cfg"
    using worker_ok_nth [OF inv recv_closed(2)] recv_closed(3) by (simp add: worker_ok_def)
  have mq: "mq_inv (p_q s)" using inv by (simp add: pool_inv_def)
  have r: "q = p_q s" "buf (ch (p_q s)) = []" "closed (p_q s)"
    using Events_recv_cases [OF recv_closed(4)] mq by (simp_all add: mq_inv_def)
  have "worker_ok cfg q (enter_flush True (w_batch (p_ws s ! i)))"
    using ok cfg r by (intro worker_ok_enter_flush) simp_all
  then show ?thesis
    using pool_inv_worker [OF inv recv_closed(2), of q _ "p_done s" "p_drop s" "infos s" "p_db s"] r mq
    unfolding recv_closed(1) by simp
next
  case (tick i)
  have ok: "int (length (w_batch (p_ws s ! i))) < cfg_BatchSize cfg"
    using worker_ok_nth [OF inv tick(2)] tick(3) by (simp add: worker_ok_def)
  have mq: "mq_inv (p_q s)" using inv by (simp add: pool_inv_def)
  have "worker_ok cfg (p_q s) (enter_flush False (w_batch (p_ws s ! i)))"
    using ok cfg by (intro worker_ok_enter_flush) simp_all
  then show ?thesis
    using pool_inv_worker [OF inv tick(2) mq, of _ "p_done s" "p_drop s" "infos s" "p_db s"]
    unfolding tick(1) by simp
next
  case (attempt_ok i a ret batch f d n took)
  have mq: "mq_inv (p_q s)" using inv by (simp add: pool_inv_def)
  have "worker_ok cfg (p_q s) (leave_flush ret)"
    using worker_ok_nth [OF inv attempt_ok(2)] attempt_ok(3) cfg
    by (intro worker_ok_leave_flush) (simp_all add: worker_ok_def)
  then show ?thesis
    using pool_inv_worker [OF inv attempt_ok(2) mq, of _ "p_done s @ batch" "p_drop s" _ d] attempt_ok(5)
    unfolding attempt_ok(1) by (simp add: ac_simps)
next
  case (attempt_retry i a ret batch f d e)
  have mq: "mq_inv (p_q s)" using inv by (simp add: pool_inv_def)
  have "worker_ok cfg (p_q s) \<lparr>w_batch = batch, w_mode = Flushing (a + 1) ret\<rparr>"
    using worker_ok_nth [OF inv attempt_retry(2)] attempt_retry(3,4,5) by (simp add: worker_ok_def)
  then show ?thesis
    using pool_inv_worker [OF inv attempt_retry(2) mq, of _ "p_done s" "p_drop s" "infos s" d] attempt_retry(5)
    unfolding attempt_retry(1) by simp
next
  case (attempt_drop i a ret batch f d e took)
  have mq: "mq_inv (p_q s)" using inv by (simp add: pool_inv_def)
  have "worker_ok cfg (p_q s) (leave_flush ret)"
    using worker_ok_nth [OF inv attempt_drop(2)] attempt_drop(3) cfg
    by (intro worker_ok_leave_flush) (simp_all add: worker_ok_def)
  then show ?thesis
    using pool_inv_worker [OF inv attempt_drop(2) mq, of _ "p_done s" "p_drop s @ batch" _ d] attempt_drop(5)
    unfolding attempt_drop(1) by (simp add: ac_simps)
qed

lemma pool_inv_Start [inv_intros]:
  assumes "mq_inv q" and "config_ok cfg"
  shows "pool_inv cfg (pool_Start cfg q d)"
proof -
  have "held (replicate k \<lparr>w_batch = [], w_mode = Collecting\<rparr>) = {#}" for k
    by (induction k) (simp_all add: held_def)
  then show ?thesis using assms
    by (simp add: pool_inv_def pool_Start_def worker_ok_def config_ok_def)
qed

lemma pool_inv_reach:
  assumes "pool_reach ins cfg s0 s" and "pool_inv cfg s0" and "config_ok cfg"
  shows "pool_inv cfg s"
  using assms by (induction rule: pool_reach.induct) (auto intro: pool_inv_step)

lemma batch_subset_acc:
  assumes "pool_inv cfg s" and "i < length (p_ws s)"
  shows "set (w_batch (p_ws s ! i)) \<subseteq> set (p_acc s)"
proof -
  have "mset (w_batch (p_ws s ! i)) \<subseteq># held (p_ws s)"
    using held_update [OF assms(2), of "\<lparr>w_batch = [], w_mode = Exited\<rparr>"]
    by (metis add.right_neutral mset.simps(1) mset_subset_eq_add_right wstate.select_convs(1))
  also have "\<dots> \<subseteq># mset (p_acc s)"
    using assms(1) by (simp add: pool_inv_def subset_mset.add_increasing subset_mset.add_increasing2)
  finally show ?thesis by (metis set_mset_mono set_mset_mset)
qed

section \<open>What reaches the store\<close>

text \<open>
  Relative to the events \<open>h0\<close> stored before the pool started: everything reported stored is in
  the store, and nothing is that was not accepted. The second definition says the same of the
  reports, with \<open>n0\<close> the number of identifiers stored before.
\<close>

definition pool_stored :: "(event list \<Rightarrow> 'd \<Rightarrow> bool) \<Rightarrow> event list \<Rightarrow> 'd pool \<Rightarrow> bool" where
  "pool_stored I h0 s \<longleftrightarrow>
     (\<exists>h. I (h0 @ h) (p_db s) \<and> set (p_done s) \<subseteq> set h \<and> set h \<subseteq> set (p_acc s))"

definition info_ok :: "Config \<Rightarrow> FlushInfo \<Rightarrow> bool" where
  "info_ok cfg fi \<longleftrightarrow> 0 \<le> Inserted fi \<and> 0 \<le> Duplicates fi \<and>
     1 \<le> BatchSize fi \<and> BatchSize fi \<le> cfg_BatchSize cfg \<and>
     Inserted fi + Duplicates fi = (if Err fi = None then BatchSize fi else 0)"

definition dropped_of :: "FlushInfo \<Rightarrow> int" where
  "dropped_of fi = (if Err fi = None then 0 else BatchSize fi)"

definition pool_counts :: "Config \<Rightarrow> ('d \<Rightarrow> string set) \<Rightarrow> nat \<Rightarrow> 'd pool \<Rightarrow> bool" where
  "pool_counts cfg ids n0 s \<longleftrightarrow>
     (\<forall>fi \<in> set (infos s). info_ok cfg fi) \<and>
     (cfg_OnFlush cfg \<longrightarrow>
        (\<Sum>fi\<leftarrow>infos s. Inserted fi + Duplicates fi) = int (length (p_done s)) \<and>
        (\<Sum>fi\<leftarrow>infos s. dropped_of fi) = int (length (p_drop s))) \<and>
     int n0 + (\<Sum>fi\<leftarrow>infos s. Inserted fi) \<le> int (card (ids (p_db s)))"

text \<open>Steps other than insert attempts leave the store and the reports alone.\<close>

lemma pool_step_other:
  assumes "pool_step ins cfg s t"
  shows "(p_db t = p_db s \<and> infos t = infos s \<and> p_done t = p_done s \<and> p_drop t = p_drop s \<and>
      set (p_acc s) \<subseteq> set (p_acc t)) \<or>
    (\<exists>i a ret f d r took. i < length (p_ws s) \<and> w_mode (p_ws s ! i) = Flushing a ret \<and>
      ins f (p_db s) (w_batch (p_ws s ! i)) = (d, r) \<and> p_db t = d \<and> p_acc t = p_acc s \<and>
      (case r of
         Inr n \<Rightarrow> infos t = infos s @ report cfg (w_batch (p_ws s ! i)) took r \<and>
           p_done t = p_done s @ w_batch (p_ws s ! i) \<and> p_drop t = p_drop s
       | Inl e \<Rightarrow> p_done t = p_done s \<and>
           (infos t = infos s \<and> p_drop t = p_drop s \<or>
            infos t = infos s @ report cfg (w_batch (p_ws s ! i)) took r \<and>
            p_drop t = p_drop s @ w_batch (p_ws s ! i))))"
  (is "?quiet \<or> ?attempt")
  using assms
proof cases
  case (attempt_ok i a ret batch f d n took)
  then have ?attempt
    by (intro exI [of _ i] exI [of _ a] exI [of _ ret] exI [of _ f] exI [of _ d] exI [of _ "Inr n"]
        exI [of _ took]) simp
  then show ?thesis ..
next
  case (attempt_retry i a ret batch f d e)
  then have ?attempt
    by (intro exI [of _ i] exI [of _ a] exI [of _ ret] exI [of _ f] exI [of _ d] exI [of _ "Inl e"]) simp
  then show ?thesis ..
next
  case (attempt_drop i a ret batch f d e took)
  then have ?attempt
    by (intro exI [of _ i] exI [of _ a] exI [of _ ret] exI [of _ f] exI [of _ d] exI [of _ "Inl e"]
        exI [of _ took]) simp
  then show ?thesis ..
qed auto

context batch_inserter
begin

lemma pool_stored_step:
  assumes step: "pool_step ins cfg s t" and pinv: "pool_inv cfg s" and st: "pool_stored inv h0 s"
  shows "pool_stored inv h0 t"
proof -
  obtain h where h: "inv (h0 @ h) (p_db s)" "set (p_done s) \<subseteq> set h" "set h \<subseteq> set (p_acc s)"
    using st by (auto simp: pool_stored_def)
  show ?thesis
    using pool_step_other [OF step]
  proof (elim disjE exE conjE, goal_cases)
    case 1
    then show ?thesis using h unfolding pool_stored_def by (metis subset_trans)
  next
    case (2 i a ret f d r took)
    let ?b = "w_batch (p_ws s ! i)"
    have b: "set ?b \<subseteq> set (p_acc s)" by (rule batch_subset_acc [OF pinv 2(1)])
    show ?thesis
    proof (cases r)
      case (Inr n)
      have "inv (h0 @ h @ ?b) (p_db t)" using ins_Inr [OF h(1)] 2 Inr by simp
      then show ?thesis using h b 2 Inr unfolding pool_stored_def
        by (intro exI [of _ "h @ ?b"]) auto
    next
      case (Inl e)
      have "inv (h0 @ h) (p_db t) \<or> inv (h0 @ h @ ?b) (p_db t)"
        using ins_Inl [OF h(1), of f ?b "p_db t" e] 2(3,4) Inl h(1) by auto
      then show ?thesis
      proof
        assume "inv (h0 @ h) (p_db t)"
        then show ?thesis using h 2 Inl unfolding pool_stored_def by (intro exI [of _ h]) auto
      next
        assume "inv (h0 @ h @ ?b) (p_db t)"
        then show ?thesis using h b 2 Inl unfolding pool_stored_def
          by (intro exI [of _ "h @ ?b"]) auto
      qed
    qed
  qed
qed

lemma info_ok_attempt:
  assumes "inv h d" and "ins f d b = (d', r)" and "b \<noteq> []" and "int (length b) \<le> cfg_BatchSize cfg"
  shows "info_ok cfg (flush_info b took r)"
  using assms ins_count_bounds [OF assms(1), of f b d']
  by (cases r) (auto simp: info_ok_def flush_info_def Suc_le_eq)

lemma ids_finite: "inv h d \<Longrightarrow> finite (ids d)"
  by (simp add: inv_ids)

lemma card_ids_attempt:
  assumes I: "inv h d" and r: "ins f d b = (d', r)"
  shows "card (ids d) + (case r of Inr n \<Rightarrow> nat n | Inl e \<Rightarrow> 0) \<le> card (ids d')"
proof (cases r)
  case (Inr n)
  have n: "n = int (card (event_ids b - ids d))" and I': "inv (h @ b) d'"
    using ins_Inr [OF I] r Inr by auto
  have "ids d' = ids d \<union> (event_ids b - ids d)"
    using inv_ids [OF I] inv_ids [OF I'] by auto
  then have "card (ids d') = card (ids d) + card (event_ids b - ids d)"
    using ids_finite [OF I] by (subst card_Un_disjoint [symmetric]) auto
  then show ?thesis using Inr n by simp
next
  case (Inl e)
  have "ids d \<subseteq> ids d'" "finite (ids d')"
    using ins_mono [OF I r] ids_finite ins_inv [OF I r] by blast+
  then show ?thesis using Inl by (simp add: card_mono)
qed

lemma pool_counts_step:
  assumes step: "pool_step ins cfg s t" and pinv: "pool_inv cfg s"
    and st: "pool_stored inv h0 s" and cnt: "pool_counts cfg ids n0 s"
  shows "pool_counts cfg ids n0 t"
proof -
  obtain h where h: "inv (h0 @ h) (p_db s)" using st by (auto simp: pool_stored_def)
  show ?thesis
    using pool_step_other [OF step]
  proof (elim disjE exE conjE, goal_cases)
    case 1
    then show ?thesis using cnt by (simp add: pool_counts_def)
  next
    case (2 i a ret f d r took)
    let ?b = "w_batch (p_ws s ! i)"
    have b: "?b \<noteq> []" "int (length ?b) \<le> cfg_BatchSize cfg"
      using worker_ok_nth [OF pinv 2(1)] 2(2) by (auto simp: worker_ok_def)
    have ok: "info_ok cfg (flush_info ?b took r)" by (rule info_ok_attempt [OF h 2(3) b])
    have grow: "card (ids (p_db s)) + (case r of Inr n \<Rightarrow> nat n | Inl e \<Rightarrow> 0) \<le> card (ids (p_db t))"
      using card_ids_attempt [OF h 2(3)] 2(4) by simp
    show ?thesis
    proof (cases r)
      case (Inr n)
      have "0 \<le> n" using ins_count_bounds [OF h] 2(3) Inr by blast
      then show ?thesis using 2 Inr cnt ok grow
        by (auto simp: pool_counts_def report_def flush_info_def dropped_of_def)
    next
      case (Inl e)
      then show ?thesis using 2 cnt ok grow
        by (auto simp: pool_counts_def report_def flush_info_def dropped_of_def)
    qed
  qed
qed

lemma pool_reach_stored:
  assumes "pool_reach ins cfg s0 s" and "pool_inv cfg s0" and "config_ok cfg"
    and "pool_stored inv h0 s0" and "pool_counts cfg ids n0 s0"
  shows "pool_stored inv h0 s \<and> pool_counts cfg ids n0 s"
  using assms
proof (induction rule: pool_reach.induct)
  case (step s t)
  have "pool_inv cfg s" by (rule pool_inv_reach [OF step(1,4,5)])
  then show ?case using step pool_stored_step pool_counts_step by blast
qed simp

end

section \<open>The sequential code is a run of the pool\<close>

text \<open>The arm \<open>a\<close> of the \<^verbatim>\<open>select\<close> can fire on queue \<open>q\<close>, leaving \<open>q'\<close>.\<close>

definition arm_ready :: "mem_queue \<Rightarrow> arm \<Rightarrow> mem_queue \<Rightarrow> bool" where
  "arm_ready q a q' \<longleftrightarrow>
     (case a of
        ArmEvent e \<Rightarrow> Events_recv q = (q', RecvEvent e)
      | ArmClosed \<Rightarrow> Events_recv q = (q', RecvClosed)
      | ArmTick \<Rightarrow> q' = q)"

lemma pool_reach_trans:
  assumes "pool_reach ins cfg t u" and "pool_reach ins cfg s t"
  shows "pool_reach ins cfg s u"
  using assms by (induction rule: pool_reach.induct) (auto intro: pool_reach.step)

lemma pool_reach_step:
  "pool_step ins cfg s t \<Longrightarrow> pool_reach ins cfg t u \<Longrightarrow> pool_reach ins cfg s u"
  by (meson pool_reach.start pool_reach.step pool_reach_trans)

text \<open>An attempt that ends the loop, either way.\<close>

lemma final_attempt_pool_step:
  assumes i: "i < length (p_ws s)" and w: "p_ws s ! i = \<lparr>w_batch = b, w_mode = Flushing a ret\<rparr>"
    and a: "a \<le> cfg_MaxRetries cfg" and ins: "ins f (p_db s) b = (d, r)"
    and final: "isl r \<longrightarrow> a = cfg_MaxRetries cfg"
  shows "\<exists>t. pool_step ins cfg s t \<and> p_q t = p_q s \<and> p_db t = d \<and>
    infos t = infos s @ report cfg b took r \<and> p_ws t = (p_ws s)[i := leave_flush ret]"
proof (cases r)
  case (Inr n)
  let ?t = "s\<lparr>p_ws := (p_ws s)[i := leave_flush ret], p_db := d,
    infos := infos s @ report cfg b took (Inr n), p_done := p_done s @ b\<rparr>"
  have "pool_step ins cfg s ?t"
    using assms Inr by (intro pool_step.attempt_ok [of i s a ret cfg b ins f d n took]) simp_all
  then show ?thesis using Inr by (intro exI [of _ ?t]) simp
next
  case (Inl e)
  let ?t = "s\<lparr>p_ws := (p_ws s)[i := leave_flush ret], p_db := d,
    infos := infos s @ report cfg b took (Inl e), p_drop := p_drop s @ b\<rparr>"
  have "pool_step ins cfg s ?t"
    using assms Inl by (intro pool_step.attempt_drop [of i s a ret cfg b ins f d e took]) simp_all
  then show ?thesis using Inl by (intro exI [of _ ?t]) simp
qed

lemma retry_loop_final:
  assumes "ins (fs a) d b = (d1, r1)" and "a \<le> maxr" and "isl r1 \<longrightarrow> a = maxr"
  shows "retry_loop ins fs maxr a d b r0 = (d1, r1)"
  using assms
  by (cases r1) (simp_all add: retry_loop.simps [of ins fs maxr maxr] retry_loop.simps [of ins fs maxr a]
      retry_loop.simps [of ins fs maxr "maxr + 1"])

lemma retry_loop_again:
  assumes "ins (fs a) d b = (d1, Inl e)" and "a \<le> maxr"
  shows "retry_loop ins fs maxr a d b r0 = retry_loop ins fs maxr (a + 1) d1 b (Inl e)"
  using assms by (simp add: retry_loop.simps [of ins fs maxr a])

lemma retry_loop_pool_run:
  assumes "i < length (p_ws s)" and "p_ws s ! i = \<lparr>w_batch = b, w_mode = Flushing a ret\<rparr>"
    and "a \<le> cfg_MaxRetries cfg" and "retry_loop ins fs (cfg_MaxRetries cfg) a (p_db s) b r0 = (d, r)"
  shows "\<exists>t. pool_reach ins cfg s t \<and> p_q t = p_q s \<and> p_db t = d \<and>
    infos t = infos s @ report cfg b took r \<and> p_ws t = (p_ws s)[i := leave_flush ret]"
  using assms
proof (induction "nat (cfg_MaxRetries cfg - a)" arbitrary: a s r0 rule: less_induct)
  case (less a s r0)
  obtain d1 r1 where ins: "ins (fs a) (p_db s) b = (d1, r1)" by force
  show ?case
  proof (cases "isl r1 \<longrightarrow> a = cfg_MaxRetries cfg")
    case True
    have "d1 = d" "r1 = r"
      using retry_loop_final [of ins fs a "p_db s" b, OF ins less.prems(3) True] less.prems(4) by simp_all
    then show ?thesis
      using final_attempt_pool_step [where ins = ins and f = "fs a", OF less.prems(1-3) ins True] pool_reach_step [OF _ pool_reach.start]
      by blast
  next
    case False
    then obtain e where e: "r1 = Inl e" by (cases r1) auto
    have lt: "a < cfg_MaxRetries cfg" using False less.prems(3) by simp
    let ?u = "s\<lparr>p_ws := (p_ws s)[i := \<lparr>w_batch = b, w_mode = Flushing (a + 1) ret\<rparr>], p_db := d1\<rparr>"
    have st: "pool_step ins cfg s ?u"
      using less.prems ins lt e
      by (intro pool_step.attempt_retry [of i s a ret cfg b ins "fs a" d1 e]) simp_all
    have "retry_loop ins fs (cfg_MaxRetries cfg) (a + 1) (p_db ?u) b (Inl e) = (d, r)"
      using retry_loop_again [of ins fs a "p_db s" b d1 e] ins e less.prems(3,4) by simp
    then have "\<exists>t. pool_reach ins cfg ?u t \<and> p_q t = p_q ?u \<and> p_db t = d \<and>
        infos t = infos ?u @ report cfg b took r \<and> p_ws t = (p_ws ?u)[i := leave_flush ret]"
      using less.prems(1) lt by (intro less.hyps [of "a + 1" ?u]) auto
    then show ?thesis using pool_reach_step [OF st] by auto
  qed
qed

lemma flush_pool_run:
  assumes i: "i < length (p_ws s)" and w: "p_ws s ! i = enter_flush ret b"
    and cfg: "config_ok cfg" and fl: "flush ins cfg fs took (p_db s) b = (d, b', fis)"
  shows "\<exists>t. pool_reach ins cfg s t \<and> p_q t = p_q s \<and> p_db t = d \<and> infos t = infos s @ fis \<and>
    p_ws t = (p_ws s)[i := \<lparr>w_batch = b', w_mode = (if ret then Exited else Collecting)\<rparr>]"
proof (cases "b = []")
  case True
  then have "p_ws s ! i = \<lparr>w_batch = b', w_mode = (if ret then Exited else Collecting)\<rparr>"
    using fl w by (auto simp: enter_flush_def flush_def)
  then have "(p_ws s)[i := \<lparr>w_batch = b', w_mode = (if ret then Exited else Collecting)\<rparr>] = p_ws s"
    using i by (simp add: list_update_same_conv)
  then show ?thesis using True fl by (intro exI [of _ s]) (simp add: pool_reach.start flush_def)
next
  case False
  obtain r where r: "retry_loop ins fs (cfg_MaxRetries cfg) 1 (p_db s) b (Inr 0) = (d, r)"
    and out: "b' = []" "fis = report cfg b took r"
    using fl False by (auto simp: flush_def split: prod.splits)
  have "p_ws s ! i = \<lparr>w_batch = b, w_mode = Flushing 1 ret\<rparr>" using w False by (simp add: enter_flush_def)
  from retry_loop_pool_run [OF i this _ r] cfg show ?thesis
    unfolding out leave_flush_def by (simp add: config_ok_def)
qed

section \<open>What a flush does to the store\<close>

context batch_inserter
begin

lemma inv_twice: "inv ((h @ b) @ b) d \<Longrightarrow> inv (h @ b) d"
  by (rule inv_cong [rotated]) auto

lemma retry_loop_inv:
  assumes "inv h d" and "a \<le> maxr" and "retry_loop ins fs maxr a d b r0 = (d', r)"
  shows "case r of
      Inr n \<Rightarrow> inv (h @ b) d' \<and> 0 \<le> n \<and> n \<le> int (card (event_ids b - ids d))
    | Inl e \<Rightarrow> d' = d \<or> inv (h @ b) d'"
  using assms
proof (induction "nat (maxr - a)" arbitrary: a d h r0 rule: less_induct)
  case (less a d h r0)
  obtain d1 r1 where at: "ins (fs a) d b = (d1, r1)" by force
  show ?case
  proof (cases "isl r1 \<longrightarrow> a = maxr")
    case True
    have "d1 = d'" "r1 = r"
      using retry_loop_final [of ins fs a d b, OF at less.prems(2) True] less.prems(3) by simp_all
    then show ?thesis
      using ins_Inr [OF less.prems(1), of "fs a" b d'] ins_Inl [OF less.prems(1), of "fs a" b d'] at
      by (cases r) auto
  next
    case False
    then obtain e where e: "r1 = Inl e" by (cases r1) auto
    have lt: "a < maxr" using False less.prems(2) by simp
    have run: "retry_loop ins fs maxr (a + 1) d1 b (Inl e) = (d', r)"
      using retry_loop_again [of ins fs a d b d1 e] at e less.prems(2,3) by simp
    note IH = less.hyps [of "a + 1", OF _ _ _ run]
    have "d1 = d \<or> inv (h @ b) d1" using ins_Inl [OF less.prems(1)] at e by blast
    then show ?thesis
    proof
      assume "d1 = d"
      then show ?thesis using IH [of h] less.prems(1) lt by (cases r) simp_all
    next
      assume I1: "inv (h @ b) d1"
      have "ids d \<subseteq> ids d1" using ins_mono [OF less.prems(1) at] by blast
      then have "card (event_ids b - ids d1) \<le> card (event_ids b - ids d)"
        by (intro card_mono) auto
      then show ?thesis using IH [OF _ I1] lt I1 inv_twice [of h b d']
        by (cases r) auto
    qed
  qed
qed

lemma retry_loop_succeeds:
  assumes "inv h d" and "a \<le> g" and "g \<le> maxr"
    and good: "\<And>h d. inv h d \<Longrightarrow> \<not> isl (snd (ins (fs g) d b))"
  shows "\<not> isl (snd (retry_loop ins fs maxr a d b r0))"
  using assms(1-3)
proof (induction "nat (g - a)" arbitrary: a d h r0 rule: less_induct)
  case (less a d h r0)
  obtain d1 r1 where at: "ins (fs a) d b = (d1, r1)" by force
  show ?case
  proof (cases r1)
    case (Inr n)
    then show ?thesis using retry_loop_final [of ins fs a d b d1 r1 maxr r0] at less.prems by simp
  next
    case (Inl e)
    then have "a \<noteq> g" using good [OF less.prems(1)] at by auto
    moreover obtain h1 where "inv h1 d1" using ins_inv [OF less.prems(1) at] by blast
    ultimately show ?thesis
      using less.hyps [of "a + 1" h1 d1 "Inl e"] retry_loop_again [of ins fs a d b d1 e maxr r0] at Inl
        less.prems by simp
  qed
qed

end

section \<open>Draining\<close>

text \<open>
  A bound on the steps a closed pool can still take, idle ones apart: each buffered event may
  cost a receive and a flush, each worker the rest of its flush and its return.
\<close>

definition work_left :: "Config \<Rightarrow> wstate \<Rightarrow> int" where
  "work_left cfg w =
     (case w_mode w of
        Collecting \<Rightarrow> if w_batch w = [] then 1 else cfg_MaxRetries cfg + 2
      | Flushing a ret \<Rightarrow> cfg_MaxRetries cfg + 1 - a + (if ret then 0 else 1)
      | Exited \<Rightarrow> 0)"

definition drain_measure :: "Config \<Rightarrow> 'd pool \<Rightarrow> int" where
  "drain_measure cfg s =
     (cfg_MaxRetries cfg + 2) * int (length (buf (ch (p_q s)))) + (\<Sum>w\<leftarrow>p_ws s. work_left cfg w)"

lemma work_left_simps [simp]:
  "work_left cfg (enter_flush ret b) =
     (if b = [] then (if ret then 0 else 1) else cfg_MaxRetries cfg + (if ret then 0 else 1))"
  "work_left cfg (leave_flush ret) = (if ret then 0 else 1)"
  by (simp_all add: work_left_def enter_flush_def leave_flush_def)

lemma work_left_nonneg: "worker_ok cfg q w \<Longrightarrow> config_ok cfg \<Longrightarrow> 0 \<le> work_left cfg w"
  by (auto simp: work_left_def worker_ok_def config_ok_def split: wmode.splits)

lemma drain_measure_nonneg:
  assumes "pool_inv cfg s" and "config_ok cfg"
  shows "0 \<le> drain_measure cfg s"
proof -
  have "0 \<le> (\<Sum>w\<leftarrow>p_ws s. work_left cfg w)"
    using assms work_left_nonneg by (intro sum_list_nonneg) (auto simp: pool_inv_def)
  then show ?thesis using assms(2) by (simp add: drain_measure_def config_ok_def)
qed

lemma drain_measure_worker:
  assumes "i < length (p_ws s)"
    and "(cfg_MaxRetries cfg + 2) * int (length (buf (ch q))) + work_left cfg w <
      (cfg_MaxRetries cfg + 2) * int (length (buf (ch (p_q s)))) + work_left cfg (p_ws s ! i)"
  shows "drain_measure cfg (s\<lparr>p_q := q, p_ws := (p_ws s)[i := w], p_db := d, infos := fis,
    p_done := dn, p_drop := dr\<rparr>) < drain_measure cfg s"
  using sum_list_list_update [OF assms(1), of "work_left cfg" w] assms(2)
  by (simp add: drain_measure_def)

lemma drain_decreases:
  assumes step: "pool_step ins cfg s t" and pinv: "pool_inv cfg s" and cfg: "config_ok cfg"
    and closed: "closed (p_q s)"
  shows "t = s \<or> closed (p_q t) \<and> drain_measure cfg t < drain_measure cfg s"
  using step
proof cases
  case (produce e q r)
  then have "t = s" using Enqueue_cases [of "p_q s" e q r] closed by auto
  then show ?thesis ..
next
  case close
  then have "t = s" using closed by (simp add: Close_def)
  then show ?thesis ..
next
  case (recv_event i q e batch w)
  have r: "closed q = closed (p_q s)" "buf (ch (p_q s)) = e # buf (ch q)"
    using Events_recv_cases [OF recv_event(4)] by simp_all
  have "work_left cfg w < cfg_MaxRetries cfg + 2 + work_left cfg (p_ws s ! i)"
    using recv_event(3,5,6) cfg by (auto simp: work_left_def enter_flush_def config_ok_def)
  then show ?thesis
    using drain_measure_worker [OF recv_event(2), of cfg q w "p_drop s" "p_done s" "infos s" "p_db s"] r closed
    unfolding recv_event(1) by (simp add: distrib_left)
next
  case (recv_closed i q)
  have "q = p_q s" using Events_recv_cases [OF recv_closed(4)] by simp
  moreover have "work_left cfg (enter_flush True (w_batch (p_ws s ! i))) < work_left cfg (p_ws s ! i)"
    using recv_closed(3) cfg by (simp add: work_left_def enter_flush_def config_ok_def)
  ultimately show ?thesis
    using drain_measure_worker [OF recv_closed(2), of cfg q _ "p_drop s" "p_done s" "infos s" "p_db s"] closed
    unfolding recv_closed(1) by simp
next
  case (tick i)
  show ?thesis
  proof (cases "w_batch (p_ws s ! i) = []")
    case True
    then have "enter_flush False (w_batch (p_ws s ! i)) = p_ws s ! i"
      using tick(3) by (simp add: enter_flush_def)
    then show ?thesis using tick(1) by simp
  next
    case False
    then have "work_left cfg (enter_flush False (w_batch (p_ws s ! i))) < work_left cfg (p_ws s ! i)"
      using tick(3) by (simp add: work_left_def enter_flush_def)
    then show ?thesis
      using drain_measure_worker [OF tick(2), of cfg "p_q s" _ "p_drop s" "p_done s" "infos s" "p_db s"] closed
      unfolding tick(1) by simp
  qed
next
  case (attempt_ok i a ret batch f d n took)
  then show ?thesis
    using drain_measure_worker [OF attempt_ok(2), of cfg "p_q s" "leave_flush ret" "p_drop s" "p_done s @ batch" _ d]
      closed by (simp add: work_left_def [of _ "p_ws s ! i"])
next
  case (attempt_retry i a ret batch f d e)
  then show ?thesis
    using drain_measure_worker [OF attempt_retry(2), of cfg "p_q s" _ "p_drop s" "p_done s" "infos s" d] closed
    by (simp add: work_left_def)
next
  case (attempt_drop i a ret batch f d e took)
  then show ?thesis
    using drain_measure_worker [OF attempt_drop(2), of cfg "p_q s" "leave_flush ret" "p_drop s @ batch" "p_done s" _ d]
      closed by (simp add: work_left_def [of _ "p_ws s ! i"])
qed

text \<open>\<^verbatim>\<open>Wait\<close> returns when every worker has.\<close>

definition pool_finished :: "'d pool \<Rightarrow> bool" where
  "pool_finished s \<longleftrightarrow> (\<forall>w \<in> set (p_ws s). w_mode w = Exited)"

lemma worker_can_step:
  assumes pinv: "pool_inv cfg s" and closed: "closed (p_q s)"
    and i: "i < length (p_ws s)" and w: "w_mode (p_ws s ! i) \<noteq> Exited"
  shows "\<exists>t. pool_step ins cfg s t \<and> (p_ws t \<noteq> p_ws s \<or> p_q t \<noteq> p_q s)"
proof (cases "w_mode (p_ws s ! i)")
  case Collecting
  obtain q r where recv: "Events_recv (p_q s) = (q, r)" by force
  have open_closed: "ch_closed (ch (p_q s))" using pinv closed by (simp add: pool_inv_def mq_inv_def)
  show ?thesis
  proof (cases r)
    case (RecvEvent e)
    have "q \<noteq> p_q s" using Events_recv_cases [OF recv] RecvEvent by auto
    then show ?thesis
      by - (rule exI, rule conjI [OF pool_step.recv_event [OF i Collecting recv [unfolded RecvEvent] refl refl]],
          simp)
  next
    case RecvClosed
    have "w_mode (enter_flush True (w_batch (p_ws s ! i))) \<noteq> Collecting" by (simp add: enter_flush_def)
    then have "(p_ws s)[i := enter_flush True (w_batch (p_ws s ! i))] \<noteq> p_ws s"
      using Collecting i by (metis nth_list_update_eq)
    then show ?thesis
      by - (rule exI, rule conjI [OF pool_step.recv_closed [OF i Collecting recv [unfolded RecvClosed]]], simp)
  next
    case RecvBlock
    then show ?thesis using Events_recv_cases [OF recv] open_closed by simp
  qed
next
  case (Flushing a ret)
  obtain d r where at: "ins undefined (p_db s) (w_batch (p_ws s ! i)) = (d, r)" by force
  have a: "a \<le> cfg_MaxRetries cfg"
    using worker_ok_nth [OF pinv i] Flushing by (simp add: worker_ok_def)
  have weq: "p_ws s ! i = \<lparr>w_batch = w_batch (p_ws s ! i), w_mode = Flushing a ret\<rparr>"
    using Flushing by (cases "p_ws s ! i") simp
  show ?thesis
  proof (cases "isl r \<longrightarrow> a = cfg_MaxRetries cfg")
    case True
    have "w_mode (leave_flush ret) \<noteq> Flushing a ret" by (simp add: leave_flush_def)
    then have "(p_ws s)[i := leave_flush ret] \<noteq> p_ws s" using Flushing i by (metis nth_list_update_eq)
    then show ?thesis
      using final_attempt_pool_step [where ins = ins and f = undefined, OF i weq a at True] by metis
  next
    case False
    then obtain e where e: "r = Inl e" by (cases r) auto
    let ?w = "\<lparr>w_batch = w_batch (p_ws s ! i), w_mode = Flushing (a + 1) ret\<rparr>"
    have "w_mode ?w \<noteq> Flushing a ret" by simp
    then have "(p_ws s)[i := ?w] \<noteq> p_ws s" using Flushing i by (metis nth_list_update_eq)
    moreover have lt: "a < cfg_MaxRetries cfg" using False a by auto
    ultimately show ?thesis
      by - (rule exI, rule conjI [OF pool_step.attempt_retry
            [where ins = ins and f = undefined, OF i Flushing lt refl at [unfolded e]]], simp)
  qed
qed (use w in simp)

lemma pool_progress:
  assumes "pool_inv cfg s" and "config_ok cfg" and "closed (p_q s)" and "\<not> pool_finished s"
  shows "\<exists>t. pool_step ins cfg s t \<and> closed (p_q t) \<and> drain_measure cfg t < drain_measure cfg s"
proof -
  obtain i where "i < length (p_ws s)" "w_mode (p_ws s ! i) \<noteq> Exited"
    using assms(4) by (auto simp: pool_finished_def in_set_conv_nth)
  then obtain t where t: "pool_step ins cfg s t" "p_ws t \<noteq> p_ws s \<or> p_q t \<noteq> p_q s"
    using worker_can_step [OF assms(1,3)] by metis
  then show ?thesis using drain_decreases [OF t(1) assms(1-3)] by metis
qed

lemma pool_can_finish:
  assumes "pool_inv cfg s" and "config_ok cfg" and "closed (p_q s)"
  shows "\<exists>t. pool_reach ins cfg s t \<and> pool_finished t"
  using assms
proof (induction "nat (drain_measure cfg s)" arbitrary: s rule: less_induct)
  case (less s)
  show ?case
  proof (cases "pool_finished s")
    case True
    then show ?thesis using pool_reach.start by blast
  next
    case False
    then obtain t where t: "pool_step ins cfg s t" "closed (p_q t)" "drain_measure cfg t < drain_measure cfg s"
      using pool_progress [OF less.prems False] by blast
    have inv: "pool_inv cfg t" by (rule pool_inv_step [OF t(1) less.prems(1,2)])
    have "nat (drain_measure cfg t) < nat (drain_measure cfg s)"
      using t(3) drain_measure_nonneg [OF inv less.prems(2)] by simp
    then obtain u where "pool_reach ins cfg t u" "pool_finished u"
      using less.hyps [OF _ inv less.prems(2) t(2)] by blast
    then show ?thesis using pool_reach_step [OF t(1)] by blast
  qed
qed

lemma held_finished:
  assumes "pool_inv cfg s" and "pool_finished s"
  shows "held (p_ws s) = {#}"
proof -
  have "\<forall>w \<in> set (p_ws s). w_batch w = []"
    using assms by (auto simp: pool_inv_def pool_finished_def worker_ok_def split: wmode.splits)
  then show ?thesis unfolding held_def by (simp cong: map_cong)
qed

lemma run_iter_run:
  assumes cfg: "config_ok cfg" and i: "i < length (p_ws s)" and w: "w_mode (p_ws s ! i) = Collecting"
    and ready: "arm_ready (p_q s) arm q"
    and run: "run_iter ins cfg fs took arm (p_db s) (w_batch (p_ws s ! i)) = ((d, b, fis), ret)"
  shows "\<exists>t. pool_reach ins cfg s t \<and> p_q t = q \<and> p_db t = d \<and> infos t = infos s @ fis \<and>
    p_ws t = (p_ws s)[i := \<lparr>w_batch = b, w_mode = (if ret then Exited else Collecting)\<rparr>]"
proof -
  have flushing: ?thesis
    if st: "pool_step ins cfg s (s\<lparr>p_q := q, p_ws := (p_ws s)[i := enter_flush ret b0]\<rparr>)"
      and fl: "flush ins cfg fs took (p_db s) b0 = (d, b, fis)" for b0
  proof -
    let ?u = "s\<lparr>p_q := q, p_ws := (p_ws s)[i := enter_flush ret b0]\<rparr>"
    obtain t where t: "pool_reach ins cfg ?u t" "p_q t = p_q ?u" "p_db t = d" "infos t = infos ?u @ fis"
        "p_ws t = (p_ws ?u)[i := \<lparr>w_batch = b, w_mode = (if ret then Exited else Collecting)\<rparr>]"
      using flush_pool_run [of i ?u ret b0 cfg ins fs took d b fis] i fl cfg by auto
    then show ?thesis using pool_reach_step [OF st t(1)] by (intro exI [of _ t]) simp
  qed
  show ?thesis
  proof (cases arm)
    case (ArmEvent e)
    let ?b = "w_batch (p_ws s ! i) @ [e]"
    have recv: "Events_recv (p_q s) = (q, RecvEvent e)" using ready ArmEvent by (simp add: arm_ready_def)
    note st = pool_step.recv_event [where ins = ins and cfg = cfg, OF i w recv refl refl]
    show ?thesis
    proof (cases "int (length ?b) \<ge> cfg_BatchSize cfg")
      case True
      then show ?thesis using flushing [of ?b] st run ArmEvent by (simp add: run_iter_def)
    next
      case False
      then show ?thesis using pool_reach_step [OF st pool_reach.start] run ArmEvent
        by - (rule exI, rule conjI, assumption, auto simp: run_iter_def)
    qed
  next
    case ArmClosed
    then have recv: "Events_recv (p_q s) = (q, RecvClosed)" using ready by (simp add: arm_ready_def)
    show ?thesis
      using flushing [of "w_batch (p_ws s ! i)"] pool_step.recv_closed [where ins = ins and cfg = cfg, OF i w recv] run ArmClosed
      by (simp add: run_iter_def)
  next
    case ArmTick
    then have "q = p_q s" using ready by (simp add: arm_ready_def)
    then show ?thesis
      using flushing [of "w_batch (p_ws s ! i)"] pool_step.tick [where ins = ins and cfg = cfg, OF i w] run ArmTick
      by (simp add: run_iter_def)
  qed
qed

lemma pool_reach_Start:
  assumes "NewMemory n = Some q" and "db_inv h0 d" and "config_ok cfg"
    and "pool_reach (InsertBatch env) cfg (pool_Start cfg q d) s"
  shows "pool_inv cfg s" and "pool_stored db_inv h0 s"
    and "pool_counts cfg stored_ids (card (stored_ids d)) s"
proof -
  have start: "pool_inv cfg (pool_Start cfg q d)"
    using pool_inv_Start [OF mq_inv_NewMemory [OF assms(1)] assms(3)] .
  have "pool_stored db_inv h0 (pool_Start cfg q d)"
    using assms(2) by (auto simp: pool_stored_def pool_Start_def intro!: exI [of _ "[]"])
  moreover have "pool_counts cfg stored_ids (card (stored_ids d)) (pool_Start cfg q d)"
    by (simp add: pool_counts_def pool_Start_def)
  ultimately show "pool_stored db_inv h0 s" "pool_counts cfg stored_ids (card (stored_ids d)) s"
    using pg.pool_reach_stored [OF assms(4) start assms(3)] by blast+
  show "pool_inv cfg s" by (rule pool_inv_reach [OF assms(4) start assms(3)])
qed

lemma pool_drained:
  assumes "NewMemory n = Some q" and "db_inv h0 d"
    and "pool_reach (InsertBatch env) (worker_New cfg) (pool_Start (worker_New cfg) q d) s"
    and "pool_finished s" and "p_ws s \<noteq> []"
  shows "buf (ch (p_q s)) = [] \<and> mset (p_acc s) = mset (p_done s) + mset (p_drop s) \<and>
    (p_drop s = [] \<longrightarrow> db_inv (h0 @ p_acc s) (p_db s))"
proof -
  note facts = pool_reach_Start [OF assms(1,2) config_ok_worker_New assms(3)]
  have empty: "buf (ch (p_q s)) = []"
    using facts(1) assms(4,5)
    by (cases "p_ws s") (auto simp: pool_inv_def pool_finished_def worker_ok_def)
  then have acc: "mset (p_acc s) = mset (p_done s) + mset (p_drop s)"
    using facts(1) held_finished [OF facts(1) assms(4)] by (simp add: pool_inv_def)
  have "db_inv (h0 @ p_acc s) (p_db s)" if "p_drop s = []"
  proof -
    obtain h where h: "db_inv (h0 @ h) (p_db s)" "set (p_done s) \<subseteq> set h" "set h \<subseteq> set (p_acc s)"
      using facts(2) by (auto simp: pool_stored_def)
    have "mset (p_acc s) = mset (p_done s)" using acc that by simp
    then have "set (p_acc s) = set (p_done s)" by (rule mset_eq_setD)
    then have "set (h0 @ h) = set (h0 @ p_acc s)" using h by auto
    then show ?thesis using h(1) db_inv_cong by blast
  qed
  then show ?thesis using empty acc by simp
qed

section \<open>Properties\<close>

text \<open>A run for the witnesses: one worker stores one event and returns.\<close>

definition demo_cfg :: Config where
  "demo_cfg = worker_New \<lparr>cfg_Workers = 1, cfg_BatchSize = 1, cfg_FlushInterval = 0,
     cfg_MaxRetries = 0, cfg_OnFlush = True\<rparr>"

definition demo_queue :: mem_queue where
  "demo_queue = \<lparr>ch = \<lparr>buf = [], cap = 1, ch_closed = False\<rparr>, closed = False\<rparr>"

lemma config_ok_demo [simp]: "config_ok demo_cfg"
  by (simp add: demo_cfg_def)

lemma NewMemory_demo [simp]: "NewMemory 1 = Some demo_queue"
  by (simp add: NewMemory_def demo_queue_def)

text \<open>The pool after the event was accepted and the queue closed.\<close>

definition demo_closed :: "db pool" where
  "demo_closed = (pool_Start demo_cfg demo_queue empty_db)
     \<lparr>p_q := Close (demo_queue\<lparr>ch := (ch demo_queue)\<lparr>buf := [demo_event]\<rparr>\<rparr>), p_acc := [demo_event]\<rparr>"

lemmas demo_defs = demo_closed_def pool_Start_def demo_cfg_def demo_queue_def worker_New_def queue_defs
  enter_flush_def leave_flush_def

lemma demo_pool_drain:
  "\<exists>s. pool_reach (InsertBatch demo_env) demo_cfg demo_closed s \<and>
     pool_finished s \<and> closed (p_q s) \<and> p_ws s \<noteq> [] \<and> p_acc s = [demo_event] \<and> p_drop s = []"
proof -
  let ?ins = "InsertBatch demo_env"
  obtain d n where ok: "?ins no_faults empty_db [demo_event] = (d, Inr n)" using demo_insert by blast
  let ?q3 = "Close demo_queue"
  let ?s3 = "demo_closed\<lparr>p_q := ?q3, p_ws := [enter_flush False [demo_event]]\<rparr>"
  let ?s4 = "?s3\<lparr>p_ws := [leave_flush False], p_db := d,
    infos := report demo_cfg [demo_event] 0 (Inr n), p_done := [demo_event]\<rparr>"
  let ?s5 = "?s4\<lparr>p_ws := [enter_flush True []]\<rparr>"
  have "pool_step ?ins demo_cfg demo_closed ?s3"
    using pool_step.recv_event [of 0 demo_closed ?q3 demo_event "[demo_event]" "enter_flush False [demo_event]" demo_cfg ?ins]
    by (simp add: demo_defs)
  moreover have "pool_step ?ins demo_cfg ?s3 ?s4"
    using pool_step.attempt_ok [of 0 ?s3 1 False demo_cfg "[demo_event]" ?ins no_faults d n 0] ok
    by (simp add: demo_defs)
  moreover have "pool_step ?ins demo_cfg ?s4 ?s5"
    using pool_step.recv_closed [of 0 ?s4 ?q3 ?ins demo_cfg] by (simp add: demo_defs)
  ultimately have "pool_reach ?ins demo_cfg demo_closed ?s5"
    by (meson pool_reach.start pool_reach.step)
  then show ?thesis by (intro exI [of _ ?s5]) (simp add: demo_defs pool_finished_def)
qed

lemma demo_pool_run:
  "\<exists>s. pool_reach (InsertBatch demo_env) demo_cfg (pool_Start demo_cfg demo_queue empty_db) s \<and>
     pool_finished s \<and> closed (p_q s) \<and> p_ws s \<noteq> [] \<and> p_acc s = [demo_event] \<and> p_drop s = []"
proof -
  let ?ins = "InsertBatch demo_env"
  let ?s0 = "pool_Start demo_cfg demo_queue empty_db"
  let ?q1 = "demo_queue\<lparr>ch := (ch demo_queue)\<lparr>buf := [demo_event]\<rparr>\<rparr>"
  let ?s1 = "?s0\<lparr>p_q := ?q1, p_acc := [demo_event]\<rparr>"
  have "pool_step ?ins demo_cfg ?s0 ?s1"
    using pool_step.produce [of ?s0 demo_event ?q1 None ?ins demo_cfg] by (simp add: demo_defs)
  moreover have "pool_step ?ins demo_cfg ?s1 demo_closed"
    using pool_step.close [of ?ins demo_cfg ?s1] by (simp add: demo_defs)
  ultimately show ?thesis using demo_pool_drain by (meson pool_reach_step)
qed

text \<open>
  C6. The pool conserves events. Whatever the interleaving of producers, workers, ticks, shutdown
  and database faults, each accepted event is in exactly one place: the queue, a worker's batch,
  the events reported stored, or the events dropped. No batch exceeds the configured size, what
  was reported stored is in a consistent database, and nothing is stored that was not accepted.
\<close>

theorem pool_conserves:
  assumes "NewMemory n = Some q" and "db_inv h0 d"
    and "pool_reach (InsertBatch env) (worker_New cfg) (pool_Start (worker_New cfg) q d) s"
  shows "mset (p_acc s) = mset (buf (ch (p_q s))) + held (p_ws s) + mset (p_done s) + mset (p_drop s) \<and>
    (\<forall>w \<in> set (p_ws s). int (length (w_batch w)) \<le> cfg_BatchSize (worker_New cfg)) \<and>
    (\<exists>h. db_inv (h0 @ h) (p_db s) \<and> set (p_done s) \<subseteq> set h \<and> set h \<subseteq> set (p_acc s))"
proof -
  note facts = pool_reach_Start [OF assms(1,2) config_ok_worker_New assms(3)]
  have "int (length (w_batch w)) \<le> cfg_BatchSize (worker_New cfg)" if "w \<in> set (p_ws s)" for w
    using that facts(1) by (intro worker_ok_batch [of _ "p_q s"]) (simp_all add: pool_inv_def)
  then show ?thesis using facts(1,2) by (simp add: pool_inv_def pool_stored_def)
qed

theorem pool_conserves_witness:
  "\<exists>s :: db pool. p_acc s = [demo_event] \<and> mset (p_acc s) =
     mset (buf (ch (p_q s))) + held (p_ws s) + mset (p_done s) + mset (p_drop s) \<and>
     (\<exists>h. db_inv h (p_db s) \<and> set (p_done s) \<subseteq> set h)"
proof -
  obtain s where run: "pool_reach (InsertBatch demo_env) demo_cfg (pool_Start demo_cfg demo_queue empty_db) s"
    and acc: "p_acc s = [demo_event]"
    using demo_pool_run by blast
  show ?thesis
    using pool_conserves [OF NewMemory_demo db_inv_empty run [unfolded demo_cfg_def]] acc
    by (intro exI [of _ s]) auto
qed

text \<open>
  C10. Shutdown terminates: once the queue is closed, every step of the pool is idle or strictly
  decreases a bound on the remaining work, as long as some worker has not returned there is such
  a step, and so \<^verbatim>\<open>Wait\<close> can return, whatever the sink does.
\<close>

theorem pool_drains:
  assumes "pool_inv cfg s" and "config_ok cfg" and "closed (p_q s)"
  shows "0 \<le> drain_measure cfg s \<and>
    (\<forall>t. pool_step ins cfg s t \<longrightarrow> t = s \<or> closed (p_q t) \<and> drain_measure cfg t < drain_measure cfg s) \<and>
    (\<not> pool_finished s \<longrightarrow> (\<exists>t. pool_step ins cfg s t \<and> drain_measure cfg t < drain_measure cfg s)) \<and>
    (\<exists>t. pool_reach ins cfg s t \<and> pool_finished t)"
proof (intro conjI allI impI)
  fix t assume "pool_step ins cfg s t"
  then show "t = s \<or> closed (p_q t) \<and> drain_measure cfg t < drain_measure cfg s"
    by (rule drain_decreases [OF _ assms])
next
  assume "\<not> pool_finished s"
  then show "\<exists>t. pool_step ins cfg s t \<and> drain_measure cfg t < drain_measure cfg s"
    using pool_progress [OF assms] by blast
qed (rule drain_measure_nonneg [OF assms(1,2)], rule pool_can_finish [OF assms])

theorem pool_drains_witness:
  "\<exists>t. pool_reach (InsertBatch demo_env) demo_cfg (pool_Start demo_cfg (Close demo_queue) empty_db) t \<and>
     pool_finished t"
proof -
  have "mq_inv (Close demo_queue)" by (simp add: queue_defs demo_queue_def)
  then have "pool_inv demo_cfg (pool_Start demo_cfg (Close demo_queue) empty_db)"
    by (simp add: pool_inv_Start)
  then show ?thesis using pool_drains [of demo_cfg _ "InsertBatch demo_env"]
    by (simp add: pool_Start_def Close_def demo_queue_def)
qed

text \<open>
  C15. The loop body as written, run without interruption, is a run of the interleaved pool: for
  each arm of the \<^verbatim>\<open>select\<close> that can fire, the pool reaches the queue, store, reports
  and worker that the sequential code computes, and no other worker changes.
\<close>

theorem run_iter_refines_pool:
  assumes "config_ok cfg" and "i < length (p_ws s)" and "w_mode (p_ws s ! i) = Collecting"
    and "arm_ready (p_q s) arm q"
    and "run_iter ins cfg fs took arm (p_db s) (w_batch (p_ws s ! i)) = ((d, b, fis), ret)"
  shows "\<exists>t. pool_reach ins cfg s t \<and> p_q t = q \<and> p_db t = d \<and> infos t = infos s @ fis \<and>
    p_ws t = (p_ws s)[i := \<lparr>w_batch = b, w_mode = (if ret then Exited else Collecting)\<rparr>]"
  using run_iter_run [OF assms] .

theorem run_iter_refines_pool_witness:
  "\<exists>t. pool_reach (InsertBatch demo_env) demo_cfg (pool_Start demo_cfg (Close demo_queue) empty_db) t \<and>
     p_ws t = [\<lparr>w_batch = [], w_mode = Exited\<rparr>]"
proof -
  let ?s = "pool_Start demo_cfg (Close demo_queue) empty_db"
  have "\<exists>t. pool_reach (InsertBatch demo_env) demo_cfg ?s t \<and> p_q t = Close demo_queue \<and>
      p_db t = empty_db \<and> infos t = infos ?s @ [] \<and>
      p_ws t = (p_ws ?s)[0 := \<lparr>w_batch = [], w_mode = (if True then Exited else Collecting)\<rparr>]"
    by (rule run_iter_refines_pool [where arm = ArmClosed and fs = "\<lambda>_. no_faults" and took = 0])
      (simp_all add: pool_Start_def demo_cfg_def worker_New_def arm_ready_def queue_defs demo_queue_def
        run_iter_def flush_def config_ok_def)
  then show ?thesis by (auto simp: pool_Start_def demo_cfg_def worker_New_def)
qed

lemma retry_loop_poison:
  assumes "e \<in> set b" and "\<not> storable env e" and "a \<le> maxr"
  shows "\<exists>err. retry_loop (InsertBatch env) fs maxr a d b r0 = (d, Inl err)"
  using assms(3)
proof (induction "nat (maxr - a)" arbitrary: a r0 rule: less_induct)
  case (less a r0)
  obtain err where at: "InsertBatch env (fs a) d b = (d, Inl err)"
    using InsertBatch_unstorable [OF assms(1,2)] by blast
  show ?case
  proof (cases "a = maxr")
    case True
    then show ?thesis using retry_loop_final [of "InsertBatch env" fs a d b, OF at] by blast
  next
    case False
    then show ?thesis
      using less retry_loop_again [of "InsertBatch env" fs a d b, OF at less.prems] by simp
  qed
qed

text \<open>
  C14. A flush of a non-empty batch empties it and reports once. With no error the whole batch is in
  a consistent database and the counts add up; with an error the database is unchanged or, after
  a lost acknowledgement, holds the whole batch. One attempt without faults among the allowed
  ones is enough for a batch of storable events, and one event that cannot be stored is enough to
  have all events of its batch dropped.
\<close>

theorem flush_outcome:
  assumes "db_inv h d" and "batch \<noteq> []" and "config_ok cfg" and "cfg_OnFlush cfg"
    and "flush (InsertBatch env) cfg fs took d batch = (d', batch', fis)"
  shows "batch' = [] \<and> (\<exists>fi. fis = [fi] \<and> BatchSize fi = int (length batch) \<and>
    (Err fi = None \<longrightarrow> db_inv (h @ batch) d' \<and> 0 \<le> Inserted fi \<and>
       Inserted fi \<le> int (card (event_ids batch - stored_ids d)) \<and>
       Inserted fi + Duplicates fi = int (length batch)) \<and>
    (Err fi \<noteq> None \<longrightarrow> d' = d \<or> db_inv (h @ batch) d') \<and>
    ((\<exists>a. 1 \<le> a \<and> a \<le> cfg_MaxRetries cfg \<and> fs a = no_faults) \<and> (\<forall>e \<in> set batch. storable env e)
       \<longrightarrow> Err fi = None) \<and>
    ((\<exists>e \<in> set batch. \<not> storable env e) \<longrightarrow> Err fi \<noteq> None \<and> d' = d))"
proof -
  obtain r where r: "retry_loop (InsertBatch env) fs (cfg_MaxRetries cfg) 1 d batch (Inr 0) = (d', r)"
    and out: "batch' = []" "fis = [flush_info batch took r]"
    using assms(2,4,5) by (auto simp: flush_def report_def split: prod.splits)
  have maxr: "1 \<le> cfg_MaxRetries cfg" using assms(3) by (simp add: config_ok_def)
  note kept = pg.retry_loop_inv [OF assms(1) maxr r]
  have clean: "\<not> isl r" if "1 \<le> a" "a \<le> cfg_MaxRetries cfg" "fs a = no_faults" "\<forall>e \<in> set batch. storable env e" for a
  proof -
    have "\<not> isl (snd (InsertBatch env (fs a) d0 batch))" if "db_inv h0 d0" for h0 d0
      using InsertBatch_no_faults [OF that \<open>\<forall>e \<in> set batch. storable env e\<close>, of no_faults] \<open>fs a = no_faults\<close>
      by (auto simp: no_faults_def)
    then have "\<not> isl (snd (retry_loop (InsertBatch env) fs (cfg_MaxRetries cfg) 1 d batch (Inr 0)))"
      by (rule pg.retry_loop_succeeds [OF assms(1) that(1,2)])
    then show ?thesis using r by simp
  qed
  have poison: "isl r \<and> d' = d" if "e \<in> set batch" "\<not> storable env e" for e
    using retry_loop_poison [OF that maxr, of fs d "Inr 0"] r by auto
  show ?thesis
  proof (cases r)
    case (Inl e)
    then show ?thesis using kept clean poison out by (auto simp: flush_info_def)
  next
    case (Inr n)
    then show ?thesis using kept poison out by (auto simp: flush_info_def)
  qed
qed

theorem flush_outcome_witness:
  "\<exists>d fi. flush (InsertBatch demo_env) demo_cfg
       (\<lambda>a. if a = 2 then no_faults else \<lparr>stmt_fault = \<lambda>_. Some ''down'', commit_fault = CommitOk\<rparr>)
       0 empty_db [demo_event] = (d, [], [fi]) \<and> Err fi = None \<and> db_inv [demo_event] d"
proof -
  let ?fs = "\<lambda>a. if a = 2 then no_faults else \<lparr>stmt_fault = \<lambda>_. Some ''down'', commit_fault = CommitOk\<rparr>"
  obtain d b fis where run: "flush (InsertBatch demo_env) demo_cfg ?fs 0 empty_db [demo_event] = (d, b, fis)"
    using prod_cases3 by blast
  have c: "config_ok demo_cfg" "cfg_OnFlush demo_cfg" "cfg_MaxRetries demo_cfg = 3"
    by (simp_all add: demo_cfg_def worker_New_def config_ok_def)
  have "storable demo_env demo_event" using storable_demo [of 1000000000] by (simp add: demo_event_def)
  moreover have "\<exists>a. 1 \<le> a \<and> a \<le> cfg_MaxRetries demo_cfg \<and> ?fs a = no_faults"
    by (rule exI [of _ 2]) (simp add: c)
  ultimately show ?thesis
    using flush_outcome [OF db_inv_empty _ c(1,2) run] run by auto
qed

end
