(* ===== verification/Kafka.thy ===== *)
theory Kafka
  imports Worker
begin

text \<open>
  The broker-backed queue of \<^verbatim>\<open>src/internal/queue/kafka.go\<close>: the producer, and the
  consumer loop as a state machine between its calls of the client, the store and the context.
  The client library is a parameter, with what its documentation promises as a hypothesis; any
  number of consumers of the group run against it, and may be killed and replaced at any point.
\<close>

section \<open>The client library\<close>

record krecord =
  kr_Topic :: string
  kr_Key :: string
  kr_Value :: string
  kr_Partition :: int
  kr_Offset :: nat

record fetches =
  IsClientClosed :: bool
  Records :: "krecord list"

text \<open>
  The calls of \<^verbatim>\<open>kgo.Client\<close> that the source makes. A client is a handle, a natural
  number; the state \<open>'k\<close> is that of all clients and of the broker. The last three fields
  observe it: the log of each partition, a handle's position, and the group's committed offsets.
\<close>

record 'k kgo =
  NewProducerClient :: "'k \<Rightarrow> 'k \<times> go_error option"
  NewConsumerClient :: "nat \<Rightarrow> 'k \<Rightarrow> 'k \<times> go_error option"
  BufferedProduceRecords :: "'k \<Rightarrow> int"
  Produce :: "krecord \<Rightarrow> 'k \<Rightarrow> 'k"
  Flush :: "'k \<Rightarrow> 'k \<times> go_error option"
  CloseClient :: "nat \<Rightarrow> 'k \<Rightarrow> 'k"
  PollRecords :: "nat \<Rightarrow> int \<Rightarrow> 'k \<Rightarrow> 'k \<times> fetches"
  CommitRecords :: "nat \<Rightarrow> krecord list \<Rightarrow> 'k \<Rightarrow> 'k \<times> go_error option"
  k_log :: "'k \<Rightarrow> int \<Rightarrow> string list"
  k_pos :: "'k \<Rightarrow> nat \<Rightarrow> int \<Rightarrow> nat"
  k_committed :: "'k \<Rightarrow> int \<Rightarrow> nat"

text \<open>\<^verbatim>\<open>encoding/json\<close> on events: encoding may fail, and so may decoding.\<close>

record json_codec =
  marshal_event :: "event \<Rightarrow> string option"
  unmarshal_event :: "string \<Rightarrow> event option"

section \<open>The producer\<close>

text \<open>\<open>kp_calls\<close> logs the records handed to the client.\<close>

record 'k producer =
  kp_world :: 'k
  kp_topic :: string
  kp_maxBuf :: int
  kp_calls :: "krecord list"

definition NewKafkaProducer :: "'k kgo \<Rightarrow> string \<Rightarrow> int \<Rightarrow> 'k \<Rightarrow> 'k \<times> (go_error + 'k producer)" where
  "NewKafkaProducer K topic maxBuffered k =
     (case NewProducerClient K k of
        (k', Some e) \<Rightarrow> (k', Inl e)
      | (k', None) \<Rightarrow>
          (k', Inr \<lparr>kp_world = k', kp_topic = topic, kp_maxBuf = maxBuffered, kp_calls = []\<rparr>))"

text \<open>The record of an event; partition and offset are the broker's to assign.\<close>

definition event_record :: "string \<Rightarrow> event \<Rightarrow> string \<Rightarrow> krecord" where
  "event_record topic e b =
     \<lparr>kr_Topic = topic, kr_Key = Name e, kr_Value = b, kr_Partition = 0, kr_Offset = 0\<rparr>"

definition KafkaProducer_Enqueue :: "'k kgo \<Rightarrow> json_codec \<Rightarrow> 'k producer \<Rightarrow> event \<Rightarrow> 'k producer \<times> go_error option" where
  "KafkaProducer_Enqueue K J p e =
     (if BufferedProduceRecords K (kp_world p) \<ge> kp_maxBuf p then (p, Some ErrFull)
      else case marshal_event J e of
        None \<Rightarrow> (p, Some ErrJSON)
      | Some b \<Rightarrow>
          let r = event_record (kp_topic p) e b
          in (p\<lparr>kp_world := Produce K r (kp_world p), kp_calls := kp_calls p @ [r]\<rparr>, None))"

text \<open>A flush that fails is only logged.\<close>

definition KafkaProducer_Close :: "'k kgo \<Rightarrow> nat \<Rightarrow> 'k producer \<Rightarrow> 'k producer" where
  "KafkaProducer_Close K h p =
     (let (k, err) = Flush K (kp_world p) in p\<lparr>kp_world := CloseClient K h k\<rparr>)"

text \<open>The producer keeps the contract of an enqueuer, on the key and value of the records handed over.\<close>

interpretation kp: enqueuer "KafkaProducer_Enqueue K J"
  "\<lambda>p. map (\<lambda>r. (kr_Key r, Some (kr_Value r))) (kp_calls p)" "\<lambda>e. (Name e, marshal_event J e)" "\<lambda>_. True"
  for K J
  by unfold_locales
    (auto simp: KafkaProducer_Enqueue_def event_record_def Let_def split: if_splits option.splits)

section \<open>The consumer\<close>

text \<open>Where the loop of \<^verbatim>\<open>Run\<close> stands: polling, inserting a batch, committing it, or returned.\<close>

datatype kpc =
    KPoll
  | KInsert "krecord list" "event list" int
  | KCommit "krecord list"
  | KReturned "go_error option"

record consumer =
  kc_batchSize :: int
  kc_pc :: kpc

definition NewKafkaConsumer :: "'k kgo \<Rightarrow> nat \<Rightarrow> int \<Rightarrow> 'k \<Rightarrow> 'k \<times> (go_error + consumer)" where
  "NewKafkaConsumer K h batchSize k =
     (case NewConsumerClient K h k of
        (k', Some e) \<Rightarrow> (k', Inl e)
      | (k', None) \<Rightarrow>
          (k', Inr \<lparr>kc_batchSize = (if batchSize \<le> 0 then 1000 else batchSize), kc_pc = KPoll\<rparr>))"

text \<open>Decoding skips malformed records.\<close>

fun decode_records :: "json_codec \<Rightarrow> krecord list \<Rightarrow> event list" where
  "decode_records J [] = []"
| "decode_records J (r # rs) =
     (case unmarshal_event J (kr_Value r) of
        None \<Rightarrow> decode_records J rs
      | Some e \<Rightarrow> e # decode_records J rs)"

text \<open>\<^verbatim>\<open>min(attempt * 250ms, 5s)\<close>, in nanoseconds.\<close>

definition kafka_backoff :: "int \<Rightarrow> int" where
  "kafka_backoff attempt = min (attempt * 250000000) 5000000000"

text \<open>
  What one stretch of the loop depends on: whether the context is found cancelled, how the insert
  goes, and the clock. \<open>k_waits\<close> logs the back-offs and \<open>k_infos\<close> the calls of the hook.
\<close>

record 'f kinput =
  ctx_done :: bool
  ins_input :: 'f
  k_took :: int

record ('k, 'd) kstate =
  k_world :: 'k
  k_db :: 'd
  k_infos :: "FlushInfo list"
  k_waits :: "int list"

definition ctx_Err :: "'f kinput \<Rightarrow> go_error option" where
  "ctx_Err inp = (if ctx_done inp then Some ErrCtx else None)"

definition Run_step :: "'k kgo \<Rightarrow> json_codec \<Rightarrow> ('f, 'd) sink \<Rightarrow> nat \<Rightarrow> 'f kinput \<Rightarrow>
    ('k, 'd) kstate \<Rightarrow> consumer \<Rightarrow> ('k, 'd) kstate \<times> consumer" where
  "Run_step K J ins h inp s c =
     (case kc_pc c of
        KPoll \<Rightarrow>
          let (k, fetches) = PollRecords K h (kc_batchSize c) (k_world s) in
          if IsClientClosed fetches \<or> ctx_Err inp \<noteq> None
          then (s\<lparr>k_world := CloseClient K h k\<rparr>, c\<lparr>kc_pc := KReturned (ctx_Err inp)\<rparr>)
          else if Records fetches = [] then (s\<lparr>k_world := k\<rparr>, c)
          else (s\<lparr>k_world := k\<rparr>,
                c\<lparr>kc_pc := KInsert (Records fetches) (decode_records J (Records fetches)) 1\<rparr>)
      | KInsert recs events attempt \<Rightarrow>
          (case ins (ins_input inp) (k_db s) events of
             (d, Inr n) \<Rightarrow>
               (s\<lparr>k_db := d, k_infos := k_infos s @ [flush_info events (k_took inp) (Inr n)]\<rparr>,
                c\<lparr>kc_pc := KCommit recs\<rparr>)
           | (d, Inl e) \<Rightarrow>
               if ctx_done inp
               then (s\<lparr>k_db := d, k_world := CloseClient K h (k_world s)\<rparr>, c\<lparr>kc_pc := KReturned (ctx_Err inp)\<rparr>)
               else (s\<lparr>k_db := d, k_waits := k_waits s @ [kafka_backoff attempt]\<rparr>,
                     c\<lparr>kc_pc := KInsert recs events (attempt + 1)\<rparr>))
      | KCommit recs \<Rightarrow>
          let (k, err) = CommitRecords K h recs (k_world s)
          in (s\<lparr>k_world := k\<rparr>, c\<lparr>kc_pc := KPoll\<rparr>)
      | KReturned e \<Rightarrow> (s, c))"

section \<open>The group\<close>

text \<open>
  All consumers of the group, the handle of each its index. A consumer can be killed between any
  two of its calls, new ones can join, and the broker acts on its own (\<open>E\<close>): producers append
  to the logs, and a rebalance takes positions back to the committed offsets.
\<close>

record ('k, 'd) group =
  g_state :: "('k, 'd) kstate"
  g_cs :: "consumer list"

inductive group_step :: "'k kgo \<Rightarrow> ('k \<Rightarrow> 'k \<Rightarrow> bool) \<Rightarrow> json_codec \<Rightarrow> ('f, 'd) sink \<Rightarrow>
    ('k, 'd) group \<Rightarrow> ('k, 'd) group \<Rightarrow> bool"
  for K :: "'k kgo" and E :: "'k \<Rightarrow> 'k \<Rightarrow> bool" and J :: json_codec and ins :: "('f, 'd) sink" where
  run: "i < length (g_cs g) \<Longrightarrow> Run_step K J ins i inp (g_state g) (g_cs g ! i) = (s, c) \<Longrightarrow>
     group_step K E J ins g \<lparr>g_state = s, g_cs = (g_cs g)[i := c]\<rparr>"
| kill: "i < length (g_cs g) \<Longrightarrow>
     group_step K E J ins g (g\<lparr>g_cs := (g_cs g)[i := (g_cs g ! i)\<lparr>kc_pc := KReturned None\<rparr>]\<rparr>)"
| join: "NewKafkaConsumer K (length (g_cs g)) n (k_world (g_state g)) = (k, r) \<Longrightarrow>
     group_step K E J ins g
       \<lparr>g_state = (g_state g)\<lparr>k_world := k\<rparr>,
        g_cs = (case r of Inr c \<Rightarrow> g_cs g @ [c] | Inl e \<Rightarrow> g_cs g)\<rparr>"
| broker: "E (k_world (g_state g)) k \<Longrightarrow>
     group_step K E J ins g (g\<lparr>g_state := (g_state g)\<lparr>k_world := k\<rparr>\<rparr>)"

inductive group_reach :: "'k kgo \<Rightarrow> ('k \<Rightarrow> 'k \<Rightarrow> bool) \<Rightarrow> json_codec \<Rightarrow> ('f, 'd) sink \<Rightarrow>
    ('k, 'd) group \<Rightarrow> ('k, 'd) group \<Rightarrow> bool"
  for K :: "'k kgo" and E :: "'k \<Rightarrow> 'k \<Rightarrow> bool" and J :: json_codec and ins :: "('f, 'd) sink"
    and g0 :: "('k, 'd) group" where
  start: "group_reach K E J ins g0 g0"
| step: "group_reach K E J ins g0 g \<Longrightarrow> group_step K E J ins g g' \<Longrightarrow> group_reach K E J ins g0 g'"

definition group_init :: "'k \<Rightarrow> 'd \<Rightarrow> ('k, 'd) group" where
  "group_init k d = \<lparr>g_state = \<lparr>k_world = k, k_db = d, k_infos = [], k_waits = []\<rparr>, g_cs = []\<rparr>"

section \<open>What the client promises\<close>

text \<open>Logs only grow; between the two states, offsets and other handles' positions are the same.\<close>

definition log_ext :: "'k kgo \<Rightarrow> 'k \<Rightarrow> 'k \<Rightarrow> bool" where
  "log_ext K k k' \<longleftrightarrow> (\<forall>p. \<exists>more. k_log K k' p = k_log K k p @ more)"

text \<open>
  \<^verbatim>\<open>PollRecords\<close> returns the records from the handle's positions on, without gaps, and
  advances the positions past them; with auto-commit disabled it commits nothing.
\<close>

definition poll_promise :: "'k kgo \<Rightarrow> bool" where
  "poll_promise K \<longleftrightarrow> (\<forall>h n k k' fs. PollRecords K h n k = (k', fs) \<longrightarrow>
     log_ext K k k' \<and> k_committed K k' = k_committed K k \<and>
     (\<forall>h'. h' \<noteq> h \<longrightarrow> k_pos K k' h' = k_pos K k h') \<and>
     (\<forall>p. k_pos K k h p \<le> length (k_log K k p) \<longrightarrow>
        k_pos K k h p \<le> k_pos K k' h p \<and> k_pos K k' h p \<le> length (k_log K k' p) \<and>
        (\<forall>off. k_pos K k h p \<le> off \<and> off < k_pos K k' h p \<longrightarrow>
           (\<exists>r \<in> set (Records fs). kr_Partition r = p \<and> kr_Offset r = off))) \<and>
     (\<forall>r \<in> set (Records fs). kr_Offset r < k_pos K k' h (kr_Partition r) \<and>
        kr_Offset r < length (k_log K k' (kr_Partition r)) \<and>
        kr_Value r = k_log K k' (kr_Partition r) ! kr_Offset r))"

text \<open>
  \<^verbatim>\<open>CommitRecords\<close> commits, per partition, the offset after the last of the given
  records; on an error it may have done so for some partitions only.
\<close>

definition commit_promise :: "'k kgo \<Rightarrow> bool" where
  "commit_promise K \<longleftrightarrow> (\<forall>h rs k k' err. CommitRecords K h rs k = (k', err) \<longrightarrow>
     log_ext K k k' \<and> k_pos K k' = k_pos K k \<and>
     (\<forall>p. (\<exists>r \<in> set rs. kr_Partition r = p \<and> k_committed K k' p = kr_Offset r + 1 \<and>
             (\<forall>r' \<in> set rs. kr_Partition r' = p \<longrightarrow> kr_Offset r' \<le> kr_Offset r)) \<or>
          k_committed K k' p = k_committed K k p \<and> (err = None \<longrightarrow> (\<forall>r \<in> set rs. kr_Partition r \<noteq> p))))"

text \<open>A new member starts from the committed offsets; leaving commits nothing.\<close>

definition member_promise :: "'k kgo \<Rightarrow> bool" where
  "member_promise K \<longleftrightarrow>
     (\<forall>h k k' err. NewConsumerClient K h k = (k', err) \<longrightarrow>
        log_ext K k k' \<and> k_committed K k' = k_committed K k \<and> k_pos K k' h = k_committed K k \<and>
        (\<forall>h'. h' \<noteq> h \<longrightarrow> k_pos K k' h' = k_pos K k h')) \<and>
     (\<forall>h k. log_ext K k (CloseClient K h k) \<and> k_committed K (CloseClient K h k) = k_committed K k \<and>
        k_pos K (CloseClient K h k) = k_pos K k)"

definition broker_promise :: "'k kgo \<Rightarrow> ('k \<Rightarrow> 'k \<Rightarrow> bool) \<Rightarrow> bool" where
  "broker_promise K E \<longleftrightarrow> (\<forall>k k'. E k k' \<longrightarrow>
     log_ext K k k' \<and> k_committed K k' = k_committed K k \<and>
     (\<forall>h p. k_pos K k' h p = k_pos K k h p \<or> k_pos K k' h p = k_committed K k p))"

definition kgo_ok :: "'k kgo \<Rightarrow> ('k \<Rightarrow> 'k \<Rightarrow> bool) \<Rightarrow> bool" where
  "kgo_ok K E \<longleftrightarrow> poll_promise K \<and> commit_promise K \<and> member_promise K \<and> broker_promise K E"

section \<open>At least once\<close>

text \<open>
  \<open>covered\<close>: every decodable record of partition \<open>p\<close> before offset \<open>n\<close> is among the
  stored events \<open>S\<close>.
\<close>

definition covered :: "'k kgo \<Rightarrow> json_codec \<Rightarrow> 'k \<Rightarrow> event set \<Rightarrow> int \<Rightarrow> nat \<Rightarrow> bool" where
  "covered K J k S p n \<longleftrightarrow> n \<le> length (k_log K k p) \<and>
     (\<forall>off < n. \<forall>e. unmarshal_event J (k_log K k p ! off) = Some e \<longrightarrow> e \<in> S)"

definition log_events :: "'k kgo \<Rightarrow> json_codec \<Rightarrow> 'k \<Rightarrow> event set" where
  "log_events K J k = {e. \<exists>p. \<exists>v \<in> set (k_log K k p). unmarshal_event J v = Some e}"

definition consumer_ok :: "'k kgo \<Rightarrow> json_codec \<Rightarrow> 'k \<Rightarrow> event set \<Rightarrow> nat \<Rightarrow> consumer \<Rightarrow> bool" where
  "consumer_ok K J k S i c \<longleftrightarrow>
     (case kc_pc c of
        KPoll \<Rightarrow> \<forall>p. covered K J k S p (k_pos K k i p)
      | KInsert recs events a \<Rightarrow>
          set events \<subseteq> log_events K J k \<and>
          (\<forall>p. covered K J k (S \<union> set events) p (k_pos K k i p)) \<and>
          (\<forall>r \<in> set recs. covered K J k (S \<union> set events) (kr_Partition r) (kr_Offset r + 1))
      | KCommit recs \<Rightarrow>
          (\<forall>p. covered K J k S p (k_pos K k i p)) \<and>
          (\<forall>r \<in> set recs. covered K J k S (kr_Partition r) (kr_Offset r + 1))
      | KReturned e \<Rightarrow> True)"

definition group_ok :: "'k kgo \<Rightarrow> json_codec \<Rightarrow> event set \<Rightarrow> event set \<Rightarrow> 'k \<Rightarrow> consumer list \<Rightarrow> bool" where
  "group_ok K J S0 S k cs \<longleftrightarrow> S \<subseteq> S0 \<union> log_events K J k \<and>
     (\<forall>p. covered K J k S p (k_committed K k p)) \<and>
     (\<forall>i < length cs. consumer_ok K J k S i (cs ! i))"

lemma set_decode_records:
  "set (decode_records J rs) = {e. \<exists>r \<in> set rs. unmarshal_event J (kr_Value r) = Some e}"
  by (induction rs) (auto split: option.splits)

lemma log_ext_nth:
  assumes "log_ext K k k'" and "n \<le> length (k_log K k p)"
  shows "n \<le> length (k_log K k' p)" and "off < n \<Longrightarrow> k_log K k' p ! off = k_log K k p ! off"
proof -
  obtain more where "k_log K k' p = k_log K k p @ more" using assms(1) by (auto simp: log_ext_def)
  with assms(2) show "n \<le> length (k_log K k' p)" "off < n \<Longrightarrow> k_log K k' p ! off = k_log K k p ! off"
    by (simp_all add: nth_append)
qed

lemma covered_mono:
  assumes "covered K J k S p n" and "log_ext K k k'" and "S \<subseteq> S'"
  shows "covered K J k' S' p n"
  using assms log_ext_nth [OF assms(2), of n p] by (auto simp: covered_def)

lemma covered_le: "covered K J k S p n \<Longrightarrow> m \<le> n \<Longrightarrow> covered K J k S p m"
  unfolding covered_def by (meson le_trans less_le_trans)

lemma log_events_mono:
  assumes "log_ext K k k'"
  shows "log_events K J k \<subseteq> log_events K J k'"
proof -
  have "set (k_log K k p) \<subseteq> set (k_log K k' p)" for p
    using assms by (metis Un_upper1 log_ext_def set_append)
  then show ?thesis unfolding log_events_def by blast
qed

lemma log_ext_refl [simp]: "log_ext K k k"
  by (simp add: log_ext_def)

lemma consumer_ok_mono:
  assumes "consumer_ok K J k S i c" and "log_ext K k k'" and "S \<subseteq> S'"
    and pos: "\<And>p. k_pos K k' i p = k_pos K k i p \<or> covered K J k' S' p (k_pos K k' i p)"
  shows "consumer_ok K J k' S' i c"
proof -
  have up: "covered K J k' (S' \<union> X) p n" if "covered K J k (S \<union> X) p n" for X p n
    using covered_mono [OF that assms(2)] assms(3) by blast
  have at_pos: "covered K J k' (S' \<union> X) p (k_pos K k' i p)"
    if "\<forall>p. covered K J k (S \<union> X) p (k_pos K k i p)" for X p
    using pos [of p] up [of X p] that covered_mono [of K J k' S' p _ k' "S' \<union> X"] by (metis Un_upper1 log_ext_refl)
  show ?thesis
    using assms(1) up at_pos log_events_mono [OF assms(2), of J] up [of "{}"] at_pos [of "{}"]
    by (auto simp: consumer_ok_def split: kpc.splits)
qed

text \<open>The world moves on, more events are stored, and consumer \<open>i\<close> changes.\<close>

lemma group_ok_update:
  assumes ok: "group_ok K J S0 S k cs" and ext: "log_ext K k k'" and S: "S \<subseteq> S'"
    and new: "S' \<subseteq> S0 \<union> log_events K J k'"
    and com: "\<And>p. k_committed K k' p = k_committed K k p \<or> covered K J k' S' p (k_committed K k' p)"
    and pos: "\<And>i' p. i' \<noteq> i \<Longrightarrow> k_pos K k' i' p = k_pos K k i' p \<or> covered K J k' S' p (k_pos K k' i' p)"
    and c: "consumer_ok K J k' S' i c"
  shows "group_ok K J S0 S' k' (cs[i := c])"
proof -
  have "covered K J k' S' p (k_committed K k' p)" for p
    using com [of p] covered_mono [OF _ ext S] ok by (metis group_ok_def)
  moreover have "consumer_ok K J k' S' i' (cs[i := c] ! i')" if "i' < length cs" for i'
  proof (cases "i' = i")
    case False
    then show ?thesis using ok that consumer_ok_mono [OF _ ext S pos [OF False]]
      by (simp add: group_ok_def)
  qed (use c that in simp)
  ultimately show ?thesis using new by (simp add: group_ok_def)
qed

lemma poll_consumer_ok:
  assumes prom: "poll_promise K" and poll: "PollRecords K h n k = (k', fs)"
    and pos: "\<forall>p. covered K J k S p (k_pos K k h p)"
  shows "consumer_ok K J k' S h (c\<lparr>kc_pc := KInsert (Records fs) (decode_records J (Records fs)) 1\<rparr>)"
    and "Records fs = [] \<Longrightarrow> \<forall>p. covered K J k' S p (k_pos K k' h p)"
proof -
  let ?D = "set (decode_records J (Records fs))"
  note prom = prom [unfolded poll_promise_def, rule_format, OF poll]
  have val: "kr_Offset r < length (k_log K k' (kr_Partition r))" "kr_Value r = k_log K k' (kr_Partition r) ! kr_Offset r"
    "kr_Offset r + 1 \<le> k_pos K k' h (kr_Partition r)" if "r \<in> set (Records fs)" for r
    using prom that by auto
  have at_pos: "covered K J k' (S \<union> ?D) p (k_pos K k' h p)" for p
    unfolding covered_def
  proof (intro conjI allI impI)
    have le: "k_pos K k h p \<le> length (k_log K k p)" using pos by (simp add: covered_def)
    then show "k_pos K k' h p \<le> length (k_log K k' p)" using prom by blast
    fix off e assume off: "off < k_pos K k' h p" and e: "unmarshal_event J (k_log K k' p ! off) = Some e"
    show "e \<in> S \<union> ?D"
    proof (cases "off < k_pos K k h p")
      case True
      then show ?thesis using covered_mono [of K J k S p _ k' S] pos prom e by (auto simp: covered_def)
    next
      case False
      then obtain r where r: "r \<in> set (Records fs)" "kr_Partition r = p" "kr_Offset r = off"
        using prom le off by (meson not_less)
      then have "unmarshal_event J (kr_Value r) = Some e" using val(2) [OF r(1)] e by simp
      then show ?thesis using r(1) by (auto simp: set_decode_records)
    qed
  qed
  have "covered K J k' (S \<union> ?D) (kr_Partition r) (kr_Offset r + 1)" if "r \<in> set (Records fs)" for r
    by (rule covered_le [OF at_pos val(3) [OF that]])
  moreover have "?D \<subseteq> log_events K J k'"
    using val(1,2) by (auto simp: set_decode_records log_events_def) (metis nth_mem)
  ultimately show "consumer_ok K J k' S h (c\<lparr>kc_pc := KInsert (Records fs) (decode_records J (Records fs)) 1\<rparr>)"
    using at_pos by (simp add: consumer_ok_def)
  show "Records fs = [] \<Longrightarrow> \<forall>p. covered K J k' S p (k_pos K k' h p)"
    using at_pos by simp
qed

definition group_inv :: "(event list \<Rightarrow> 'd \<Rightarrow> bool) \<Rightarrow> 'k kgo \<Rightarrow> json_codec \<Rightarrow> event set \<Rightarrow> ('k, 'd) group \<Rightarrow> bool" where
  "group_inv I K J S0 g \<longleftrightarrow>
     (\<exists>h. I h (k_db (g_state g)) \<and> group_ok K J S0 (set h) (k_world (g_state g)) (g_cs g))"

lemma consumer_ok_returned [simp]: "consumer_ok K J k S i (c\<lparr>kc_pc := KReturned e\<rparr>)"
  by (simp add: consumer_ok_def)

text \<open>A step that leaves the stored events alone and moves only consumer \<open>i\<close>.\<close>

lemma group_ok_world:
  assumes "group_ok K J S0 S k cs" and "log_ext K k k'" and "k_committed K k' = k_committed K k"
    and "\<And>i'. i' \<noteq> i \<Longrightarrow> k_pos K k' i' = k_pos K k i'" and "consumer_ok K J k' S i c"
  shows "group_ok K J S0 S k' (cs[i := c])"
proof (rule group_ok_update [OF assms(1,2)])
  show "S \<subseteq> S0 \<union> log_events K J k'"
    using assms(1) log_events_mono [OF assms(2), of J] by (auto simp: group_ok_def)
qed (use assms in auto)

lemma closing_promise:
  assumes "member_promise K"
  shows "log_ext K k (CloseClient K h k)" and "k_committed K (CloseClient K h k) = k_committed K k"
    and "k_pos K (CloseClient K h k) = k_pos K k"
  using assms by (simp_all add: member_promise_def)

lemma run_poll:
  assumes kgo: "kgo_ok K E" and ok: "group_ok K J S0 S (k_world s) cs" and i: "i < length cs"
    and pc: "kc_pc (cs ! i) = KPoll" and run: "Run_step K J ins i inp s (cs ! i) = (s', c)"
  shows "k_db s' = k_db s \<and> group_ok K J S0 S (k_world s') (cs[i := c])"
proof -
  obtain k fs where poll: "PollRecords K i (kc_batchSize (cs ! i)) (k_world s) = (k, fs)" by force
  have prom: "poll_promise K" "member_promise K" using kgo by (simp_all add: kgo_ok_def)
  note p = prom(1) [unfolded poll_promise_def, rule_format, OF poll]
  have "\<forall>p. covered K J (k_world s) S p (k_pos K (k_world s) i p)"
    using ok i pc by (auto simp: group_ok_def consumer_ok_def)
  note polled = poll_consumer_ok [OF prom(1) poll this]
  have stay: "group_ok K J S0 S k (cs[i := c'])" if "consumer_ok K J k S i c'" for c'
    using p that by (intro group_ok_world [OF ok]) auto
  show ?thesis
  proof (cases "IsClientClosed fs \<or> ctx_Err inp \<noteq> None")
    case True
    have out: "s' = s\<lparr>k_world := CloseClient K i k\<rparr>" "c = (cs ! i)\<lparr>kc_pc := KReturned (ctx_Err inp)\<rparr>"
      using run pc poll True by (auto simp: Run_step_def)
    have "group_ok K J S0 S (CloseClient K i k) ((cs[i := c])[i := c])"
      using closing_promise [OF prom(2)] unfolding out
      by (intro group_ok_world [OF stay]) simp_all
    then show ?thesis by (simp add: out)
  next
    case False
    show ?thesis
    proof (cases "Records fs = []")
      case True
      then have "consumer_ok K J k S i (cs ! i)" using polled(2) pc by (simp add: consumer_ok_def)
      then have "group_ok K J S0 S k (cs[i := cs ! i])" by (rule stay)
      then show ?thesis using run pc poll False True by (auto simp: Run_step_def)
    next
      case nonempty: False
      then show ?thesis using run pc poll False polled(1) stay by (auto simp: Run_step_def)
    qed
  qed
qed

lemma run_commit:
  assumes kgo: "kgo_ok K E" and ok: "group_ok K J S0 S (k_world s) cs" and i: "i < length cs"
    and pc: "kc_pc (cs ! i) = KCommit recs" and run: "Run_step K J ins i inp s (cs ! i) = (s', c)"
  shows "k_db s' = k_db s \<and> group_ok K J S0 S (k_world s') (cs[i := c])"
proof -
  obtain k err where com: "CommitRecords K i recs (k_world s) = (k, err)" by force
  have "commit_promise K" using kgo by (simp add: kgo_ok_def)
  note p = this [unfolded commit_promise_def, rule_format, OF com]
  have out: "s' = s\<lparr>k_world := k\<rparr>" "c = (cs ! i)\<lparr>kc_pc := KPoll\<rparr>"
    using run pc com by (simp_all add: Run_step_def)
  have "consumer_ok K J (k_world s) S i (cs ! i)" using ok i by (simp add: group_ok_def)
  then have c: "\<forall>p. covered K J (k_world s) S p (k_pos K (k_world s) i p)"
    "\<forall>r \<in> set recs. covered K J (k_world s) S (kr_Partition r) (kr_Offset r + 1)"
    using pc by (simp_all add: consumer_ok_def)
  have ext: "log_ext K (k_world s) k" using p by blast
  have up: "covered K J k S p n" if "covered K J (k_world s) S p n" for p n
    using covered_mono [OF that ext] by blast
  have "group_ok K J S0 S k (cs[i := c])"
  proof (rule group_ok_update [OF ok ext order_refl])
    show "S \<subseteq> S0 \<union> log_events K J k"
      using ok log_events_mono [OF ext, of J] by (auto simp: group_ok_def)
    show "k_committed K k p = k_committed K (k_world s) p \<or> covered K J k S p (k_committed K k p)" for p
      using p c(2) up by metis
    show "consumer_ok K J k S i c"
      using c(1) up p by (simp add: out consumer_ok_def)
  qed (use p in simp)
  then show ?thesis by (simp add: out)
qed

lemma group_ok_moved:
  assumes ok: "group_ok K J S0 S k cs" and ext: "log_ext K k k'"
    and com: "k_committed K k' = k_committed K k"
    and pos: "\<And>i p. i < length cs \<Longrightarrow> k_pos K k' i p = k_pos K k i p \<or> k_pos K k' i p = k_committed K k p"
  shows "group_ok K J S0 S k' cs"
proof -
  have cov: "covered K J k' S p (k_committed K k p)" for p
    using ok covered_mono [OF _ ext order_refl] by (simp add: group_ok_def)
  have "consumer_ok K J k' S i (cs ! i)" if "i < length cs" for i
  proof (rule consumer_ok_mono [OF _ ext order_refl])
    show "consumer_ok K J k S i (cs ! i)" using ok that by (simp add: group_ok_def)
    show "k_pos K k' i p = k_pos K k i p \<or> covered K J k' S p (k_pos K k' i p)" for p
      using pos [OF that, of p] cov by metis
  qed
  then show ?thesis
    using ok cov com log_events_mono [OF ext, of J] by (auto simp: group_ok_def)
qed

lemma broker_ok:
  assumes "kgo_ok K E" and "group_ok K J S0 S k cs" and "E k k'"
  shows "group_ok K J S0 S k' cs"
  using assms by (intro group_ok_moved [OF assms(2)]) (simp_all add: kgo_ok_def broker_promise_def)

lemma join_ok:
  assumes kgo: "kgo_ok K E" and ok: "group_ok K J S0 S k cs"
    and join: "NewKafkaConsumer K (length cs) n k = (k', r)"
  shows "group_ok K J S0 S k' (case r of Inr c \<Rightarrow> cs @ [c] | Inl e \<Rightarrow> cs)"
proof -
  obtain err where new: "NewConsumerClient K (length cs) k = (k', err)"
    using join by (auto simp: NewKafkaConsumer_def split: prod.splits option.splits)
  have "member_promise K" using kgo by (simp add: kgo_ok_def)
  then have p: "log_ext K k k'" "k_committed K k' = k_committed K k"
    "k_pos K k' (length cs) = k_committed K k" "\<And>i. i \<noteq> length cs \<Longrightarrow> k_pos K k' i = k_pos K k i"
    using new by (auto simp: member_promise_def)
  have old: "group_ok K J S0 S k' cs"
    using p(4) by (intro group_ok_moved [OF ok p(1,2)]) simp
  then have "consumer_ok K J k' S (length cs) c" if "kc_pc c = KPoll" for c
    using that p(2,3) by (simp add: consumer_ok_def group_ok_def)
  then show ?thesis
    using old join new
    by (auto simp: NewKafkaConsumer_def group_ok_def nth_append less_Suc_eq split: option.splits sum.splits)
qed

text \<open>A batch that the store has taken is covered; one it has refused stays as it was.\<close>

lemma group_ok_stored:
  assumes ok: "group_ok K J S0 S k cs" and i: "i < length cs"
    and pc: "kc_pc (cs ! i) = KInsert recs events a" and ext: "log_ext K k k'"
    and com: "k_committed K k' = k_committed K k" and pos: "k_pos K k' = k_pos K k"
    and S': "S' = S \<union> set events \<or> S' = S"
    and c: "S' = S \<union> set events \<and> c = (cs ! i)\<lparr>kc_pc := KCommit recs\<rparr> \<or>
      c = (cs ! i)\<lparr>kc_pc := KInsert recs events a'\<rparr> \<or> c = (cs ! i)\<lparr>kc_pc := KReturned r\<rparr>"
  shows "group_ok K J S0 S' k' (cs[i := c])"
proof (rule group_ok_update [OF ok ext])
  have cok: "consumer_ok K J k S i (cs ! i)" using ok i by (simp add: group_ok_def)
  then have ev: "set events \<subseteq> log_events K J k" using pc by (simp add: consumer_ok_def)
  show SS': "S \<subseteq> S'" using S' by blast
  show "S' \<subseteq> S0 \<union> log_events K J k'"
    using ok ev S' log_events_mono [OF ext, of J] by (auto simp: group_ok_def)
  have up: "covered K J k' (S' \<union> set events) p n" if "covered K J k (S \<union> set events) p n" for p n
    using covered_mono [OF that ext] SS' by blast
  have "consumer_ok K J k' S' i (cs ! i)"
    by (rule consumer_ok_mono [OF cok ext SS']) (simp add: pos)
  then show "consumer_ok K J k' S' i c"
    using c pc up by (auto simp: consumer_ok_def Un_absorb2)
qed (simp_all add: com pos)

context batch_inserter
begin

lemma run_insert:
  assumes kgo: "kgo_ok K E" and ok: "group_ok K J S0 (set h) (k_world s) cs" and i: "i < length cs"
    and pc: "kc_pc (cs ! i) = KInsert recs events a" and run: "Run_step K J ins i inp s (cs ! i) = (s', c)"
    and I: "inv h (k_db s)"
  shows "\<exists>h'. inv h' (k_db s') \<and> group_ok K J S0 (set h') (k_world s') (cs[i := c])"
proof -
  obtain d r where at: "ins (ins_input inp) (k_db s) events = (d, r)" by force
  have mem: "member_promise K" using kgo by (simp add: kgo_ok_def)
  show ?thesis
  proof (cases r)
    case (Inr n)
    have out: "k_db s' = d" "k_world s' = k_world s" "c = (cs ! i)\<lparr>kc_pc := KCommit recs\<rparr>"
      using run pc at Inr by (auto simp: Run_step_def)
    have "group_ok K J S0 (set (h @ events)) (k_world s') (cs[i := c])"
      by (rule group_ok_stored [OF ok i pc]) (simp_all add: out)
    moreover have "inv (h @ events) d" using ins_Inr [OF I] at Inr by blast
    ultimately show ?thesis using out by blast
  next
    case (Inl e)
    have out: "k_db s' = d" "k_world s' = (if ctx_done inp then CloseClient K i (k_world s) else k_world s)"
      "c = (if ctx_done inp then (cs ! i)\<lparr>kc_pc := KReturned (ctx_Err inp)\<rparr>
            else (cs ! i)\<lparr>kc_pc := KInsert recs events (a + 1)\<rparr>)"
      using run pc at Inl by (auto simp: Run_step_def split: if_splits)
    have keep: "group_ok K J S0 S' (k_world s') (cs[i := c])"
      if "S' = set h \<union> set events \<or> S' = set h" for S'
      using closing_promise [OF mem] that unfolding out
      by (intro group_ok_stored [OF ok i pc, where a' = "a + 1" and r = "ctx_Err inp"]) auto
    have "d = k_db s \<or> inv (h @ events) d" using ins_Inl [OF I] at Inl by blast
    then show ?thesis
    proof
      assume "d = k_db s"
      then show ?thesis using keep [of "set h"] I out(1) by (intro exI [of _ h]) simp
    next
      assume "inv (h @ events) d"
      then show ?thesis using keep [of "set (h @ events)"] out(1) by (intro exI [of _ "h @ events"]) simp
    qed
  qed
qed

lemma group_inv_step:
  assumes step: "group_step K E J ins g g'" and kgo: "kgo_ok K E" and ginv: "group_inv inv K J S0 g"
  shows "group_inv inv K J S0 g'"
proof -
  obtain h where I: "inv h (k_db (g_state g))"
    and ok: "group_ok K J S0 (set h) (k_world (g_state g)) (g_cs g)"
    using ginv by (auto simp: group_inv_def)
  from step show ?thesis
  proof cases
    case (run i inp s c)
    have "\<exists>h'. inv h' (k_db s) \<and> group_ok K J S0 (set h') (k_world s) ((g_cs g)[i := c])"
    proof (cases "kc_pc (g_cs g ! i)")
      case KPoll
      then show ?thesis using run_poll [OF kgo ok run(2) _ run(3)] I by metis
    next
      case (KInsert recs events a)
      then show ?thesis using run_insert [OF kgo ok run(2) _ run(3) I] by blast
    next
      case (KCommit recs)
      then show ?thesis using run_commit [OF kgo ok run(2) _ run(3)] I by metis
    next
      case (KReturned e)
      then show ?thesis using run(3) I ok by (auto simp: Run_step_def)
    qed
    then show ?thesis by (simp add: run(1) group_inv_def)
  next
    case (kill i)
    have "group_ok K J S0 (set h) (k_world (g_state g)) (g_cs g')"
      unfolding kill by (simp, rule group_ok_world [OF ok]) simp_all
    then show ?thesis using I kill by (auto simp: group_inv_def)
  next
    case (join n k r)
    then show ?thesis using join_ok [OF kgo ok join(2)] I by (auto simp: group_inv_def)
  next
    case (broker k)
    then show ?thesis using broker_ok [OF kgo ok broker(2)] I by (auto simp: group_inv_def)
  qed
qed

end

lemma group_reach_inv:
  assumes "group_reach K E J (InsertBatch env) g0 g" and "kgo_ok K E" and "group_inv db_inv K J S0 g0"
  shows "group_inv db_inv K J S0 g"
  using assms by (induction rule: group_reach.induct) (auto intro: pg.group_inv_step)

section \<open>A consumer on its own\<close>

definition Run_inputs :: "'k kgo \<Rightarrow> json_codec \<Rightarrow> ('f, 'd) sink \<Rightarrow> nat \<Rightarrow> 'f kinput list \<Rightarrow>
    ('k, 'd) kstate \<times> consumer \<Rightarrow> ('k, 'd) kstate \<times> consumer" where
  "Run_inputs K J ins h inps sc = foldl (\<lambda>(s, c) inp. Run_step K J ins h inp s c) sc inps"

lemma Run_inputs_Cons:
  "Run_inputs K J ins h (inp # inps) (s, c) = Run_inputs K J ins h inps (Run_step K J ins h inp s c)"
  by (simp add: Run_inputs_def)

lemma poison_run:
  assumes "e \<in> set events" and "\<not> storable env e" and "\<forall>inp \<in> set inps. \<not> ctx_done inp"
    and "kc_pc c = KInsert recs events a"
  shows "Run_inputs K J (InsertBatch env) h inps (s, c) =
    (s\<lparr>k_waits := k_waits s @ map (\<lambda>j. kafka_backoff (a + int j)) [0..<length inps]\<rparr>,
     c\<lparr>kc_pc := KInsert recs events (a + int (length inps))\<rparr>)"
  using assms(3,4)
proof (induction inps arbitrary: s c a)
  case Nil
  then show ?case by (simp add: Run_inputs_def)
next
  case (Cons inp inps)
  obtain err where at: "InsertBatch env (ins_input inp) (k_db s) events = (k_db s, Inl err)"
    using InsertBatch_unstorable [OF assms(1,2)] by blast
  have step: "Run_step K J (InsertBatch env) h inp s c =
      (s\<lparr>k_waits := k_waits s @ [kafka_backoff a]\<rparr>, c\<lparr>kc_pc := KInsert recs events (a + 1)\<rparr>)"
    using Cons.prems at by (simp add: Run_step_def)
  have shift: "map (\<lambda>j. kafka_backoff (a + int j)) [0..<Suc (length inps)] =
      kafka_backoff a # map (\<lambda>j. kafka_backoff (a + 1 + int j)) [0..<length inps]"
    by (simp only: upt_conv_Cons map_Suc_upt [symmetric] list.map map_map zero_less_Suc)
      (simp add: comp_def ac_simps)
  show ?case
    using Cons.IH [of "c\<lparr>kc_pc := KInsert recs events (a + 1)\<rparr>" "a + 1"] Cons.prems shift
    by (simp add: Run_inputs_Cons step ac_simps del: upt_Suc)
qed

lemma group_stores_log:
  assumes "kgo_ok K E" and "\<forall>p. k_committed K k p = 0"
    and "group_reach K E J (InsertBatch env) (group_init k empty_db) g"
    and "k' = k_world (g_state g)"
  shows "\<exists>h. db_inv h (k_db (g_state g)) \<and> set h \<subseteq> log_events K J k' \<and>
    (\<forall>p off e. off < k_committed K k' p \<and> unmarshal_event J (k_log K k' p ! off) = Some e \<longrightarrow> e \<in> set h) \<and>
    ((\<forall>p. k_committed K k' p = length (k_log K k' p)) \<longrightarrow> set h = log_events K J k')"
proof -
  have "group_inv db_inv K J {} (group_init k empty_db)"
    using assms(2) by (auto simp: group_inv_def group_init_def group_ok_def covered_def intro!: exI [of _ "[]"])
  then obtain h where h: "db_inv h (k_db (g_state g))" and ok: "group_ok K J {} (set h) k' (g_cs g)"
    using group_reach_inv [OF assms(3,1)] unfolding group_inv_def assms(4) by blast
  have cov: "e \<in> set h" if "off < k_committed K k' p" "unmarshal_event J (k_log K k' p ! off) = Some e" for p off e
    using ok that by (auto simp: group_ok_def covered_def)
  have "log_events K J k' \<subseteq> set h" if "\<forall>p. k_committed K k' p = length (k_log K k' p)"
    using cov that by (auto simp: log_events_def in_set_conv_nth)
  then show ?thesis using h ok cov by (intro exI [of _ h]) (auto simp: group_ok_def)
qed

section \<open>Properties\<close>

text \<open>A client library with one partition that delivers everything, for the witnesses.\<close>

record demo_world =
  dw_log :: "string list"
  dw_pos :: "nat \<Rightarrow> nat"
  dw_com :: nat

definition demo_poll :: "nat \<Rightarrow> int \<Rightarrow> demo_world \<Rightarrow> demo_world \<times> fetches" where
  "demo_poll h n k = (k\<lparr>dw_pos := (dw_pos k)(h := max (dw_pos k h) (length (dw_log k)))\<rparr>,
     \<lparr>IsClientClosed = False, Records = map (\<lambda>off. \<lparr>kr_Topic = ''events'', kr_Key = [],
        kr_Value = dw_log k ! off, kr_Partition = 0, kr_Offset = off\<rparr>) [dw_pos k h..<length (dw_log k)]\<rparr>)"

definition demo_commit :: "nat \<Rightarrow> krecord list \<Rightarrow> demo_world \<Rightarrow> demo_world \<times> go_error option" where
  "demo_commit h rs k =
     (if rs = [] then (k, None)
      else if \<forall>r \<in> set rs. kr_Partition r = 0
      then (k\<lparr>dw_com := Max (kr_Offset ` set rs) + 1\<rparr>, None) else (k, Some ErrUnavailable))"

definition demo_kgo :: "demo_world kgo" where
  "demo_kgo = \<lparr>NewProducerClient = (\<lambda>k. (k, None)),
     NewConsumerClient = (\<lambda>h k. (k\<lparr>dw_pos := (dw_pos k)(h := dw_com k)\<rparr>, None)),
     BufferedProduceRecords = (\<lambda>_. 0), Produce = (\<lambda>r k. k\<lparr>dw_log := dw_log k @ [kr_Value r]\<rparr>),
     Flush = (\<lambda>k. (k, None)), CloseClient = (\<lambda>_ k. k), PollRecords = demo_poll,
     CommitRecords = demo_commit, k_log = (\<lambda>k p. if p = 0 then dw_log k else []),
     k_pos = (\<lambda>k h p. if p = 0 then dw_pos k h else 0), k_committed = (\<lambda>k p. if p = 0 then dw_com k else 0)\<rparr>"

definition demo_broker :: "demo_world \<Rightarrow> demo_world \<Rightarrow> bool" where
  "demo_broker k k' \<longleftrightarrow> (\<exists>v. k' = k\<lparr>dw_log := dw_log k @ [v]\<rparr>)"

definition demo_codec :: json_codec where
  "demo_codec = \<lparr>marshal_event = (\<lambda>e. if e = demo_event then Some ''evt'' else None),
     unmarshal_event = (\<lambda>v. if v = ''evt'' then Some demo_event else None)\<rparr>"

lemma demo_poll_promise: "poll_promise demo_kgo"
  unfolding poll_promise_def
  by (auto simp: demo_kgo_def demo_poll_def log_ext_def max_def split: if_splits)

lemma demo_commit_promise: "commit_promise demo_kgo"
  unfolding commit_promise_def
proof (intro allI impI, goal_cases)
  case (1 h rs k k' err)
  then have run: "demo_commit h rs k = (k', err)" by (simp add: demo_kgo_def)
  have frame: "log_ext demo_kgo k k' \<and> k_pos demo_kgo k' = k_pos demo_kgo k"
    using run by (auto simp: demo_commit_def demo_kgo_def log_ext_def fun_eq_iff split: if_splits)
  show ?case
  proof (cases "rs \<noteq> [] \<and> (\<forall>r \<in> set rs. kr_Partition r = 0)")
    case True
    then have "Max (kr_Offset ` set rs) \<in> kr_Offset ` set rs" by (intro Max_in) auto
    then obtain r where r: "r \<in> set rs" "kr_Offset r = Max (kr_Offset ` set rs)" by auto
    then have "\<forall>r' \<in> set rs. kr_Offset r' \<le> kr_Offset r" by simp
    moreover have "k_committed demo_kgo k' p = (if p = 0 then kr_Offset r + 1 else k_committed demo_kgo k p)" for p
      using run True r(2) by (auto simp: demo_commit_def demo_kgo_def)
    ultimately show ?thesis using frame True r(1) by auto
  next
    case False
    then have "k' = k" "err = None \<Longrightarrow> rs = []"
      using run by (auto simp: demo_commit_def split: if_splits)
    then show ?thesis using frame by auto
  qed
qed

lemma demo_kgo_ok: "kgo_ok demo_kgo demo_broker"
  using demo_poll_promise demo_commit_promise
  by (auto simp: kgo_ok_def member_promise_def broker_promise_def demo_kgo_def demo_broker_def log_ext_def)

text \<open>One consumer joins, polls the one record, stores it and commits.\<close>

lemma demo_group_run:
  "\<exists>g. group_reach demo_kgo demo_broker demo_codec (InsertBatch demo_env)
       (group_init \<lparr>dw_log = [''evt''], dw_pos = (\<lambda>_. 0), dw_com = 0\<rparr> empty_db) g \<and>
     dw_log (k_world (g_state g)) = [''evt''] \<and> dw_com (k_world (g_state g)) = 1"
proof -
  let ?R = "group_step demo_kgo demo_broker demo_codec (InsertBatch demo_env)"
  let ?k0 = "\<lparr>dw_log = [''evt''], dw_pos = (\<lambda>_. 0), dw_com = 0\<rparr>"
  let ?g0 = "group_init ?k0 empty_db"
  let ?c = "\<lparr>kc_batchSize = 1000, kc_pc = KPoll\<rparr>"
  let ?r = "\<lparr>kr_Topic = ''events'', kr_Key = [], kr_Value = ''evt'', kr_Partition = 0, kr_Offset = 0\<rparr>"
  let ?inp = "\<lparr>ctx_done = False, ins_input = no_faults, k_took = 0\<rparr>"
  let ?k1 = "?k0\<lparr>dw_pos := (\<lambda>_. 0)(0 := 0)\<rparr>"
  let ?s0 = "\<lparr>k_world = ?k1, k_db = empty_db, k_infos = [], k_waits = []\<rparr>"
  let ?k2 = "?k0\<lparr>dw_pos := (\<lambda>_. 0)(0 := 1)\<rparr>"
  obtain d n where ins: "InsertBatch demo_env no_faults empty_db [demo_event] = (d, Inr n)"
    using demo_insert by blast
  let ?s2 = "?s0\<lparr>k_world := ?k2\<rparr>"
  let ?s3 = "?s2\<lparr>k_db := d, k_infos := [flush_info [demo_event] 0 (Inr n)]\<rparr>"
  let ?s4 = "?s3\<lparr>k_world := ?k2\<lparr>dw_com := 1\<rparr>\<rparr>"
  let ?g1 = "\<lparr>g_state = ?s0, g_cs = [?c]\<rparr>"
  let ?g2 = "\<lparr>g_state = ?s2, g_cs = [?c\<lparr>kc_pc := KInsert [?r] [demo_event] 1\<rparr>]\<rparr>"
  let ?g3 = "\<lparr>g_state = ?s3, g_cs = [?c\<lparr>kc_pc := KCommit [?r]\<rparr>]\<rparr>"
  let ?g4 = "\<lparr>g_state = ?s4, g_cs = [?c]\<rparr>"
  note defs = group_init_def NewKafkaConsumer_def demo_kgo_def Run_step_def demo_poll_def ctx_Err_def
    demo_codec_def demo_commit_def
  have "?R ?g0 ?g1"
    using group_step.join [of demo_kgo ?g0 1000 ?k1 "Inr ?c" demo_broker demo_codec "InsertBatch demo_env"]
    by (simp add: defs)
  moreover have "?R ?g1 ?g2"
    using group_step.run [of 0 ?g1 demo_kgo demo_codec "InsertBatch demo_env" ?inp] by (simp add: defs)
  moreover have "?R ?g2 ?g3"
    using group_step.run [of 0 ?g2 demo_kgo demo_codec "InsertBatch demo_env" ?inp] ins by (simp add: defs)
  moreover have "?R ?g3 ?g4"
    using group_step.run [of 0 ?g3 demo_kgo demo_codec "InsertBatch demo_env" ?inp] by (simp add: defs)
  ultimately have "group_reach demo_kgo demo_broker demo_codec (InsertBatch demo_env) ?g0 ?g4"
    by (meson group_reach.start group_reach.step)
  then show ?thesis by (intro exI [of _ ?g4]) simp
qed

text \<open>
  C5. At-least-once delivery and an idempotent insert make exactly-once counting. However many
  consumers join, are killed between any two calls, fail or are rebalanced, and whatever database
  faults occur, the database stays consistent, holds every decodable record below the committed
  offsets and nothing but decodable records; when all records are committed it is exactly the
  database of the events in the log, each stored and counted once.
\<close>

theorem kafka_exactly_once:
  assumes "kgo_ok K E" and "\<forall>p. k_committed K k p = 0"
    and "group_reach K E J (InsertBatch env) (group_init k empty_db) g"
    and "k' = k_world (g_state g)"
  shows "\<exists>h. db_inv h (k_db (g_state g)) \<and> set h \<subseteq> log_events K J k' \<and>
    (\<forall>p off e. off < k_committed K k' p \<and> unmarshal_event J (k_log K k' p ! off) = Some e \<longrightarrow> e \<in> set h) \<and>
    ((\<forall>p. k_committed K k' p = length (k_log K k' p)) \<longrightarrow> set h = log_events K J k')"
  by (rule group_stores_log [OF assms])

theorem kafka_exactly_once_witness: "\<exists>h d. db_inv h d \<and> set h = {demo_event}"
proof -
  let ?k0 = "\<lparr>dw_log = [''evt''], dw_pos = (\<lambda>_. 0), dw_com = 0\<rparr>"
  obtain g where run: "group_reach demo_kgo demo_broker demo_codec (InsertBatch demo_env) (group_init ?k0 empty_db) g"
    and g: "dw_log (k_world (g_state g)) = [''evt'']" "dw_com (k_world (g_state g)) = 1"
    using demo_group_run by blast
  have "\<forall>p. k_committed demo_kgo ?k0 p = 0" by (simp add: demo_kgo_def)
  note main = kafka_exactly_once [OF demo_kgo_ok this run refl]
  have "\<forall>p. k_committed demo_kgo (k_world (g_state g)) p = length (k_log demo_kgo (k_world (g_state g)) p)"
    using g by (simp add: demo_kgo_def)
  moreover have "log_events demo_kgo demo_codec (k_world (g_state g)) = {demo_event}"
    using g by (auto simp: log_events_def demo_kgo_def demo_codec_def split: if_splits intro: exI [of _ 0])
  ultimately show ?thesis using main by auto
qed





end
