(* ===== verification/Metrics.thy ===== *)
theory Metrics
  imports Worker
begin

text \<open>
  The instruments of \<^verbatim>\<open>src/internal/metrics/metrics.go\<close> and the hook
  \<^verbatim>\<open>onFlush\<close> of \<^verbatim>\<open>src/cmd/tally/main.go\<close> that feeds the flush reports of
  the workers into them. A Prometheus counter panics on a negative increment, so the hook returns
  an option; histograms are the list of their observations.
\<close>

record metrics =
  m_EventsAccepted :: int
  m_EventsRejected :: "(string \<times> int) list"
  m_IngestDuration :: "int list"
  m_QueueDepth :: int
  m_EventsInserted :: int
  m_EventsDuplicate :: int
  m_EventsDropped :: int
  m_BatchSize :: "int list"
  m_FlushDuration :: "int list"

definition zero_metrics :: metrics where
  "zero_metrics = \<lparr>m_EventsAccepted = 0, m_EventsRejected = [], m_IngestDuration = [], m_QueueDepth = 0,
     m_EventsInserted = 0, m_EventsDuplicate = 0, m_EventsDropped = 0, m_BatchSize = [], m_FlushDuration = []\<rparr>"

definition counter_Add :: "int \<Rightarrow> int \<Rightarrow> int option" where
  "counter_Add v n = (if v < 0 then None else Some (n + v))"

definition inc_accepted :: "metrics \<Rightarrow> metrics" where
  "inc_accepted m = m\<lparr>m_EventsAccepted := m_EventsAccepted m + 1\<rparr>"

text \<open>\<^verbatim>\<open>EventsRejected.WithLabelValues(reason).Inc()\<close>: the label's counter starts at 0.\<close>

definition inc_rejected :: "string \<Rightarrow> metrics \<Rightarrow> metrics" where
  "inc_rejected reason m =
     m\<lparr>m_EventsRejected := AList.update reason
        ((case map_of (m_EventsRejected m) reason of Some n \<Rightarrow> n | None \<Rightarrow> 0) + 1) (m_EventsRejected m)\<rparr>"

definition rejected :: "metrics \<Rightarrow> string \<Rightarrow> int" where
  "rejected m reason = (case map_of (m_EventsRejected m) reason of Some n \<Rightarrow> n | None \<Rightarrow> 0)"

definition onFlush :: "metrics \<Rightarrow> FlushInfo \<Rightarrow> metrics option" where
  "onFlush m fi =
     (let m1 = m\<lparr>m_BatchSize := m_BatchSize m @ [BatchSize fi], m_FlushDuration := m_FlushDuration m @ [Took fi]\<rparr> in
      if Err fi \<noteq> None
      then map_option (\<lambda>n. m1\<lparr>m_EventsDropped := n\<rparr>) (counter_Add (BatchSize fi) (m_EventsDropped m1))
      else case counter_Add (Inserted fi) (m_EventsInserted m1) of
             None \<Rightarrow> None
           | Some n \<Rightarrow> map_option (\<lambda>n'. m1\<lparr>m_EventsInserted := n, m_EventsDuplicate := n'\<rparr>)
               (counter_Add (Duplicates fi) (m_EventsDuplicate m1)))"

text \<open>One tick of \<^verbatim>\<open>sampleDepth\<close>.\<close>

definition sampleDepth :: "mem_queue \<Rightarrow> metrics \<Rightarrow> metrics" where
  "sampleDepth q m = m\<lparr>m_QueueDepth := int (Depth q)\<rparr>"

fun onFlush_all :: "metrics \<Rightarrow> FlushInfo list \<Rightarrow> metrics option" where
  "onFlush_all m [] = Some m"
| "onFlush_all m (fi # fis) = (case onFlush m fi of None \<Rightarrow> None | Some m' \<Rightarrow> onFlush_all m' fis)"

lemma rejected_inc_accepted [simp]: "rejected (inc_accepted m) r = rejected m r"
  by (simp add: rejected_def inc_accepted_def)

lemma rejected_inc_rejected [simp]: "rejected (inc_rejected r m) r' = rejected m r' + (if r' = r then 1 else 0)"
  by (simp add: rejected_def inc_rejected_def update_conv' split: option.splits)

lemma accepted_inc [simp]:
  "m_EventsAccepted (inc_accepted m) = m_EventsAccepted m + 1"
  "m_EventsAccepted (inc_rejected r m) = m_EventsAccepted m"
  by (simp_all add: inc_accepted_def inc_rejected_def)

lemma onFlush_ok:
  assumes "info_ok cfg fi"
  shows "\<exists>m'. onFlush m fi = Some m' \<and>
    m_EventsInserted m' + m_EventsDuplicate m' = m_EventsInserted m + m_EventsDuplicate m + Inserted fi + Duplicates fi \<and>
    m_EventsDropped m' = m_EventsDropped m + dropped_of fi \<and>
    m_EventsInserted m' = m_EventsInserted m + (if Err fi = None then Inserted fi else 0) \<and>
    m_BatchSize m' = m_BatchSize m @ [BatchSize fi]"
  using assms by (auto simp: onFlush_def info_ok_def counter_Add_def dropped_of_def Let_def)

lemma onFlush_all_ok:
  assumes "\<forall>fi \<in> set fis. info_ok cfg fi"
  shows "\<exists>m'. onFlush_all m fis = Some m' \<and>
    m_EventsInserted m' + m_EventsDuplicate m' =
      m_EventsInserted m + m_EventsDuplicate m + (\<Sum>fi\<leftarrow>fis. Inserted fi + Duplicates fi) \<and>
    m_EventsDropped m' = m_EventsDropped m + (\<Sum>fi\<leftarrow>fis. dropped_of fi) \<and>
    m_EventsInserted m' \<le> m_EventsInserted m + (\<Sum>fi\<leftarrow>fis. Inserted fi) \<and>
    m_BatchSize m' = m_BatchSize m @ map BatchSize fis"
  using assms
proof (induction fis arbitrary: m)
  case (Cons fi fis)
  obtain m1 where m1: "onFlush m fi = Some m1"
    "m_EventsInserted m1 + m_EventsDuplicate m1 = m_EventsInserted m + m_EventsDuplicate m + Inserted fi + Duplicates fi"
    "m_EventsDropped m1 = m_EventsDropped m + dropped_of fi"
    "m_EventsInserted m1 = m_EventsInserted m + (if Err fi = None then Inserted fi else 0)"
    "m_BatchSize m1 = m_BatchSize m @ [BatchSize fi]"
    using onFlush_ok [of cfg fi m] Cons.prems by auto
  moreover have "0 \<le> Inserted fi" using Cons.prems by (simp add: info_ok_def)
  ultimately show ?case using Cons.IH [of m1] Cons.prems by (auto split: if_splits)
qed simp

section \<open>Properties\<close>

text \<open>
  C16. The worker metrics tell the truth. Fed with the flush reports of any run of the pool, the hook
  never panics; the inserted and duplicate counters add up to the events reported stored, the
  dropped counter is the number of events dropped, the inserted counter never exceeds the
  identifiers added to the database, and every observed batch size is within the configured one.
\<close>

theorem worker_metrics_account:
  assumes "NewMemory n = Some q" and "db_inv h0 d" and "cfg_OnFlush cfg"
    and "pool_reach (InsertBatch env) (worker_New cfg) (pool_Start (worker_New cfg) q d) s"
  shows "\<exists>m. onFlush_all zero_metrics (infos s) = Some m \<and>
    m_EventsInserted m + m_EventsDuplicate m = int (length (p_done s)) \<and>
    m_EventsDropped m = int (length (p_drop s)) \<and>
    m_EventsInserted m \<le> int (card (stored_ids (p_db s))) - int (card (stored_ids d)) \<and>
    (\<forall>b \<in> set (m_BatchSize m). 1 \<le> b \<and> b \<le> cfg_BatchSize (worker_New cfg))"
proof -
  have hook: "cfg_OnFlush (worker_New cfg)" using assms(3) by (simp add: worker_New_def)
  note counts = pool_reach_Start(3) [OF assms(1,2) config_ok_worker_New assms(4), unfolded pool_counts_def]
  then have ok: "\<forall>fi \<in> set (infos s). info_ok (worker_New cfg) fi" by blast
  obtain m where m: "onFlush_all zero_metrics (infos s) = Some m"
    "m_EventsInserted m + m_EventsDuplicate m = (\<Sum>fi\<leftarrow>infos s. Inserted fi + Duplicates fi)"
    "m_EventsDropped m = (\<Sum>fi\<leftarrow>infos s. dropped_of fi)"
    "m_EventsInserted m \<le> (\<Sum>fi\<leftarrow>infos s. Inserted fi)" "m_BatchSize m = map BatchSize (infos s)"
    using onFlush_all_ok [OF ok, of zero_metrics] by (auto simp: zero_metrics_def)
  have "\<forall>b \<in> set (m_BatchSize m). 1 \<le> b \<and> b \<le> cfg_BatchSize (worker_New cfg)"
    using ok by (simp add: m(5) info_ok_def)
  then show ?thesis using m counts hook by (intro exI [of _ m]) auto
qed

theorem worker_metrics_account_witness:
  "\<exists>s m. p_acc (s :: db pool) = [demo_event] \<and> onFlush_all zero_metrics (infos s) = Some m \<and>
     m_EventsInserted m + m_EventsDuplicate m = int (length (p_done s))"
proof -
  obtain s where run: "pool_reach (InsertBatch demo_env) demo_cfg (pool_Start demo_cfg demo_queue empty_db) s"
    and acc: "p_acc s = [demo_event]"
    using demo_pool_run by blast
  show ?thesis
    using worker_metrics_account [OF NewMemory_demo db_inv_empty _ run [unfolded demo_cfg_def]] acc
    by (intro exI [of _ s]) auto
qed

end
