(* ===== verification/Ratelimit.thy ===== *)
theory Ratelimit
  imports Prelude
begin

text \<open>
  The rate limiters of \<^verbatim>\<open>src/internal/ratelimit/ratelimit.go\<close>: the identity of a
  client, the in-memory token buckets with their janitor, and the fixed window that the Redis
  script implements. Both limiters satisfy the contract that keys do not affect one another.
\<close>

section \<open>The client key\<close>

text \<open>The parts of an HTTP request that the service reads; header names in canonical form.\<close>

record http_request =
  Header :: "(string \<times> string list) list"
  RemoteAddr :: string
  Query :: "(string \<times> string list) list"
  Body :: string

text \<open>\<^verbatim>\<open>http.Header.Get\<close> and \<^verbatim>\<open>url.Values.Get\<close>: the first value or empty.\<close>

definition values_Get :: "(string \<times> string list) list \<Rightarrow> string \<Rightarrow> string" where
  "values_Get m k = (case map_of m k of Some (v # vs) \<Rightarrow> v | _ \<Rightarrow> [])"

text \<open>\<^verbatim>\<open>strings.LastIndexByte\<close> and \<^verbatim>\<open>IndexByte\<close>; \<open>None\<close> is -1.\<close>

fun index_byte :: "char \<Rightarrow> string \<Rightarrow> nat option" where
  "index_byte c [] = None"
| "index_byte c (x # xs) = (if x = c then Some 0 else map_option Suc (index_byte c xs))"

definition last_index_byte :: "char \<Rightarrow> string \<Rightarrow> nat option" where
  "last_index_byte c s = map_option (\<lambda>i. length s - 1 - i) (index_byte c (rev s))"

text \<open>
  \<^verbatim>\<open>net.SplitHostPort\<close>, \<open>None\<close> on an address error: the last colon separates
  the port; a host with colons is in brackets, and no other brackets are allowed.
\<close>

definition SplitHostPort :: "string \<Rightarrow> (string \<times> string) option" where
  "SplitHostPort hostport =
     (case last_index_byte CHR '':'' hostport of
        None \<Rightarrow> None
      | Some i \<Rightarrow>
          let checked = (\<lambda>host j k.
            if CHR ''['' \<in> set (drop j hostport) then None
            else if CHR '']'' \<in> set (drop k hostport) then None
            else Some (host, drop (i + 1) hostport)) in
          if hd hostport = CHR ''[''
          then (case index_byte CHR '']'' hostport of
                  None \<Rightarrow> None
                | Some end' \<Rightarrow>
                    if end' + 1 = length hostport then None
                    else if end' + 1 = i then checked (drop 1 (take end' hostport)) 1 (end' + 1)
                    else None)
          else if CHR '':'' \<in> set (take i hostport) then None
          else checked (take i hostport) 0 0)"

definition ClientKey :: "http_request \<Rightarrow> string" where
  "ClientKey r =
     (let k = values_Get (Header r) ''X-Api-Key'' in
      if k \<noteq> [] then k
      else case SplitHostPort (RemoteAddr r) of
        None \<Rightarrow> RemoteAddr r
      | Some (host, port) \<Rightarrow> host)"

section \<open>Token buckets\<close>

text \<open>
  The limiter of \<^verbatim>\<open>golang.org/x/time/rate\<close> is a parameter: a new limiter for a rate
  and a burst, and \<^verbatim>\<open>Allow\<close> at a time, in nanoseconds.
\<close>

record 'l rate_lib =
  NewLimiter :: "real \<Rightarrow> int \<Rightarrow> 'l"
  lim_Allow :: "'l \<Rightarrow> int \<Rightarrow> 'l \<times> bool"

record 'l bucket_entry =
  lim :: 'l
  last_seen :: int

record 'l mem_limiter =
  rps :: real
  burst :: int
  buckets :: "(string \<times> 'l bucket_entry) list"

definition NewMemory_limiter :: "real \<Rightarrow> int \<Rightarrow> 'l mem_limiter" where
  "NewMemory_limiter r b = \<lparr>rps = r, burst = b, buckets = []\<rparr>"

text \<open>
  \<^verbatim>\<open>Allow\<close> reads the clock twice: for \<^verbatim>\<open>last\<close>, under the lock, and in the
  bucket's own \<^verbatim>\<open>Allow\<close>.
\<close>

definition Memory_Allow :: "'l rate_lib \<Rightarrow> 'l mem_limiter \<Rightarrow> string \<Rightarrow> int \<times> int \<Rightarrow> 'l mem_limiter \<times> bool" where
  "Memory_Allow L m key now =
     (let l = (case map_of (buckets m) key of
                 Some e \<Rightarrow> lim e
               | None \<Rightarrow> NewLimiter L (rps m) (burst m));
          (l', ok) = lim_Allow L l (snd now)
      in (m\<lparr>buckets := AList.update key \<lparr>lim = l', last_seen = fst now\<rparr> (buckets m)\<rparr>, ok))"

text \<open>One tick of the janitor.\<close>

definition janitor :: "int \<Rightarrow> 'l mem_limiter \<Rightarrow> 'l mem_limiter" where
  "janitor now m =
     m\<lparr>buckets := filter (\<lambda>(k, e). \<not> last_seen e < now - 600000000000) (buckets m)\<rparr>"

section \<open>The Redis window\<close>

text \<open>A counter with the server time, in milliseconds, at which it expires.\<close>

record counter =
  cnt :: int
  expires :: int

type_synonym redis = "(string \<times> counter) list"

definition redis_live :: "redis \<Rightarrow> int \<Rightarrow> string \<Rightarrow> counter option" where
  "redis_live rd now k =
     (case map_of rd k of Some c \<Rightarrow> if now < expires c then Some c else None | None \<Rightarrow> None)"

text \<open>The script: count, start the expiry on the first count, compare with the limit.\<close>

definition allowScript :: "redis \<Rightarrow> int \<Rightarrow> string \<Rightarrow> int \<Rightarrow> redis \<times> int" where
  "allowScript rd now k limit =
     (let n = (case redis_live rd now k of Some c \<Rightarrow> cnt c + 1 | None \<Rightarrow> 1);
          ex = (if n = 1 then now + 1999
                else case redis_live rd now k of Some c \<Rightarrow> expires c | None \<Rightarrow> now + 1999)
      in (AList.update k \<lparr>cnt = n, expires = ex\<rparr> rd, if n \<le> limit then 1 else 0))"

definition digit :: "nat \<Rightarrow> char" where
  "digit n = char_of (48 + n)"

definition two_digits :: "nat \<Rightarrow> string" where
  "two_digits n = [digit (n div 10), digit (n mod 10)]"

text \<open>\<^verbatim>\<open>Format("15:04:05")\<close> of a time in milliseconds since the epoch, in UTC.\<close>

definition second_of_day :: "int \<Rightarrow> nat" where
  "second_of_day ms = nat ((ms div 1000) mod 86400)"

definition clock_string :: "nat \<Rightarrow> string" where
  "clock_string s = two_digits (s div 3600) @ '':'' @ two_digits (s div 60 mod 60) @ '':'' @ two_digits (s mod 60)"

definition windowKey :: "string \<Rightarrow> int \<Rightarrow> string" where
  "windowKey key ms = ''rl:'' @ key @ '':'' @ clock_string (second_of_day ms)"

text \<open>
  How a call goes: the script runs at the given server time, or there is an error before or
  after it ran.
\<close>

datatype redis_run = RedisOk int | RedisErr | RedisErrAfter int

definition NewRedis :: "go_error option \<Rightarrow> int \<Rightarrow> go_error + int" where
  "NewRedis ping limit = (case ping of Some e \<Rightarrow> Inl e | None \<Rightarrow> Inr limit)"

text \<open>\<^verbatim>\<open>Redis.Allow\<close> at a time of the caller's clock; it fails open.\<close>

definition Redis_Allow :: "int \<Rightarrow> redis \<Rightarrow> string \<Rightarrow> int \<times> redis_run \<Rightarrow> redis \<times> bool" where
  "Redis_Allow limit rd key inp =
     (let wk = windowKey key (fst inp) in
      case snd inp of
        RedisErr \<Rightarrow> (rd, True)
      | RedisErrAfter now \<Rightarrow> (fst (allowScript rd now wk limit), True)
      | RedisOk now \<Rightarrow> (let (rd', n) = allowScript rd now wk limit in (rd', n = 1)))"

section \<open>The contract of a limiter\<close>

fun allow_run :: "('s \<Rightarrow> string \<Rightarrow> 'i \<Rightarrow> 's \<times> bool) \<Rightarrow> 's \<Rightarrow> (string \<times> 'i) list \<Rightarrow> (string \<times> bool) list" where
  "allow_run allow s [] = []"
| "allow_run allow s ((k, i) # calls) = (let (s', b) = allow s k i in (k, b) # allow_run allow s' calls)"

definition answers_for :: "string \<Rightarrow> (string \<times> bool) list \<Rightarrow> bool list" where
  "answers_for k rs = map snd (filter (\<lambda>(k', b). k' = k) rs)"

text \<open>
  \<open>view s k\<close> is what the limiter remembers of key \<open>k\<close>: a call for one key leaves the views of
  the others alone, and its answer and effect depend on its own view only.
\<close>

locale limiter =
  fixes allow :: "'s \<Rightarrow> string \<Rightarrow> 'i \<Rightarrow> 's \<times> bool"
    and view :: "'s \<Rightarrow> string \<Rightarrow> 'v"
  assumes allow_other: "allow s k i = (s', b) \<Longrightarrow> k' \<noteq> k \<Longrightarrow> view s' k' = view s k'"
    and allow_local: "view s k = view t k \<Longrightarrow> allow s k i = (s', b) \<Longrightarrow> allow t k i = (t', c) \<Longrightarrow>
      b = c \<and> view s' k = view t' k"
begin

lemma isolation:
  "view s k = view t k \<Longrightarrow>
   answers_for k (allow_run allow s calls) = answers_for k (allow_run allow t (filter (\<lambda>(k', i). k' = k) calls))"
proof (induction calls arbitrary: s t)
  case (Cons call calls)
  obtain k' i where call: "call = (k', i)" by force
  obtain s' b where s': "allow s k' i = (s', b)" by force
  show ?case
  proof (cases "k' = k")
    case True
    obtain t' c where t': "allow t k i = (t', c)" by force
    have "b = c \<and> view s' k = view t' k" using allow_local [OF Cons.prems _ t'] s' True by blast
    then show ?thesis using Cons.IH [of s' t'] s' t' True by (simp add: call answers_for_def)
  next
    case False
    have "view s' k = view t k" using allow_other [OF s'] False Cons.prems by metis
    then show ?thesis using Cons.IH [of s' t] s' False by (simp add: call answers_for_def)
  qed
qed simp

end

interpretation mem_lim: limiter "Memory_Allow L" "\<lambda>m k. (rps m, burst m, map_option lim (map_of (buckets m) k))" for L
proof (unfold_locales, goal_cases)
  case (1 s k i s' b k')
  then show ?case by (auto simp: Memory_Allow_def update_conv' split: prod.splits)
next
  case (2 s k t i s' b t' c)
  have "(case map_of (buckets s) k of Some e \<Rightarrow> lim e | None \<Rightarrow> NewLimiter L (rps s) (burst s)) =
      (case map_of (buckets t) k of Some e \<Rightarrow> lim e | None \<Rightarrow> NewLimiter L (rps t) (burst t))"
    using 2(1) by (auto split: option.splits)
  then show ?case using 2 by (auto simp: Memory_Allow_def Let_def update_conv' split: prod.splits)
qed

subsection \<open>Window keys\<close>

lemma length_clock_string [simp]: "length (clock_string s) = 8"
  by (simp add: clock_string_def two_digits_def)

lemma windowKey_key: "windowKey k ms = windowKey k' ms' \<Longrightarrow> k = k'"
  by (simp add: windowKey_def)

lemma of_digit: "a < 10 \<Longrightarrow> of_char (digit a) = 48 + a"
  by (simp add: digit_def)

lemma digit_inj:
  assumes "a < 10" and "b < 10" and "digit a = digit b"
  shows "a = b"
proof -
  have "(of_char (digit a) :: nat) = of_char (digit b)" using assms(3) by simp
  then show ?thesis unfolding of_digit [OF assms(1)] of_digit [OF assms(2)] by simp
qed

lemma two_digits_inj:
  assumes "m < 100" and "n < 100" and "two_digits m = two_digits n"
  shows "m = n"
proof -
  have "digit (m div 10) = digit (n div 10)" "digit (m mod 10) = digit (n mod 10)"
    using assms(3) by (simp_all add: two_digits_def)
  then have "m div 10 = n div 10" "m mod 10 = n mod 10"
    using assms(1,2) by (auto intro: digit_inj)
  then show ?thesis by (metis div_mult_mod_eq)
qed

lemma clock_string_inj:
  assumes "s < 86400" and "t < 86400" and "clock_string s = clock_string t"
  shows "s = t"
proof -
  have parts: "two_digits (s div 3600) = two_digits (t div 3600)"
    "two_digits (s div 60 mod 60) = two_digits (t div 60 mod 60)" "two_digits (s mod 60) = two_digits (t mod 60)"
    using assms(3) by (simp_all add: clock_string_def two_digits_def)
  have "s div 3600 = t div 3600" using assms(1,2) by (intro two_digits_inj [OF _ _ parts(1)]) simp_all
  moreover have "s div 60 mod 60 = t div 60 mod 60" by (intro two_digits_inj [OF _ _ parts(2)]) (simp_all add: less_trans [of _ 60])
  moreover have "s mod 60 = t mod 60" by (intro two_digits_inj [OF _ _ parts(3)]) (simp_all add: less_trans [of _ 60])
  moreover have "s div 3600 = s div 60 div 60" "t div 3600 = t div 60 div 60"
    by (simp_all flip: div_mult2_eq)
  ultimately have "s div 60 = t div 60" by (metis div_mult_mod_eq)
  then show ?thesis using \<open>s mod 60 = t mod 60\<close> by (metis div_mult_mod_eq)
qed

lemma second_of_day_less: "second_of_day ms < 86400"
  by (simp add: second_of_day_def)

lemma windowKey_second:
  "second_of_day ms = second_of_day ms' \<Longrightarrow> windowKey k ms = windowKey k ms'"
  by (simp add: windowKey_def)

lemma windowKey_iff: "windowKey k ms = windowKey k' ms' \<longleftrightarrow> k = k' \<and> second_of_day ms = second_of_day ms'"
proof
  assume eq: "windowKey k ms = windowKey k' ms'"
  then have "clock_string (second_of_day ms) = clock_string (second_of_day ms')"
    by (simp add: windowKey_def)
  then show "k = k' \<and> second_of_day ms = second_of_day ms'"
    using windowKey_key [OF eq] clock_string_inj [OF second_of_day_less second_of_day_less] by blast
qed (simp add: windowKey_def)

subsection \<open>The Redis limiter\<close>

lemma map_of_allowScript_other:
  "k' \<noteq> k \<Longrightarrow> map_of (fst (allowScript rd now k limit)) k' = map_of rd k'"
  by (simp add: allowScript_def Let_def update_conv')

lemma allowScript_cong:
  assumes "map_of rd k = map_of rd' k"
  shows "map_of (fst (allowScript rd now k limit)) k = map_of (fst (allowScript rd' now k limit)) k"
    and "snd (allowScript rd now k limit) = snd (allowScript rd' now k limit)"
  using assms by (simp_all add: allowScript_def Let_def redis_live_def update_conv')

lemma Redis_Allow_cases:
  "Redis_Allow limit rd key (ms, run) =
   (case run of
      RedisErr \<Rightarrow> (rd, True)
    | RedisErrAfter now \<Rightarrow> (fst (allowScript rd now (windowKey key ms) limit), True)
    | RedisOk now \<Rightarrow> (fst (allowScript rd now (windowKey key ms) limit),
                     snd (allowScript rd now (windowKey key ms) limit) = 1))"
  by (simp add: Redis_Allow_def Let_def case_prod_beta split: redis_run.splits)

interpretation redis_lim: limiter "Redis_Allow limit" "\<lambda>rd k ms. map_of rd (windowKey k ms)" for limit
proof (unfold_locales, goal_cases)
  case (1 s k i s' b k')
  obtain ms run where i: "i = (ms, run)" by force
  have "windowKey k' ms' \<noteq> windowKey k ms" for ms' using 1(2) by (simp add: windowKey_iff)
  then show ?case using 1(1) map_of_allowScript_other [of _ "windowKey k ms" s _ limit]
    by (auto simp: i Redis_Allow_cases fun_eq_iff split: redis_run.splits)
next
  case (2 s k t i s' b t' c)
  obtain ms run where i: "i = (ms, run)" by force
  have eq: "map_of s (windowKey k ms') = map_of t (windowKey k ms')" for ms'
    using 2(1) by (simp add: fun_eq_iff)
  have same: "map_of (fst (allowScript s now (windowKey k ms) limit)) (windowKey k ms') =
      map_of (fst (allowScript t now (windowKey k ms) limit)) (windowKey k ms')" for now ms'
  proof (cases "windowKey k ms' = windowKey k ms")
    case True
    then show ?thesis using allowScript_cong(1) [OF eq [of ms], of now limit] by simp
  next
    case False
    then show ?thesis using eq [of ms'] by (simp add: map_of_allowScript_other)
  qed
  show ?case using 2(2,3) same allowScript_cong(2) [OF eq [of ms]] eq
    unfolding i Redis_Allow_cases by (cases run) auto
qed

lemma allowScript_live:
  assumes "map_of rd k = Some \<lparr>cnt = c, expires = ex\<rparr>" and "now < ex" and "1 \<le> c"
  shows "map_of (fst (allowScript rd now k limit)) k = Some \<lparr>cnt = c + 1, expires = ex\<rparr>"
    and "snd (allowScript rd now k limit) = 1 \<longleftrightarrow> c + 1 \<le> limit"
  using assms by (simp_all add: allowScript_def Let_def redis_live_def update_conv')

lemma allowScript_fresh:
  assumes "\<And>c. map_of rd k = Some c \<Longrightarrow> expires c \<le> now"
  shows "map_of (fst (allowScript rd now k limit)) k = Some \<lparr>cnt = 1, expires = now + 1999\<rparr>"
    and "snd (allowScript rd now k limit) = 1 \<longleftrightarrow> 1 \<le> limit"
proof -
  have "redis_live rd now k = None"
    using assms by (auto simp: redis_live_def split: option.splits)
  then show "map_of (fst (allowScript rd now k limit)) k = Some \<lparr>cnt = 1, expires = now + 1999\<rparr>"
    "snd (allowScript rd now k limit) = 1 \<longleftrightarrow> 1 \<le> limit"
    by (simp_all add: allowScript_def Let_def update_conv')
qed

text \<open>Calls for one key in one second, as pairs of the caller's and the server's clock.\<close>

abbreviation window_calls :: "string \<Rightarrow> (int \<times> int) list \<Rightarrow> (string \<times> int \<times> redis_run) list" where
  "window_calls key xs \<equiv> map (\<lambda>(ms, now). (key, ms, RedisOk now)) xs"

lemma window_run_live:
  assumes "\<forall>(ms, now) \<in> set xs. second_of_day ms = sec \<and> now < ex" and "1 \<le> c"
    and "second_of_day ms0 = sec" and "map_of rd (windowKey key ms0) = Some \<lparr>cnt = c, expires = ex\<rparr>"
  shows "answers_for key (allow_run (Redis_Allow limit) rd (window_calls key xs)) =
    map (\<lambda>j. c + int j < limit) [0..<length xs]"
  using assms
proof (induction xs arbitrary: rd c)
  case (Cons x xs)
  obtain ms now where x: "x = (ms, now)" by force
  have wk: "windowKey key ms = windowKey key ms0" using Cons.prems by (simp add: windowKey_iff x)
  have lt: "now < ex" using Cons.prems(1) by (simp add: x)
  note live = allowScript_live [OF Cons.prems(4) lt Cons.prems(2), of limit]
  have IH: "answers_for key (allow_run (Redis_Allow limit) (fst (allowScript rd now (windowKey key ms0) limit)) (window_calls key xs)) =
      map (\<lambda>j. c + 1 + int j < limit) [0..<length xs]"
    by (rule Cons.IH) (use Cons.prems live(1) in auto)
  have "map (\<lambda>j. c + int j < limit) [0..<Suc (length xs)] =
      (c < limit) # map (\<lambda>j. c + 1 + int j < limit) [0..<length xs]"
    by (simp only: upt_conv_Cons map_Suc_upt [symmetric] list.map map_map zero_less_Suc)
      (simp add: comp_def ac_simps)
  then show ?case using IH live(2)
    by (simp add: x Redis_Allow_cases wk answers_for_def add1_zle_eq del: upt_Suc)
qed (simp add: answers_for_def)

lemma window_run:
  assumes "\<forall>(ms, now) \<in> set xs. second_of_day ms = sec \<and> T \<le> now \<and> now < T + 1999"
    and "second_of_day ms0 = sec" and "\<And>c. map_of rd (windowKey key ms0) = Some c \<Longrightarrow> expires c \<le> T"
  shows "answers_for key (allow_run (Redis_Allow limit) rd (window_calls key xs)) =
    map (\<lambda>j. int j < limit) [0..<length xs]"
proof (cases xs)
  case (Cons x ys)
  obtain ms now where x: "x = (ms, now)" by force
  have wk: "windowKey key ms = windowKey key ms0" using assms(1,2) Cons by (simp add: windowKey_iff x)
  have now: "T \<le> now" using assms(1) Cons by (simp add: x)
  have "expires c \<le> now" if "map_of rd (windowKey key ms0) = Some c" for c
    using assms(3) [OF that] now by simp
  note fresh = allowScript_fresh [OF this, where limit = limit]
  have rest: "\<forall>(ms, now') \<in> set ys. second_of_day ms = sec \<and> now' < now + 1999"
    using assms(1) Cons now by fastforce
  have IH: "answers_for key (allow_run (Redis_Allow limit) (fst (allowScript rd now (windowKey key ms0) limit)) (window_calls key ys)) =
      map (\<lambda>j. 1 + int j < limit) [0..<length ys]"
    by (rule window_run_live [OF rest _ assms(2)]) (use fresh(1) in auto)
  have "map (\<lambda>j. int j < limit) [0..<Suc (length ys)] =
      (0 < limit) # map (\<lambda>j. 1 + int j < limit) [0..<length ys]"
    by (simp only: upt_conv_Cons map_Suc_upt [symmetric] list.map map_map zero_less_Suc)
      (simp add: comp_def ac_simps)
  then show ?thesis using IH fresh(2)
    by (simp add: Cons x Redis_Allow_cases wk answers_for_def zless_add1_eq [symmetric] del: upt_Suc) auto
qed (simp add: answers_for_def)

section \<open>Addresses\<close>

lemma index_byte_append: "c \<notin> set xs \<Longrightarrow> index_byte c (xs @ c # ys) = Some (length xs)"
  by (induction xs) auto

lemma last_index_byte_append:
  assumes "c \<notin> set ys"
  shows "last_index_byte c (xs @ c # ys) = Some (length xs)"
proof -
  have "index_byte c (rev ys @ c # rev xs) = Some (length ys)"
    using index_byte_append [of c "rev ys" "rev xs"] assms by simp
  then show ?thesis by (simp add: last_index_byte_def)
qed

lemma SplitHostPort_plain:
  assumes "CHR '':'' \<notin> set (host @ port)" and "CHR ''['' \<notin> set (host @ port)" and "CHR '']'' \<notin> set (host @ port)"
  shows "SplitHostPort (host @ '':'' @ port) = Some (host, port)"
proof -
  have "hd (host @ '':'' @ port) \<noteq> CHR ''[''" using assms(2) by (cases host) auto
  then show ?thesis using assms last_index_byte_append [of "CHR '':''" port host]
    by (simp add: SplitHostPort_def)
qed

lemma SplitHostPort_bracketed:
  assumes "CHR ''['' \<notin> set (host @ port)" and "CHR '']'' \<notin> set (host @ port)" and "CHR '':'' \<notin> set port"
  shows "SplitHostPort (''['' @ host @ '']:'' @ port) = Some (host, port)"
proof -
  let ?s = "CHR ''['' # host @ CHR '']'' # CHR '':'' # port"
  have "last_index_byte CHR '':'' ?s = Some (length host + 2)"
    using last_index_byte_append [of "CHR '':''" port "CHR ''['' # host @ '']''"] assms(3) by simp
  moreover have "index_byte CHR '']'' ?s = Some (length host + 1)"
    using index_byte_append [of "CHR '']''" "CHR ''['' # host" "CHR '':'' # port"] assms(2) by simp
  ultimately have "SplitHostPort ?s = Some (host, port)"
    using assms by (simp add: SplitHostPort_def)
  then show ?thesis by simp
qed

section \<open>The janitor\<close>

text \<open>The states of a bucket, with the time of its last use; used at non-decreasing times.\<close>

inductive lim_state :: "'l rate_lib \<Rightarrow> real \<Rightarrow> int \<Rightarrow> 'l \<Rightarrow> int \<Rightarrow> bool" for L :: "'l rate_lib" and r b where
  first: "lim_state L r b (fst (lim_Allow L (NewLimiter L r b) t)) t"
| again: "lim_state L r b l t \<Longrightarrow> t \<le> t' \<Longrightarrow> lim_state L r b (fst (lim_Allow L l t')) t'"

text \<open>A bucket left alone for the time \<open>D\<close> is full again: it answers as a new one.\<close>

definition refills :: "'l rate_lib \<Rightarrow> real \<Rightarrow> int \<Rightarrow> int \<Rightarrow> bool" where
  "refills L r b D \<longleftrightarrow>
     (\<forall>l t t'. lim_state L r b l t \<and> t + D \<le> t' \<longrightarrow> lim_Allow L l t' = lim_Allow L (NewLimiter L r b) t')"

datatype lim_op = LimAllow string int int | LimTick int

fun lim_run :: "'l rate_lib \<Rightarrow> 'l mem_limiter \<Rightarrow> lim_op list \<Rightarrow> bool list" where
  "lim_run L m [] = []"
| "lim_run L m (LimAllow k t1 t2 # ops) = (let (m', ok) = Memory_Allow L m k (t1, t2) in ok # lim_run L m' ops)"
| "lim_run L m (LimTick now # ops) = lim_run L (janitor now m) ops"

fun is_allow :: "lim_op \<Rightarrow> bool" where
  "is_allow (LimAllow k t1 t2) = True"
| "is_allow (LimTick now) = False"

text \<open>The clock does not run back, and the two readings of a call are close.\<close>

fun ops_timed :: "int \<Rightarrow> int \<Rightarrow> lim_op list \<Rightarrow> bool" where
  "ops_timed D c [] = True"
| "ops_timed D c (LimAllow k t1 t2 # ops) =
     (c \<le> t1 \<and> t1 \<le> t2 \<and> t2 + D \<le> t1 + 600000000000 \<and> ops_timed D t2 ops)"
| "ops_timed D c (LimTick now # ops) = (c \<le> now \<and> ops_timed D now ops)"

lemma map_of_filter_distinct:
  "distinct (map fst xs) \<Longrightarrow>
   map_of (filter (\<lambda>(k, e). P e) xs) k = (case map_of xs k of Some e \<Rightarrow> if P e then Some e else None | None \<Rightarrow> None)"
proof (induction xs)
  case (Cons x xs)
  obtain k' e' where x: "x = (k', e')" by force
  show ?case
  proof (cases "k' = k")
    case True
    then have "map_of xs k = None" using Cons.prems by (simp add: x map_of_eq_None_iff)
    then show ?thesis using Cons True by (simp add: x)
  qed (use Cons in \<open>simp add: x\<close>)
qed simp

text \<open>The limiter with the janitor against the one without, at time \<open>c\<close>.\<close>

definition janitor_sim :: "'l rate_lib \<Rightarrow> real \<Rightarrow> int \<Rightarrow> int \<Rightarrow> int \<Rightarrow> 'l mem_limiter \<Rightarrow> 'l mem_limiter \<Rightarrow> bool" where
  "janitor_sim L r b D c m1 m2 \<longleftrightarrow>
     rps m1 = r \<and> burst m1 = b \<and> rps m2 = r \<and> burst m2 = b \<and> distinct (map fst (buckets m1)) \<and>
     (\<forall>k e. map_of (buckets m2) k = Some e \<longrightarrow>
        (\<exists>t. lim_state L r b (lim e) t \<and> t + D \<le> last_seen e + 600000000000 \<and> t \<le> c)) \<and>
     (\<forall>k. map_of (buckets m1) k = map_of (buckets m2) k \<or>
        map_of (buckets m1) k = None \<and>
        (\<exists>e. map_of (buckets m2) k = Some e \<and> last_seen e + 600000000000 < c))"

lemma janitor_sim_tick:
  assumes "janitor_sim L r b D c m1 m2" and "c \<le> now"
  shows "janitor_sim L r b D now (janitor now m1) m2"
proof -
  have d: "distinct (map fst (buckets m1))" using assms(1) by (simp add: janitor_sim_def)
  have "distinct (map fst (filter (\<lambda>(k, e). \<not> last_seen e < now - 600000000000) (buckets m1)))"
    using d by (rule distinct_map_filter)
  moreover have "map_of (buckets (janitor now m1)) k =
      (case map_of (buckets m1) k of Some e \<Rightarrow> if \<not> last_seen e < now - 600000000000 then Some e else None | None \<Rightarrow> None)" for k
    unfolding janitor_def using map_of_filter_distinct [OF d, of "\<lambda>e. \<not> last_seen e < now - 600000000000"] by simp
  ultimately show ?thesis
    using assms unfolding janitor_sim_def
    by (simp add: janitor_def [of now m1]) (smt (verit) option.case_eq_if option.collapse option.sel)
qed

lemma janitor_sim_allow:
  assumes sim: "janitor_sim L r b D c m1 m2" and ref: "refills L r b D"
    and t: "c \<le> t1" "t1 \<le> t2" "t2 + D \<le> t1 + 600000000000"
    and a1: "Memory_Allow L m1 k (t1, t2) = (m1', ok1)" and a2: "Memory_Allow L m2 k (t1, t2) = (m2', ok2)"
  shows "ok1 = ok2 \<and> janitor_sim L r b D t2 m1' m2'"
proof -
  let ?l = "\<lambda>m. case map_of (buckets m) k of Some e \<Rightarrow> lim e | None \<Rightarrow> NewLimiter L (rps m) (burst m)"
  have params: "rps m1 = r" "burst m1 = b" "rps m2 = r" "burst m2 = b" using sim by (simp_all add: janitor_sim_def)
  have rel: "map_of (buckets m1) k' = map_of (buckets m2) k' \<or> map_of (buckets m1) k' = None \<and>
        (\<exists>e. map_of (buckets m2) k' = Some e \<and> last_seen e + 600000000000 < c)" for k'
    using sim by (simp add: janitor_sim_def)
  have used: "\<exists>t. lim_state L r b (lim e) t \<and> t + D \<le> last_seen e + 600000000000 \<and> t \<le> c"
    if "map_of (buckets m2) k = Some e" for e
    using sim that by (simp add: janitor_sim_def)
  have same: "lim_Allow L (?l m1) t2 = lim_Allow L (?l m2) t2"
    using rel [of k]
  proof
    assume "map_of (buckets m1) k = None \<and> (\<exists>e. map_of (buckets m2) k = Some e \<and> last_seen e + 600000000000 < c)"
    then obtain e where e: "map_of (buckets m1) k = None" "map_of (buckets m2) k = Some e" "last_seen e + 600000000000 < c"
      by blast
    obtain t where "lim_state L r b (lim e) t" "t + D \<le> last_seen e + 600000000000" using used [OF e(2)] by blast
    then have "lim_Allow L (lim e) t2 = lim_Allow L (NewLimiter L r b) t2"
      using ref e(3) t unfolding refills_def by (meson le_less_trans less_imp_le order_trans)
    then show ?thesis using e params by simp
  qed (simp add: params split: option.split)
  have st: "lim_state L r b (fst (lim_Allow L (?l m2) t2)) t2"
    using used t lim_state.again [of L r b _ _ t2] lim_state.first params by (auto split: option.split)
  have out: "buckets m1' = AList.update k \<lparr>lim = fst (lim_Allow L (?l m2) t2), last_seen = t1\<rparr> (buckets m1)"
    "buckets m2' = AList.update k \<lparr>lim = fst (lim_Allow L (?l m2) t2), last_seen = t1\<rparr> (buckets m2)"
    "rps m1' = r" "burst m1' = b" "rps m2' = r" "burst m2' = b" "ok1 = ok2"
    using a1 a2 same params by (auto simp: Memory_Allow_def Let_def split: prod.splits)
  have "\<exists>t. lim_state L r b (lim e) t \<and> t + D \<le> last_seen e + 600000000000 \<and> t \<le> t2"
    if "map_of (buckets m2') k' = Some e" for k' e
  proof (cases "k' = k")
    case True
    then show ?thesis using that st t by (auto simp: out(2) update_conv')
  next
    case False
    then have "map_of (buckets m2) k' = Some e" using that by (simp add: out(2) update_conv')
    then show ?thesis using sim t unfolding janitor_sim_def by (meson order_trans)
  qed
  moreover have "map_of (buckets m1') k' = map_of (buckets m2') k' \<or> map_of (buckets m1') k' = None \<and>
      (\<exists>e. map_of (buckets m2') k' = Some e \<and> last_seen e + 600000000000 < t2)" for k'
  proof (cases "k' = k")
    case False
    then have "map_of (buckets m1') k' = map_of (buckets m1) k'" "map_of (buckets m2') k' = map_of (buckets m2) k'"
      by (simp_all add: out(1,2) update_conv')
    then show ?thesis using rel [of k'] t by auto
  qed (simp add: out(1,2) update_conv')
  moreover have "distinct (map fst (buckets m1'))"
    using sim by (simp add: out(1) janitor_sim_def distinct_update)
  ultimately show ?thesis using out(3-7) by (simp add: janitor_sim_def)
qed

lemma janitor_sim_run:
  assumes "refills L r b D"
  shows "janitor_sim L r b D c m1 m2 \<Longrightarrow> ops_timed D c ops \<Longrightarrow>
    lim_run L m1 ops = lim_run L m2 (filter is_allow ops)"
proof (induction ops arbitrary: c m1 m2)
  case (Cons op ops)
  show ?case
  proof (cases op)
    case (LimAllow k t1 t2)
    obtain m1' ok1 m2' ok2 where a: "Memory_Allow L m1 k (t1, t2) = (m1', ok1)" "Memory_Allow L m2 k (t1, t2) = (m2', ok2)"
      by force
    have "ok1 = ok2 \<and> janitor_sim L r b D t2 m1' m2'"
      using Cons.prems LimAllow by (intro janitor_sim_allow [OF Cons.prems(1) assms _ _ _ a]) simp_all
    then show ?thesis using Cons.IH [of t2 m1' m2'] Cons.prems(2) a LimAllow by simp
  next
    case (LimTick now)
    then show ?thesis
      using Cons.IH [of now "janitor now m1" m2] Cons.prems janitor_sim_tick [OF Cons.prems(1)] by simp
  qed
qed simp

section \<open>Properties\<close>

text \<open>
  C26. The Redis limit is exact in its window: however the calls of other keys are interleaved, and
  however many instances make them, the calls of one key that fall in the same second (and that
  the server sees within the 1999 ms life of the counter) are answered yes for the first
  \<open>limit\<close> and no for all later ones. A counter left over from the same second of an earlier day
  does no harm once it has expired.
\<close>

theorem redis_window_limit:
  assumes "filter (\<lambda>(k, i). k = key) calls = map (\<lambda>(ms, now). (key, ms, RedisOk now)) xs"
    and "\<forall>(ms, now) \<in> set xs. second_of_day ms = second_of_day start \<and> T \<le> now \<and> now < T + 1999"
    and "\<And>c. map_of rd (windowKey key start) = Some c \<Longrightarrow> expires c \<le> T"
  shows "answers_for key (allow_run (Redis_Allow limit) rd calls) = map (\<lambda>j. int j < limit) [0..<length xs]"
proof -
  have "answers_for key (allow_run (Redis_Allow limit) rd calls) =
      answers_for key (allow_run (Redis_Allow limit) rd (filter (\<lambda>(k, i). k = key) calls))"
    by (rule redis_lim.isolation) (rule refl)
  also have "\<dots> = map (\<lambda>j. int j < limit) [0..<length xs]"
    unfolding assms(1) by (rule window_run [OF assms(2) refl assms(3)])
  finally show ?thesis .
qed

theorem redis_window_limit_witness:
  "answers_for ''a'' (allow_run (Redis_Allow 1) []
     [(''a'', 5000, RedisOk 0), (''b'', 5100, RedisOk 100), (''a'', 5900, RedisOk 900)]) = [True, False]"
proof -
  have "answers_for ''a'' (allow_run (Redis_Allow 1) []
       [(''a'', 5000, RedisOk 0), (''b'', 5100, RedisOk 100), (''a'', 5900, RedisOk 900)]) =
      map (\<lambda>j. int j < 1) [0..<length [(5000 :: int, 0 :: int), (5900, 900)]]"
    by (rule redis_window_limit [where T = 0 and start = 5000]) (simp_all add: second_of_day_def)
  then show ?thesis by (simp add: upt_conv_Cons)
qed

text \<open>
  C28. No client can use up another's allowance: in both limiters the answers to the calls of one key
  are those it would get if it were alone.
\<close>

theorem limiters_isolate_keys:
  "answers_for key (allow_run (Memory_Allow L) m calls) =
     answers_for key (allow_run (Memory_Allow L) m (filter (\<lambda>(k, i). k = key) calls)) \<and>
   answers_for key (allow_run (Redis_Allow limit) rd rcalls) =
     answers_for key (allow_run (Redis_Allow limit) rd (filter (\<lambda>(k, i). k = key) rcalls))"
  using mem_lim.isolation [OF refl] redis_lim.isolation [OF refl] by blast


text \<open>A bucket that refills at once after a second, as burst, tokens left and last use.\<close>

definition demo_rate :: "(int \<times> int \<times> int option) rate_lib" where
  "demo_rate = \<lparr>NewLimiter = (\<lambda>r b. (b, b, None)),
     lim_Allow = (\<lambda>(b, n, last) t.
       let n' = (case last of Some u \<Rightarrow> if t < u + 1000000000 then n else b | None \<Rightarrow> b)
       in if 0 < n' then ((b, n' - 1, Some t), True) else ((b, n', Some t), False))\<rparr>"

lemma demo_rate_state: "lim_state demo_rate r b l t \<Longrightarrow> fst l = b \<and> snd (snd l) = Some t"
proof (induction rule: lim_state.induct)
  case (first t)
  show ?case by (simp add: demo_rate_def Let_def)
next
  case (again l t t')
  then show ?case by (cases l) (auto simp: demo_rate_def Let_def)
qed

lemma refills_demo: "refills demo_rate r b 1000000000"
  unfolding refills_def
proof (intro allI impI, elim conjE)
  fix l t t' assume "lim_state demo_rate r b l t" and le: "t + 1000000000 \<le> (t' :: int)"
  then obtain n where l: "l = (b, n, Some t)" using demo_rate_state [of r b l t] by (cases l) auto
  show "lim_Allow demo_rate l t' = lim_Allow demo_rate (NewLimiter demo_rate r b) t'"
    using le by (simp add: l demo_rate_def)
qed


text \<open>
  C29. The identity of a client does not depend on its port: an API key is used as it is; without
  one, an address of the form host:port or [host]:port gives the host, so that all connections of
  a host share one allowance, for IPv4 and IPv6 alike.
\<close>

theorem ClientKey_identity:
  assumes "CHR ''['' \<notin> set (host @ port)" and "CHR '']'' \<notin> set (host @ port)" and "CHR '':'' \<notin> set port"
    and "RemoteAddr r = (if CHR '':'' \<in> set host then ''['' @ host @ '']:'' @ port else host @ '':'' @ port)"
  shows "ClientKey r =
    (if values_Get (Header r) ''X-Api-Key'' = [] then host else values_Get (Header r) ''X-Api-Key'')"
  using SplitHostPort_plain [of host port] SplitHostPort_bracketed [of host port] assms
  by (auto simp: ClientKey_def Let_def)

theorem ClientKey_identity_witness:
  "ClientKey \<lparr>Header = [], RemoteAddr = ''[::1]:4711'', Query = [], Body = []\<rparr> = ''::1''"
  using ClientKey_identity [of "''::1''" "''4711''" "\<lparr>Header = [], RemoteAddr = ''[::1]:4711'', Query = [], Body = []\<rparr>"]
  by (simp add: values_Get_def)

end
