(* ===== verification/Float64.thy ===== *)
theory Float64
  imports Prelude
begin

text \<open>
  The part of Go's \<^verbatim>\<open>float64\<close> arithmetic that \<^verbatim>\<open>Sketch.Estimate\<close> uses:
  every operation returns its exact result rounded to 53 significant bits, to nearest with ties
  to even (IEEE 754 binary64, without the subnormal and overflow ranges, which the estimator's
  values do not reach), and a division by zero gives an infinity instead of a panic.
\<close>

section \<open>Rounding\<close>

definition round_half_even :: "real \<Rightarrow> int" where
  "round_half_even y =
     (let n = \<lfloor>y\<rfloor>; frac = y - of_int n
      in if frac < 1 / 2 then n else if frac > 1 / 2 then n + 1 else if even n then n else n + 1)"

definition ulp64 :: "real \<Rightarrow> real" where
  "ulp64 x = 2 powr (of_int \<lfloor>log 2 \<bar>x\<bar>\<rfloor> - 52)"

definition round64 :: "real \<Rightarrow> real" where
  "round64 x = (if x = 0 then 0 else of_int (round_half_even (x / ulp64 x)) * ulp64 x)"

lemma round_half_even_of_int [simp]: "round_half_even (of_int k) = k"
  by (simp add: round_half_even_def)

lemma round_half_even_error: "\<bar>of_int (round_half_even y) - y\<bar> \<le> 1 / 2"
  unfolding round_half_even_def Let_def by (auto simp: abs_if) linarith+

lemma ulp64_pos [simp]: "0 < ulp64 x"
  by (simp add: ulp64_def)

lemma ulp64_le: "x \<noteq> 0 \<Longrightarrow> ulp64 x \<le> \<bar>x\<bar> * 2 powr (-52)"
proof -
  assume "x \<noteq> 0"
  have "2 powr (of_int \<lfloor>log 2 \<bar>x\<bar>\<rfloor>) \<le> 2 powr (log 2 \<bar>x\<bar>)"
    by (intro powr_mono of_int_floor_le) simp
  also have "\<dots> = \<bar>x\<bar>" using \<open>x \<noteq> 0\<close> by simp
  finally show ?thesis by (simp add: ulp64_def powr_diff powr_minus_divide)
qed

lemma round64_error: "\<bar>round64 x - x\<bar> \<le> \<bar>x\<bar> * 2 powr (-53)"
proof (cases "x = 0")
  case False
  let ?u = "ulp64 x" and ?k = "of_int (round_half_even (x / ulp64 x)) :: real"
  have "round64 x - x = (?k - x / ?u) * ?u"
    using False by (simp add: round64_def left_diff_distrib less_imp_neq [OF ulp64_pos, symmetric])
  then have "\<bar>round64 x - x\<bar> = \<bar>?k - x / ?u\<bar> * ?u" by (simp add: abs_mult less_imp_le)
  also have "\<dots> \<le> 1 / 2 * (\<bar>x\<bar> * 2 powr (-52))"
    using round_half_even_error [of "x / ?u"] ulp64_le [OF False]
    by (intro mult_mono) (simp_all add: less_imp_le)
  also have "\<dots> = \<bar>x\<bar> * 2 powr (-53)"
    using powr_add [of "2::real" "-53" 1] by simp
  finally show ?thesis .
qed (simp add: round64_def)

text \<open>A number with at most 53 significant bits is represented exactly.\<close>

lemma round64_exact:
  assumes "\<bar>k\<bar> \<le> 2 ^ 53"
  shows "round64 (of_int k * 2 powr of_int j) = of_int k * 2 powr of_int j"
proof (cases "k = 0")
  case True
  then show ?thesis by (simp add: round64_def)
next
  case False
  let ?x = "of_int k * 2 powr of_int j :: real"
  let ?e = "\<lfloor>log 2 \<bar>?x\<bar>\<rfloor>"
  have x: "\<bar>?x\<bar> = of_int \<bar>k\<bar> * 2 powr of_int j" by (simp add: abs_mult)
  have "of_int \<bar>k\<bar> \<le> (of_int (2 ^ 53) :: real)" using assms by (simp only: of_int_le_iff)
  then have "of_int \<bar>k\<bar> * 2 powr of_int j \<le> (2 powr 53 :: real) * 2 powr of_int j"
    by (intro mult_right_mono) (simp_all add: powr_numeral)
  then have le: "\<bar>?x\<bar> \<le> 2 powr (53 + of_int j)" unfolding x by (simp add: powr_add)
  then have "log 2 \<bar>?x\<bar> \<le> 53 + of_int j"
    using False by (simp add: le_log_iff log_le_iff)
  then have e: "?e \<le> 53 + j" by linarith
  have q: "?x / ulp64 ?x = of_int k * 2 powr (of_int (j - (?e - 52)))"
    by (simp add: ulp64_def powr_diff)
  have "\<exists>i. ?x / ulp64 ?x = of_int i"
  proof (cases "?e = 53 + j")
    case True
    then have "53 + of_int j \<le> log 2 \<bar>?x\<bar>" using of_int_floor_le [of "log 2 \<bar>?x\<bar>"] by simp
    then have "2 powr (53 + of_int j) \<le> \<bar>?x\<bar>"
      using \<open>k \<noteq> 0\<close> by (subst (asm) le_log_iff) simp_all
    then have "of_int (2 ^ 53) \<le> (of_int \<bar>k\<bar> :: real)"
      unfolding x by (simp add: powr_add powr_numeral)
    then have "\<bar>k\<bar> = 2 ^ 53" using assms by linarith
    then have "k = 2 ^ 53 \<or> k = - (2 ^ 53)" by linarith
    then show ?thesis unfolding q True
      by (auto simp: powr_minus_divide intro: exI [of _ "2 ^ 52"] exI [of _ "- (2 ^ 52)"])
  next
    case False
    with e have n: "0 \<le> j - (?e - 52)" by simp
    have "?x / ulp64 ?x = of_int (k * 2 ^ nat (j - (?e - 52)))"
      unfolding q using n by (simp add: powr_real_of_int del: of_int_diff)
    then show ?thesis by blast
  qed
  then obtain i where "?x / ulp64 ?x = of_int i" by blast
  then have "round64 ?x = (?x / ulp64 ?x) * ulp64 ?x" using False by (simp add: round64_def)
  then show ?thesis by (simp add: less_imp_neq [OF ulp64_pos, symmetric])
qed

lemma round64_of_nat: "n \<le> 2 ^ 53 \<Longrightarrow> round64 (of_nat n) = of_nat n"
  using round64_exact [of "int n" 0] by simp

end
