(* ===== verification/HllEstimate.thy ===== *)
theory HllEstimate
  imports Hll Float64
begin

text \<open>
  \<^verbatim>\<open>Sketch.Estimate\<close> of \<^verbatim>\<open>src/internal/hll/hll.go\<close>, in the rounded arithmetic
  of theory Float64. The library logarithm, and the implementation-defined result of converting a
  float to \<^verbatim>\<open>uint64\<close> out of range, are fields of \<open>go_impl\<close>.
\<close>

section \<open>Floats that occur\<close>

text \<open>The estimator computes with non-negative numbers and, for a corrupt register, \<open>+Inf\<close>.\<close>

datatype float64 = Fin real | PInf

fun fl_add :: "float64 \<Rightarrow> float64 \<Rightarrow> float64" where
  "fl_add (Fin a) (Fin b) = Fin (round64 (a + b))"
| "fl_add _ _ = PInf"

text \<open>Division of a positive number.\<close>

fun fl_div :: "real \<Rightarrow> float64 \<Rightarrow> float64" where
  "fl_div a (Fin b) = (if b = 0 then PInf else Fin (round64 (a / b)))"
| "fl_div a PInf = Fin 0"

fun fl_le :: "float64 \<Rightarrow> real \<Rightarrow> bool" where
  "fl_le (Fin a) b = (a \<le> b)"
| "fl_le PInf b = False"

record go_impl =
  math_log :: "real \<Rightarrow> real"
  conv_oob :: "float64 \<Rightarrow> uint64"

fun to_uint64 :: "go_impl \<Rightarrow> float64 \<Rightarrow> uint64" where
  "to_uint64 I (Fin x) = (if 0 \<le> x \<and> x < 2 ^ 64 then of_int \<lfloor>x\<rfloor> else conv_oob I (Fin x))"
| "to_uint64 I PInf = conv_oob I PInf"

section \<open>Estimate\<close>

definition reg_weight :: "byte \<Rightarrow> float64" where
  "reg_weight r = fl_div 1 (Fin (real (unat (push_bit (unat r) (1 :: uint64)))))"

definition est_step :: "float64 \<times> nat \<Rightarrow> byte \<Rightarrow> float64 \<times> nat" where
  "est_step = (\<lambda>(tot, zeros) r. (fl_add tot (reg_weight r), if r = 0 then zeros + 1 else zeros))"

definition alpha :: real where
  "alpha = round64 (round64 0.7213 / round64 (1 + round64 (round64 1.079 / real hll_m)))"

definition raw_estimate :: "float64 \<Rightarrow> float64" where
  "raw_estimate tot = fl_div (round64 (round64 (alpha * real hll_m) * real hll_m)) tot"

definition Estimate :: "go_impl \<Rightarrow> sketch \<Rightarrow> uint64" where
  "Estimate I s =
     (let (tot, zeros) = foldl est_step (Fin 0, 0) (regs s);
          e = raw_estimate tot;
          e = (if fl_le e (2.5 * real hll_m) \<and> zeros > 0
               then Fin (round64 (real hll_m * math_log I (round64 (real hll_m / real zeros))))
               else e)
      in to_uint64 I (fl_add e (Fin 0.5)))"

section \<open>The constants\<close>

lemma hll_m_16384: "hll_m = 16384"
  by (simp add: hll_m_def Precision_def)

lemma round64_near:
  assumes "0 < x"
  shows "x * (1 - 1 / 1000000) \<le> round64 x" and "round64 x \<le> x * (1 + 1 / 1000000)"
proof -
  have p: "(2::real) powr (-53) \<le> 1 / 1000000"
    by (simp add: powr_minus_divide powr_numeral)
  have "\<bar>round64 x - x\<bar> \<le> \<bar>x\<bar> * 2 powr (-53)" by (rule round64_error)
  also have "\<dots> \<le> x * (1 / 1000000)"
    using assms mult_left_mono [OF p, of x] by simp
  finally have "\<bar>round64 x - x\<bar> \<le> x * (1 / 1000000)" .
  then show "x * (1 - 1 / 1000000) \<le> round64 x" and "round64 x \<le> x * (1 + 1 / 1000000)"
    unfolding abs_le_iff by (simp_all add: algebra_simps)
qed

lemma alpha_bounds: "0.721 \<le> alpha" "alpha \<le> 0.722"
proof -
  define c1 where "c1 = round64 0.7213"
  define c2 where "c2 = round64 1.079"
  define c3 where "c3 = round64 (c2 / 16384)"
  define c4 where "c4 = round64 (1 + c3)"
  define q where "q = c1 / c4"
  have c1: "0.7212 \<le> c1" "c1 \<le> 0.7214" using round64_near [of "0.7213"] by (simp_all add: c1_def)
  have c2: "1.078 \<le> c2" "c2 \<le> 1.08" using round64_near [of "1.079"] by (simp_all add: c2_def)
  have c3: "0 \<le> c3" "c3 \<le> 0.0001"
    using c2 round64_near [of "c2 / 16384"] by (simp_all add: c3_def)
  have c4: "0.99999 \<le> c4" "c4 \<le> 1.00011"
    using c3 round64_near [of "1 + c3"] by (simp_all add: c4_def)
  have q: "0.7211 \<le> q" "q \<le> 0.7215"
    using c1 c4 by (simp_all add: q_def pos_le_divide_eq pos_divide_le_eq)
  have "alpha = round64 q"
    by (simp add: alpha_def hll_m_16384 q_def c1_def c2_def c3_def c4_def)
  with q round64_near [of q] show "0.721 \<le> alpha" "alpha \<le> 0.722" by simp_all
qed

text \<open>Scaling by a power of two loses nothing.\<close>

lemma raw_numerator_bounds:
  "0.72 * 2 ^ 28 \<le> round64 (round64 (alpha * real hll_m) * real hll_m)"
  "round64 (round64 (alpha * real hll_m) * real hll_m) \<le> 0.723 * 2 ^ 28"
proof -
  let ?a = "round64 (alpha * 16384)"
  have a: "0.7209 * 16384 \<le> ?a" "?a \<le> 0.7221 * 16384"
    using alpha_bounds round64_near [of "alpha * 16384"] by simp_all
  then show "0.72 * 2 ^ 28 \<le> round64 (round64 (alpha * real hll_m) * real hll_m)"
    "round64 (round64 (alpha * real hll_m) * real hll_m) \<le> 0.723 * 2 ^ 28"
    using round64_near [of "?a * 16384"] by (simp_all add: hll_m_16384)
qed

section \<open>Sketches with equal registers\<close>

lemma unat_push_bit_one:
  assumes "n < 64"
  shows "unat (push_bit n (1 :: uint64)) = 2 ^ n"
proof -
  have "unat (push_bit n (1 :: uint64)) = take_bit 64 (push_bit n (1 :: nat))"
    by (simp only: unsigned_push_bit_eq unsigned_1) simp
  also have "\<dots> = 2 ^ n mod 2 ^ 64" by (simp add: push_bit_eq_mult take_bit_eq_mod)
  also have "\<dots> = 2 ^ n" using assms by (intro mod_less power_strict_increasing) simp_all
  finally show ?thesis .
qed

lemma reg_weight_eq:
  assumes "unat r < 64"
  shows "reg_weight r = Fin (2 powr (- real (unat r)))"
proof -
  have "reg_weight r = Fin (round64 (1 / 2 ^ unat r))"
    unfolding reg_weight_def unat_push_bit_one [OF assms] by simp
  also have "(1 / 2 ^ unat r :: real) = of_int 1 * 2 powr of_int (- int (unat r))"
    using powr_realpow [of 2 "unat r"] by (simp add: powr_minus_divide)
  finally show ?thesis using round64_exact [of 1 "- int (unat r)"] by simp
qed

lemma est_sum_replicate:
  assumes "unat r < 64" and "k + n \<le> 2 ^ 53"
  shows "foldl est_step (Fin (real k * 2 powr (- real (unat r))), z) (replicate n r) =
    (Fin (real (k + n) * 2 powr (- real (unat r))), if r = 0 then z + n else z)"
  using assms(2)
proof (induction n arbitrary: k z)
  case 0
  then show ?case by simp
next
  case (Suc n)
  let ?w = "2 powr (- real (unat r))"
  have "real k * ?w + ?w = of_int (int (k + 1)) * 2 powr of_int (- int (unat r))"
    by (simp add: algebra_simps)
  moreover have "round64 (of_int (int (k + 1)) * 2 powr of_int (- int (unat r))) =
      of_int (int (k + 1)) * 2 powr of_int (- int (unat r))"
  proof (intro round64_exact)
    have "int (k + 1) \<le> int (2 ^ 53)" using Suc.prems by (simp only: of_nat_le_iff)
    then show "\<bar>int (k + 1)\<bar> \<le> 2 ^ 53" by simp
  qed
  ultimately have "fl_add (Fin (real k * ?w)) (reg_weight r) = Fin (real (k + 1) * ?w)"
    by (simp add: reg_weight_eq [OF assms(1)])
  then show ?case
    using Suc.IH [of "k + 1" "if r = 0 then z + 1 else z"] Suc.prems
    by (simp add: est_step_def)
qed

section \<open>Properties\<close>

text \<open>A new sketch is estimated at exactly zero distinct values.\<close>

lemma Estimate_New:
  assumes "math_log I 1 = 0"
  shows "Estimate I New = 0"
proof -
  have sum: "foldl est_step (Fin 0, 0) (regs New) = (Fin 16384, 16384)"
    using est_sum_replicate [of 0 0 16384 0] by (simp add: New_def hll_m_16384)
  have "fl_le (raw_estimate (Fin 16384)) 40960"
    using raw_numerator_bounds(2) round64_near [of "round64 (round64 (alpha * real hll_m) * real hll_m) / 16384"]
      raw_numerator_bounds(1)
    by (simp add: raw_estimate_def)
  moreover have "round64 1 = 1" using round64_of_nat [of 1] by simp
  ultimately have "Estimate I New = to_uint64 I (Fin (round64 (1 / 2)))"
    using sum assms by (simp add: Estimate_def hll_m_16384 round64_def [of 0])
  also have "round64 (1 / 2) = (1 / 2 :: real)"
    using round64_exact [of 1 "-1"] by (simp add: powr_minus_divide)
  finally show ?thesis by simp
qed


end
