(* ===== verification/StoreQueries.thy ===== *)
theory StoreQueries
  imports Store HllEstimate
begin

text \<open>
  The read side of \<^verbatim>\<open>src/internal/store/store.go\<close>: counts, totals and the per-minute
  series from the rollup table, and unique-user estimates from the sketch table.

  Instants are microseconds since the epoch, \<open>now\<close> is the server's clock and \<open>tz\<close> the
  offset of the session's time zone from UTC, which \<^verbatim>\<open>date_trunc('day', now())\<close> and
  \<^verbatim>\<open>current_date\<close> depend on. Round trip 0 of a query is the statement itself, round
  trip 1 the reading of its rows (\<^verbatim>\<open>rows.Err\<close>).
\<close>

section \<open>Data\<close>

record NameCount =
  nc_name :: string
  nc_count :: int

record MinutePoint =
  mp_name :: string
  mp_minute :: int
  mp_count :: int

section \<open>Dates of the session\<close>

definition day_us :: int where
  "day_us = 86400000000"

definition day_start :: "int \<Rightarrow> int \<Rightarrow> int" where
  "day_start tz now = now - (now + tz) mod day_us"

definition current_date :: "int \<Rightarrow> int \<Rightarrow> int" where
  "current_date tz now = (now + tz) div day_us"

section \<open>Queries\<close>

definition CountToday :: "faults \<Rightarrow> int \<Rightarrow> int \<Rightarrow> db \<Rightarrow> string \<Rightarrow> go_error + int" where
  "CountToday f tz now d name =
     err_bind (round_trip f 0) (\<lambda>_.
     Inr (sum_list (map snd
       (filter (\<lambda>(k, n). fst k = name \<and> day_start tz now \<le> snd k) (counts_minute d)))))"

text \<open>
  \<^verbatim>\<open>GROUP BY name ORDER BY 2 DESC LIMIT 20\<close>; names with equal sums come in any order,
  which \<open>tie\<close> stands for.
\<close>

definition totals_by_name :: "int \<Rightarrow> (minute_key \<times> int) list \<Rightarrow> NameCount list" where
  "totals_by_name from tbl =
     (let rows = filter (\<lambda>(k, n). from \<le> snd k) tbl in
      map (\<lambda>name. \<lparr>nc_name = name,
                     nc_count = sum_list (map snd (filter (\<lambda>(k, n). fst k = name) rows))\<rparr>)
        (remdups (map (fst \<circ> fst) rows)))"

definition TotalsToday :: "(string \<Rightarrow> nat) \<Rightarrow> faults \<Rightarrow> int \<Rightarrow> int \<Rightarrow> db \<Rightarrow> go_error + NameCount list" where
  "TotalsToday tie f tz now d =
     err_bind (round_trip f 0) (\<lambda>_.
     err_bind (round_trip f 1) (\<lambda>_.
     Inr (take 20 (sort_key (\<lambda>nc. (- nc_count nc, tie (nc_name nc)))
                     (totals_by_name (day_start tz now) (counts_minute d))))))"

text \<open>\<open>window\<close> is a duration in nanoseconds, passed to SQL as whole minutes.\<close>

definition Series :: "faults \<Rightarrow> int \<Rightarrow> int \<Rightarrow> db \<Rightarrow> go_error + MinutePoint list" where
  "Series f window now d =
     err_bind (round_trip f 0) (\<lambda>_.
     err_bind (round_trip f 1) (\<lambda>_.
     Inr (map (\<lambda>((name, minute), n). \<lparr>mp_name = name, mp_minute = minute, mp_count = n\<rparr>)
            (sort_key (\<lambda>((name, minute), n). (minute, name))
              (filter (\<lambda>(k, n). minute_of now - (window div 60000000000) * 60000000 \<le> snd k)
                (counts_minute d))))))"

definition UniquesToday :: "go_impl \<Rightarrow> faults \<Rightarrow> int \<Rightarrow> int \<Rightarrow> db \<Rightarrow> string \<Rightarrow> go_error + uint64" where
  "UniquesToday I f tz now d name =
     err_bind (round_trip f 0) (\<lambda>_.
     case map_of (uniques_day d) (name, current_date tz now) of
       None \<Rightarrow> Inr 0
     | Some raw \<Rightarrow> err_bind (FromBytes raw) (\<lambda>sk. Inr (Estimate I sk)))"

text \<open>
  The rows of \<^verbatim>\<open>UniquesTodayAll\<close>, in the order the statement returns them; the estimate
  is converted to \<^verbatim>\<open>int64\<close>.
\<close>

fun scan_uniques :: "go_impl \<Rightarrow> int \<Rightarrow> (uniqueKey \<times> byte list) list \<Rightarrow> go_error + NameCount list" where
  "scan_uniques I day [] = Inr []"
| "scan_uniques I day ((k, raw) # rows) =
     (case FromBytes raw of
        Inl _ \<Rightarrow> Inl (ErrCorrupt (fst k) day)
      | Inr sk \<Rightarrow> err_bind (scan_uniques I day rows)
          (\<lambda>out. Inr (\<lparr>nc_name = fst k, nc_count = sint (Estimate I sk)\<rparr> # out)))"

definition UniquesTodayAll :: "go_impl \<Rightarrow> faults \<Rightarrow> int \<Rightarrow> int \<Rightarrow> db \<Rightarrow> go_error + NameCount list" where
  "UniquesTodayAll I f tz now d =
     err_bind (round_trip f 0) (\<lambda>_.
     err_bind (scan_uniques I (current_date tz now)
                 (filter (\<lambda>(k, raw). snd k = current_date tz now) (uniques_day d))) (\<lambda>out.
     err_bind (round_trip f 1) (\<lambda>_.
     Inr out)))"

section \<open>Sums over the rollup table\<close>

lemma sum_length_filter_key:
  assumes "finite K" and "f ` set rows \<subseteq> K"
  shows "(\<Sum>k \<in> {k \<in> K. P k}. int (length (filter (\<lambda>r. f r = k) rows))) =
    int (length (filter (\<lambda>r. P (f r)) rows))"
  using assms(2)
proof (induction rows)
  case (Cons r rows)
  have "(\<Sum>k \<in> {k \<in> K. P k}. int (length (filter (\<lambda>r. f r = k) (r # rows)))) =
      (\<Sum>k \<in> {k \<in> K. P k}. (if k = f r then 1 else 0) + int (length (filter (\<lambda>r. f r = k) rows)))"
    by (intro sum.cong) auto
  also have "\<dots> = (if P (f r) then 1 else 0) + int (length (filter (\<lambda>r. P (f r)) rows))"
    using Cons assms(1) by (simp add: sum.distrib)
  finally show ?case by simp
qed simp

lemma sum_list_table:
  assumes "distinct (map fst t)"
  shows "sum_list (map snd (filter (\<lambda>(k, n). P k) t)) =
    (\<Sum>k \<in> {k \<in> fst ` set t. P k}. (the (map_of t k) :: int))"
  using assms
proof (induction t)
  case (Cons x t)
  obtain k n where x: "x = (k, n)" by fastforce
  with Cons.prems have k: "k \<notin> fst ` set t" and t: "distinct (map fst t)" by auto
  have eq: "(\<Sum>k' \<in> {k' \<in> fst ` set t. P k'}. the (map_of (x # t) k')) =
      (\<Sum>k' \<in> {k' \<in> fst ` set t. P k'}. the (map_of t k'))"
    using k by (intro sum.cong) (auto simp: x)
  have split: "{k' \<in> fst ` set (x # t). P k'} =
      (if P k then insert k {k' \<in> fst ` set t. P k'} else {k' \<in> fst ` set t. P k'})"
    by (auto simp: x)
  show ?case
  proof (cases "P k")
    case True
    then show ?thesis using Cons.IH [OF t] k eq unfolding split by (simp add: x)
  next
    case False
    then show ?thesis using Cons.IH [OF t] eq unfolding split by (simp add: x)
  qed
qed simp

text \<open>A sum over rollup buckets counts the stored rows in those buckets.\<close>

lemma rollup_sum:
  assumes "tables_inv d"
  shows "sum_list (map snd (filter (\<lambda>(k, n). P k) (counts_minute d))) =
    int (length (filter (\<lambda>r. P (row_key r)) (events_tbl d)))"
proof -
  let ?K = "row_key ` set (events_tbl d)"
  have m: "map_of (counts_minute d) k = roll_spec (events_tbl d) k" for k
    using assms by (simp add: tables_inv_def del: split_paired_All)
  have dom: "fst ` set (counts_minute d) = ?K"
    using m by (metis (no_types, lifting) map_of_eq_None_iff option.distinct(1) roll_spec_def subsetI subset_antisym)
  have "(\<Sum>k \<in> {k \<in> ?K. P k}. the (map_of (counts_minute d) k)) =
      (\<Sum>k \<in> {k \<in> ?K. P k}. int (length (filter (\<lambda>r. row_key r = k) (events_tbl d))))"
    by (intro sum.cong) (auto simp: m roll_spec_def)
  then show ?thesis
    using assms sum_list_table [of "counts_minute d" P]
      sum_length_filter_key [of ?K row_key "events_tbl d" P]
    by (simp add: dom tables_inv_def)
qed

section \<open>Counts of today\<close>

lemma minute_of_ge_iff: "60000000 dvd b \<Longrightarrow> b \<le> minute_of t \<longleftrightarrow> b \<le> t"
proof -
  assume "60000000 dvd b"
  then obtain c where b: "b = 60000000 * c" by (rule dvdE)
  have "minute_of t = 60000000 * (t div 60000000)"
    by (simp add: minute_of_def minus_mod_eq_mult_div)
  moreover have "c \<le> t div 60000000 \<longleftrightarrow> 60000000 * c \<le> t"
    by linarith
  ultimately show ?thesis by (simp add: b)
qed

lemma day_start_dvd: "60000000 dvd tz \<Longrightarrow> 60000000 dvd day_start tz now"
proof -
  assume "60000000 dvd tz"
  moreover have "day_start tz now = day_us * ((now + tz) div day_us) - tz"
    by (simp add: day_start_def minus_mod_eq_mult_div [symmetric])
  moreover have "(60000000 :: int) dvd day_us" by (simp add: day_us_def)
  ultimately show ?thesis by (simp add: dvd_diff)
qed

text \<open>The rows a query about \<open>name\<close> today is about.\<close>

definition rows_today :: "int \<Rightarrow> int \<Rightarrow> db \<Rightarrow> string \<Rightarrow> row list" where
  "rows_today tz now d name =
     filter (\<lambda>r. row_name r = name \<and> day_start tz now \<le> row_ts r) (events_tbl d)"

lemma CountToday_rows:
  assumes "tables_inv d" and "60000000 dvd tz" and "CountToday f tz now d name = Inr n"
  shows "n = int (length (rows_today tz now d name))"
proof -
  have "n = sum_list (map snd
      (filter (\<lambda>(k, n). fst k = name \<and> day_start tz now \<le> snd k) (counts_minute d)))"
    using assms(3) by (auto simp: CountToday_def err_bind_eq_Inr)
  also have "\<dots> = int (length (filter
      (\<lambda>r. fst (row_key r) = name \<and> day_start tz now \<le> snd (row_key r)) (events_tbl d)))"
    by (rule rollup_sum [OF assms(1)])
  also have "\<dots> = int (length (rows_today tz now d name))"
    using minute_of_ge_iff [OF day_start_dvd [OF assms(2)]]
    by (simp add: rows_today_def row_key_def)
  finally show ?thesis .
qed

lemma filter_totals:
  "filter (\<lambda>(k, n). fst k = name) (filter (\<lambda>(k, n). from \<le> snd k) tbl) =
   filter (\<lambda>(k, n). fst k = name \<and> from \<le> snd k) tbl"
  by (auto simp: case_prod_beta intro: filter_cong)

lemma distinct_totals_by_name: "distinct (map nc_name (totals_by_name from tbl))"
  by (simp add: totals_by_name_def Let_def comp_def)

lemma totals_by_name_count:
  assumes "tables_inv d" and "60000000 dvd tz"
    and "nc \<in> set (totals_by_name (day_start tz now) (counts_minute d))"
  shows "nc_count nc = int (length (rows_today tz now d (nc_name nc)))"
proof -
  have "CountToday no_faults tz now d (nc_name nc) = Inr (nc_count nc)"
    using assms(3) by (auto simp: totals_by_name_def Let_def CountToday_def filter_totals
        simp del: filter_filter)
  then show ?thesis by (rule CountToday_rows [OF assms(1,2)])
qed

lemma totals_by_name_complete:
  assumes "tables_inv d" and "60000000 dvd tz" and "rows_today tz now d name \<noteq> []"
  shows "name \<in> nc_name ` set (totals_by_name (day_start tz now) (counts_minute d))"
proof (rule ccontr)
  let ?rows = "filter (\<lambda>(k, n). day_start tz now \<le> snd k) (counts_minute d)"
  assume "name \<notin> nc_name ` set (totals_by_name (day_start tz now) (counts_minute d))"
  then have "filter (\<lambda>(k, n). fst k = name) ?rows = []"
    by (force simp: totals_by_name_def Let_def filter_empty_conv)
  then have "CountToday no_faults tz now d name = Inr 0"
    by (simp add: CountToday_def filter_totals del: filter_filter)
  from CountToday_rows [OF assms(1,2) this] assms(3) show False by simp
qed

lemma take_sort_key_least:
  assumes "x \<in> set xs" and "x \<notin> set (take n (sort_key g xs))"
  shows "length (take n (sort_key g xs)) = n \<and> (\<forall>y \<in> set (take n (sort_key g xs)). g y \<le> g x)"
proof -
  let ?t = "take n (sort_key g xs)" and ?d = "drop n (sort_key g xs)"
  have "x \<in> set (?t @ ?d)" using assms(1) by simp
  then have x: "x \<in> set ?d" using assms(2) by (simp del: append_take_drop_id)
  have "sorted (map g (?t @ ?d))" by simp
  then have "\<forall>y \<in> set ?t. g y \<le> g x" using x by (simp add: sorted_append del: append_take_drop_id)
  moreover have "n < length (sort_key g xs)" using x by (metis drop_all empty_iff empty_set not_le)
  ultimately show ?thesis by simp
qed

lemma sum_list_map_sort_key:
  "sum_list (map f (sort_key g xs)) = (sum_list (map f xs) :: int)"
proof -
  have "sum_mset (mset (map f (sort_key g xs))) = sum_mset (mset (map f xs))" by simp
  then show ?thesis by (simp only: sum_mset_sum_list)
qed

lemma distinct_map_take_sort:
  assumes "distinct (map f xs)"
  shows "distinct (map f (take n (sort_key g xs)))"
proof -
  have "mset (map f (sort_key g xs)) = mset (map f xs)" by simp
  then have "distinct (map f (sort_key g xs))" using assms mset_eq_imp_distinct_iff by blast
  then show ?thesis by (metis distinct_take take_map)
qed

text \<open>
  Events that carry the same identifier have the same name and arrived on the same side of the start
  of today. Their time stamps may differ, since each copy is stamped when it arrives.
\<close>

definition consistent_ids :: "int \<Rightarrow> int \<Rightarrow> event list \<Rightarrow> bool" where
  "consistent_ids tz now es \<longleftrightarrow>
     (\<forall>e \<in> set es. \<forall>e' \<in> set es. EventID e = EventID e' \<longrightarrow>
        Name e = Name e' \<and> (day_start tz now \<le> TS e div 1000 \<longleftrightarrow> day_start tz now \<le> TS e' div 1000))"

lemma ids_rows_today:
  assumes "db_inv hist d" and "consistent_ids tz now hist"
  shows "ids_of (rows_today tz now d name) =
    EventID ` {e \<in> set hist. Name e = name \<and> day_start tz now \<le> TS e div 1000}"
proof (intro set_eqI iffI)
  fix i assume "i \<in> ids_of (rows_today tz now d name)"
  then obtain r where r: "r \<in> set (events_tbl d)" "row_name r = name"
    "day_start tz now \<le> row_ts r" "i = row_event_id r"
    by (auto simp: rows_today_def)
  then obtain e where "e \<in> set hist" "row_matches r e"
    using assms(1) by (auto simp: db_inv_def rows_inv_def)
  with r show "i \<in> EventID ` {e \<in> set hist. Name e = name \<and> day_start tz now \<le> TS e div 1000}"
    by (auto simp: row_matches_def)
next
  fix i assume "i \<in> EventID ` {e \<in> set hist. Name e = name \<and> day_start tz now \<le> TS e div 1000}"
  then obtain e where e: "e \<in> set hist" "Name e = name" "day_start tz now \<le> TS e div 1000"
    "i = EventID e" by auto
  then have "i \<in> stored_ids d" using db_inv_stored [OF assms(1)] by simp
  then obtain r where r: "r \<in> set (events_tbl d)" "row_event_id r = i" by (auto simp: stored_ids_def)
  then obtain e' where "e' \<in> set hist" "row_matches r e'"
    using assms(1) by (auto simp: db_inv_def rows_inv_def)
  with r e assms(2) have "row_name r = name" "day_start tz now \<le> row_ts r"
    unfolding consistent_ids_def row_matches_def by metis+
  with r show "i \<in> ids_of (rows_today tz now d name)" by (auto simp: rows_today_def)
qed

lemma CountToday_distinct_ids:
  assumes "db_inv hist d" and "consistent_ids tz now hist" and "60000000 dvd tz"
    and "CountToday f tz now d name = Inr n"
  shows "n = int (card (EventID ` {e \<in> set hist. Name e = name \<and> day_start tz now \<le> TS e div 1000}))"
proof -
  let ?rs = "rows_today tz now d name"
  have t: "tables_inv d" using assms(1) by (simp add: db_inv_def)
  then have "distinct (map row_event_id (events_tbl d))" by (simp add: tables_inv_def)
  then have "distinct (map row_event_id ?rs)" by (simp add: rows_today_def distinct_map_filter)
  then have "card (ids_of ?rs) = length ?rs" by (metis distinct_card length_map list.set_map)
  then show ?thesis
    using CountToday_rows [OF t assms(3,4)] ids_rows_today [OF assms(1,2), of name] by simp
qed

section \<open>Properties\<close>





text \<open>
  C32. The unique-user answer is the estimate for the set of users that the committed events of
  that name and day carry, and 0 when there is none: on a database the program wrote, no query
  meets a corrupt sketch.
\<close>

theorem UniquesToday_estimates_users:
  assumes "db_inv hist d"
  shows "UniquesToday I no_faults tz now d name =
    (let A = users hist (name, current_date tz now)
     in Inr (if A = {} then 0 else Estimate I (sketch_of A)))"
proof -
  have "map_of (uniques_day d) k = uniq_spec hist k" for k
    using assms by (simp add: db_inv_def uniq_inv_def del: split_paired_All)
  then show ?thesis
    by (simp add: UniquesToday_def uniq_spec_def FromBytes_Bytes sketch_ok_sketch_of)
qed

theorem UniquesToday_estimates_users_witness:
  "\<exists>d. fst (InsertBatch demo_env no_faults empty_db [demo_event]) = d \<and>
     UniquesToday \<lparr>math_log = ln, conv_oob = (\<lambda>_. 0)\<rparr> no_faults 0 2000000 d ''buy_click'' =
       Inr (Estimate \<lparr>math_log = ln, conv_oob = (\<lambda>_. 0)\<rparr> (sketch_of {''user_42''}))"
proof -
  obtain d n where ok: "InsertBatch demo_env no_faults empty_db [demo_event] = (d, Inr n)"
    using demo_insert by blast
  have inv: "db_inv [demo_event] d" using InsertBatch_Inr [OF db_inv_empty ok] by simp
  have "users [demo_event] (''buy_click'', current_date 0 2000000) = {''user_42''}"
    by (simp add: users_Cons demo_event_def unique_key_def utc_day_def current_date_def day_us_def)
  with UniquesToday_estimates_users [OF inv] ok show ?thesis by simp
qed





end
