(* ===== verification/Ingest.thy ===== *)
theory Ingest
  imports Metrics Ratelimit StoreQueries
begin

text \<open>
  The HTTP front door of \<^verbatim>\<open>src/internal/ingest/handler.go\<close>: every handler as a function
  from the request and the state of the server to the new state and the response. The queue and the
  limiter are those that \<^verbatim>\<open>main\<close> passes in; the decoder of the body is a parameter.
\<close>

section \<open>Requests and responses\<close>

record eventRequest =
  req_EventID :: string
  req_Name :: string
  req_DistinctID :: string
  req_Properties :: "props option"

datatype resp_body = TextBody string | JsonBody json

record http_response =
  status :: int
  resp_header :: "(string \<times> string) list"
  resp_body :: resp_body

text \<open>\<^verbatim>\<open>http.Error\<close> and \<^verbatim>\<open>writeJSON\<close>, on top of the headers already set.\<close>

definition http_Error :: "(string \<times> string) list \<Rightarrow> string \<Rightarrow> int \<Rightarrow> http_response" where
  "http_Error hs msg code =
     \<lparr>status = code,
      resp_header = hs @ [(''Content-Type'', ''text/plain; charset=utf-8''), (''X-Content-Type-Options'', ''nosniff'')],
      resp_body = TextBody (msg @ [CHR 0x0A])\<rparr>"

definition writeJSON :: "int \<Rightarrow> json \<Rightarrow> http_response" where
  "writeJSON code v =
     \<lparr>status = code, resp_header = [(''Content-Type'', ''application/json'')], resp_body = JsonBody v\<rparr>"

section \<open>The server\<close>

text \<open>No limiter is the nil interface.\<close>

record ('q, 'l) server =
  sv_queue :: 'q
  sv_limiter :: "'l option"
  sv_metrics :: metrics

type_synonym ('q) enqueue = "'q \<Rightarrow> event \<Rightarrow> 'q \<times> go_error option"
type_synonym ('l, 'i) allower = "'l \<Rightarrow> string \<Rightarrow> 'i \<Rightarrow> 'l \<times> bool"

definition ingest_New :: "'q \<Rightarrow> 'l option \<Rightarrow> metrics \<Rightarrow> ('q, 'l) server" where
  "ingest_New q l m = \<lparr>sv_queue = q, sv_limiter = l, sv_metrics = m\<rparr>"

text \<open>\<^verbatim>\<open>limiter != nil && !limiter.Allow(key)\<close>.\<close>

definition limited :: "('l, 'i) allower \<Rightarrow> ('q, 'l) server \<Rightarrow> string \<Rightarrow> 'i \<Rightarrow> ('q, 'l) server \<times> bool" where
  "limited allow s key i =
     (case sv_limiter s of
        None \<Rightarrow> (s, False)
      | Some l \<Rightarrow> let (l', ok) = allow l key i in (s\<lparr>sv_limiter := Some l'\<rparr>, \<not> ok))"

definition reject_with :: "string \<Rightarrow> ('q, 'l) server \<Rightarrow> ('q, 'l) server" where
  "reject_with reason s = s\<lparr>sv_metrics := inc_rejected reason (sv_metrics s)\<rparr>"

text \<open>What a request brings with it besides its data: the limiter's input and the clock.\<close>

record 'i arrival =
  ar_limit :: 'i
  ar_now :: int
  ar_took :: int

definition request_event :: "eventRequest \<Rightarrow> int \<Rightarrow> event" where
  "request_event req now =
     \<lparr>EventID = req_EventID req, Name = req_Name req, DistinctID = req_DistinctID req,
      Properties = req_Properties req, TS = now\<rparr>"

definition retry_after :: "(string \<times> string) list" where
  "retry_after = [(''Retry-After'', ''1'')]"

text \<open>
  The \<^verbatim>\<open>switch\<close> on the outcome of the enqueue. A panic in the queue leaves the request
  without a response.
\<close>

definition post_queued :: "go_error option \<Rightarrow> 'i arrival \<Rightarrow> ('q, 'l) server \<Rightarrow> ('q, 'l) server \<times> http_response option" where
  "post_queued err ar s =
     (case err of
        None \<Rightarrow>
          (s\<lparr>sv_metrics := (inc_accepted (sv_metrics s))
               \<lparr>m_IngestDuration := m_IngestDuration (sv_metrics s) @ [ar_took ar]\<rparr>\<rparr>,
           Some (writeJSON 202 (JObj [(''status'', JStr ''accepted'')])))
      | Some ErrFull \<Rightarrow>
          (reject_with ''queue_full'' s, Some (http_Error retry_after ''overloaded, retry shortly'' 503))
      | Some ErrClosed \<Rightarrow>
          (reject_with ''shutdown'' s, Some (http_Error [] ''shutting down'' 503))
      | Some ErrUnavailable \<Rightarrow>
          (reject_with ''not_ingest'' s,
           Some (http_Error [] ''this instance does not accept events (worker mode)'' 503))
      | Some GoPanic \<Rightarrow> (s, None)
      | Some _ \<Rightarrow> (s, Some (http_Error [] ''failed to accept event'' 500)))"

text \<open>\<^verbatim>\<open>postEvent\<close>. The decoder sees at most the first 1 MB of the body.\<close>

definition postEvent :: "'q enqueue \<Rightarrow> ('l, 'i) allower \<Rightarrow> (string \<Rightarrow> eventRequest option) \<Rightarrow>
    'i arrival \<Rightarrow> http_request \<Rightarrow> ('q, 'l) server \<Rightarrow> ('q, 'l) server \<times> http_response option" where
  "postEvent enq allow decode ar r s =
     (let (s1, hot) = limited allow s (ClientKey r) (ar_limit ar) in
      if hot then (reject_with ''rate_limited'' s1, Some (http_Error retry_after ''rate limit exceeded'' 429))
      else case decode (take 1048576 (Body r)) of
        None \<Rightarrow> (reject_with ''invalid'' s1, Some (http_Error [] ''invalid JSON body'' 400))
      | Some req \<Rightarrow>
          if req_EventID req = [] then (reject_with ''invalid'' s1, Some (http_Error [] ''event_id is required'' 400))
          else if req_Name req = [] then (reject_with ''invalid'' s1, Some (http_Error [] ''name is required'' 400))
          else let (q, err) = enq (sv_queue s1) (request_event req (ar_now ar))
               in post_queued err ar (s1\<lparr>sv_queue := q\<rparr>))"

section \<open>Queries\<close>

text \<open>\<^verbatim>\<open>StatsStore\<close>, the read side of the store.\<close>

record stats_store =
  st_CountToday :: "string \<Rightarrow> go_error + int"
  st_TotalsToday :: "go_error + NameCount list"
  st_Series :: "int \<Rightarrow> go_error + MinutePoint list"
  st_UniquesToday :: "string \<Rightarrow> go_error + uint64"
  st_UniquesTodayAll :: "go_error + NameCount list"

text \<open>
  The store of theory StoreQueries behind that interface; the faults and clock readings of the
  five queries are separate inputs, indexed in the order of the interface.
\<close>

definition pg_stats :: "go_impl \<Rightarrow> (string \<Rightarrow> nat) \<Rightarrow> (nat \<Rightarrow> faults) \<Rightarrow> int \<Rightarrow> (nat \<Rightarrow> int) \<Rightarrow> db \<Rightarrow> stats_store" where
  "pg_stats I tie f tz now d =
     \<lparr>st_CountToday = CountToday (f 0) tz (now 0) d,
      st_TotalsToday = TotalsToday tie (f 1) tz (now 1) d,
      st_Series = (\<lambda>w. Series (f 2) w (now 2) d),
      st_UniquesToday = UniquesToday I (f 3) tz (now 3) d,
      st_UniquesTodayAll = UniquesTodayAll I (f 4) tz (now 4) d\<rparr>"

definition getCount :: "stats_store \<Rightarrow> http_request \<Rightarrow> http_response" where
  "getCount st r =
     (let name = values_Get (Query r) ''event'' in
      if name = [] then http_Error [] ''the 'event' query parameter is required'' 400
      else case st_CountToday st name of
        Inl _ \<Rightarrow> http_Error [] ''failed to query count'' 500
      | Inr n \<Rightarrow> writeJSON 200 (JObj [(''event'', JStr name), (''count_today'', JNum (of_int n))]))"

definition getUniques :: "stats_store \<Rightarrow> http_request \<Rightarrow> http_response" where
  "getUniques st r =
     (let name = values_Get (Query r) ''event'' in
      if name = [] then http_Error [] ''the 'event' query parameter is required'' 400
      else case st_UniquesToday st name of
        Inl _ \<Rightarrow> http_Error [] ''failed to query uniques'' 500
      | Inr n \<Rightarrow> writeJSON 200 (JObj [(''event'', JStr name), (''unique_users_today'', JNum (of_nat (unat n)))]))"

text \<open>The JSON of the result records, by their tags; \<open>rfc3339\<close> prints an instant.\<close>

definition name_count_json :: "NameCount \<Rightarrow> json" where
  "name_count_json nc = JObj [(''name'', JStr (nc_name nc)), (''count'', JNum (of_int (nc_count nc)))]"

definition minute_point_json :: "(int \<Rightarrow> string) \<Rightarrow> MinutePoint \<Rightarrow> json" where
  "minute_point_json rfc3339 mp =
     JObj [(''name'', JStr (mp_name mp)), (''minute'', JStr (rfc3339 (mp_minute mp))),
           (''count'', JNum (of_int (mp_count mp)))]"

definition getStats :: "(int \<Rightarrow> string) \<Rightarrow> stats_store \<Rightarrow> http_response" where
  "getStats rfc3339 st =
     (case st_TotalsToday st of
        Inl _ \<Rightarrow> http_Error [] ''failed to query totals'' 500
      | Inr totals \<Rightarrow>
          (case st_UniquesTodayAll st of
             Inl _ \<Rightarrow> http_Error [] ''failed to query uniques'' 500
           | Inr uniques \<Rightarrow>
               (case st_Series st 900000000000 of
                  Inl _ \<Rightarrow> http_Error [] ''failed to query series'' 500
                | Inr series \<Rightarrow>
                    writeJSON 200 (JObj
                      [(''totals_today'', JArr (map name_count_json totals)),
                       (''uniques_today'', JArr (map name_count_json uniques)),
                       (''series'', JArr (map (minute_point_json rfc3339) series))]))))"

definition health :: http_response where
  "health = writeJSON 200 (JObj [(''status'', JStr ''ok'')])"

section \<open>Accounting\<close>

text \<open>The reasons for a rejection and the status each is answered with.\<close>

definition reject_status :: "(string \<times> int) list" where
  "reject_status = [(''rate_limited'', 429), (''invalid'', 400), (''queue_full'', 503), (''shutdown'', 503), (''not_ingest'', 503)]"

text \<open>Between two server states nothing was enqueued, and one rejection was counted under \<open>reason\<close>.\<close>

definition rejected_once :: "string \<Rightarrow> ('q, 'l) server \<Rightarrow> ('q, 'l) server \<Rightarrow> bool" where
  "rejected_once reason s s' \<longleftrightarrow>
     sv_queue s' = sv_queue s \<and> m_EventsAccepted (sv_metrics s') = m_EventsAccepted (sv_metrics s) \<and>
     (\<forall>x. rejected (sv_metrics s') x = rejected (sv_metrics s) x + (if x = reason then 1 else 0))"

text \<open>One event was accepted.\<close>

definition accepted_once :: "('q, 'l) server \<Rightarrow> ('q, 'l) server \<Rightarrow> bool" where
  "accepted_once s s' \<longleftrightarrow>
     m_EventsAccepted (sv_metrics s') = m_EventsAccepted (sv_metrics s) + 1 \<and>
     (\<forall>x. rejected (sv_metrics s') x = rejected (sv_metrics s) x)"

lemma limited_frame:
  assumes "limited allow s key i = (s', hot)"
  shows "sv_queue s' = sv_queue s \<and> sv_metrics s' = sv_metrics s"
  using assms by (auto simp: limited_def split: option.splits prod.splits)

lemma rejected_once_reject_with:
  "sv_queue s' = sv_queue s \<Longrightarrow> sv_metrics s' = sv_metrics s \<Longrightarrow> rejected_once reason s (reject_with reason s')"
  by (simp add: rejected_once_def reject_with_def)

definition valid_request :: "eventRequest \<Rightarrow> bool" where
  "valid_request req \<longleftrightarrow> req_EventID req \<noteq> [] \<and> req_Name req \<noteq> []"

lemma post_queued_cases:
  assumes "post_queued err ar s = (s', resp)" and "err \<noteq> Some GoPanic"
  shows "\<exists>rsp. resp = Some rsp \<and>
    (err = None \<and> status rsp = 202 \<and> sv_queue s' = sv_queue s \<and> accepted_once s s' \<or>
     err \<noteq> None \<and> status rsp \<noteq> 202 \<and> (\<exists>reason. (reason, status rsp) \<in> set reject_status \<and> rejected_once reason s s') \<or>
     (\<exists>e. err = Some e \<and> e \<notin> {ErrFull, ErrClosed, ErrUnavailable}) \<and> status rsp = 500 \<and> s' = s)"
proof (cases err)
  case None
  then show ?thesis using assms(1)
    by (auto simp: post_queued_def writeJSON_def accepted_once_def rejected_def inc_accepted_def)
next
  case (Some e)
  have once: "rejected_once reason s (reject_with reason s)" for reason
    by (rule rejected_once_reject_with) simp_all
  show ?thesis
    using assms Some once [of "''queue_full''"] once [of "''shutdown''"] once [of "''not_ingest''"]
    by (cases e) (auto simp: post_queued_def http_Error_def reject_status_def)
qed

context enqueuer
begin

lemma postEvent_effect:
  assumes I: "inv (sv_queue s)" and run: "postEvent enq allow decode ar r s = (s', resp)"
  shows "inv (sv_queue s') \<and> (\<exists>rsp. resp = Some rsp \<and>
    (status rsp = 202 \<and> accepted_once s s' \<and>
       (\<exists>req. decode (take 1048576 (Body r)) = Some req \<and> valid_request req \<and>
          enq (sv_queue s) (request_event req (ar_now ar)) = (sv_queue s', None) \<and>
          contents (sv_queue s') = contents (sv_queue s) @ [item (request_event req (ar_now ar))]) \<or>
     status rsp \<noteq> 202 \<and> (\<exists>reason. (reason, status rsp) \<in> set reject_status \<and> rejected_once reason s s') \<or>
     status rsp = 500 \<and> sv_queue s' = sv_queue s \<and> sv_metrics s' = sv_metrics s \<and>
       (\<exists>e err. enq (sv_queue s) e = (sv_queue s, Some err) \<and> err \<notin> {ErrFull, ErrClosed, ErrUnavailable})))"
proof -
  obtain s1 hot where lim: "limited allow s (ClientKey r) (ar_limit ar) = (s1, hot)" by force
  have s1: "sv_queue s1 = sv_queue s" "sv_metrics s1 = sv_metrics s" using limited_frame [OF lim] by simp_all
  have early: ?thesis if "s' = reject_with reason s1" "resp = Some (http_Error hs msg code)"
    "(reason, code) \<in> set reject_status" "code \<noteq> 202" for reason hs msg code
    using that I rejected_once_reject_with [OF s1, of reason] s1 by (auto simp: http_Error_def reject_with_def)
  show ?thesis
  proof (cases "hot \<or> decode (take 1048576 (Body r)) = None \<or>
      (\<exists>req. decode (take 1048576 (Body r)) = Some req \<and> \<not> valid_request req)")
    case True
    then show ?thesis using run lim early
      by (auto simp: postEvent_def valid_request_def reject_status_def split: if_splits)
  next
    case False
    then obtain req where req: "decode (take 1048576 (Body r)) = Some req" "valid_request req" and cold: "\<not> hot" by auto
    obtain q err where e: "enq (sv_queue s) (request_event req (ar_now ar)) = (q, err)" by force
    have post: "post_queued err ar (s1\<lparr>sv_queue := q\<rparr>) = (s', resp)"
      using run lim req cold e by (simp add: postEvent_def valid_request_def s1)
    have "err \<noteq> Some GoPanic" using enq_no_panic [OF I, of "request_event req (ar_now ar)"] e by simp
    from post_queued_cases [OF post this] show ?thesis
    proof (elim exE conjE disjE, goal_cases)
      case (1 rsp)
      then show ?thesis using enq_None [OF I] enq_inv [OF I e] e req s1
        by (intro conjI exI [of _ rsp] disjI1 exI [of _ req]) (auto simp: accepted_once_def)
    next
      case (2 rsp reason)
      then have "q = sv_queue s" using enq_Some [OF I] e by blast
      then show ?thesis using 2 s1 I by (auto simp: rejected_once_def)
    next
      case (3 rsp er)
      then have "q = sv_queue s" using enq_Some [OF I] e by blast
      then show ?thesis using 3 s1 I e by auto
    qed
  qed
qed

end

section \<open>Properties\<close>

lemma Enqueue_errors: "mq_inv q \<Longrightarrow> Enqueue q e = (q', Some err) \<Longrightarrow> err \<in> {ErrFull, ErrClosed}"
  by (auto simp: queue_defs split: if_splits)

text \<open>
  C12. Every posted event is either accepted or rejected, and counted as such exactly once. In front of
  the memory queue each request gets a response: 202 means that the decoded event, with both
  identifiers present and stamped with the time of arrival, is now last in the queue; any other
  status is the one of the rejection reason counted, and the queue is as it was. No request panics.
\<close>

theorem postEvent_accounts:
  assumes "mq_inv (sv_queue s)" and "postEvent Enqueue allow decode ar r s = (s', resp)"
  shows "mq_inv (sv_queue s') \<and> (\<exists>rsp. resp = Some rsp \<and>
    (if status rsp = 202
     then accepted_once s s' \<and> (\<exists>req. decode (take 1048576 (Body r)) = Some req \<and> valid_request req \<and>
       buf (ch (sv_queue s')) = buf (ch (sv_queue s)) @ [request_event req (ar_now ar)])
     else \<exists>reason. (reason, status rsp) \<in> set reject_status \<and> rejected_once reason s s'))"
  using mem.postEvent_effect [OF assms] Enqueue_errors [OF assms(1)] by fastforce

theorem postEvent_accounts_witness:
  "snd (postEvent Enqueue (\<lambda>l k i. (l, True)) (\<lambda>_. None) \<lparr>ar_limit = (), ar_now = 0, ar_took = 0\<rparr>
      \<lparr>Header = [], RemoteAddr = [], Query = [], Body = []\<rparr>
      (ingest_New demo_queue (Some ()) zero_metrics)) \<noteq> None"
proof -
  have "mq_inv (sv_queue (ingest_New demo_queue (Some ()) zero_metrics))"
    by (simp add: ingest_New_def demo_queue_def mq_inv_def)
  from postEvent_accounts [OF this surjective_pairing] show ?thesis by (metis option.distinct(1))
qed

end
