(* ===== verification/Grpcingest.thy ===== *)
theory Grpcingest
  imports Ingest
begin

text \<open>
  The gRPC front door of \<^verbatim>\<open>src/internal/grpcingest/server.go\<close> over the messages of
  \<^verbatim>\<open>src/gen/tally/v1\<close>: the nil-safe getters, the identity of the caller, and
  \<^verbatim>\<open>Publish\<close>, with the 32-bit fields of the response at their width.
\<close>

section \<open>Messages\<close>

record pb_event =
  EventId :: string
  pb_Name :: string
  DistinctId :: string
  pb_Properties :: "(string \<times> string) list"

text \<open>Messages are pointers; every getter works on nil.\<close>

definition GetEventId :: "pb_event option \<Rightarrow> string" where
  "GetEventId x = (case x of Some e \<Rightarrow> EventId e | None \<Rightarrow> [])"

definition GetName :: "pb_event option \<Rightarrow> string" where
  "GetName x = (case x of Some e \<Rightarrow> pb_Name e | None \<Rightarrow> [])"

definition GetDistinctId :: "pb_event option \<Rightarrow> string" where
  "GetDistinctId x = (case x of Some e \<Rightarrow> DistinctId e | None \<Rightarrow> [])"

definition GetProperties :: "pb_event option \<Rightarrow> (string \<times> string) list" where
  "GetProperties x = (case x of Some e \<Rightarrow> pb_Properties e | None \<Rightarrow> [])"

record PublishRequest =
  Events :: "pb_event option list"

definition GetEvents :: "PublishRequest option \<Rightarrow> pb_event option list" where
  "GetEvents x = (case x of Some r \<Rightarrow> Events r | None \<Rightarrow> [])"

record RejectedEvent =
  Index :: int32
  Reason :: string

record PublishResponse =
  Accepted :: int32
  Rejected :: "RejectedEvent list"

datatype grpc_code = ResourceExhausted | Unavailable | Internal

section \<open>The caller\<close>

text \<open>Incoming metadata (keys in lower case) and the peer's address, either of which may be missing.\<close>

record grpc_context =
  metadata :: "(string \<times> string list) list option"
  peer_addr :: "string option"

definition clientKey :: "grpc_context \<Rightarrow> string" where
  "clientKey ctx =
     (let key = (case metadata ctx of Some md \<Rightarrow> values_Get md ''x-api-key'' | None \<Rightarrow> []) in
      if key \<noteq> [] then key
      else case peer_addr ctx of
        Some addr \<Rightarrow> (case SplitHostPort addr of Some (host, port) \<Rightarrow> host | None \<Rightarrow> addr)
      | None \<Rightarrow> ''unknown'')"

section \<open>Publish\<close>

definition invalid_reason :: "pb_event option \<Rightarrow> string" where
  "invalid_reason pe =
     (if GetEventId pe = [] then ''event_id is required''
      else if GetName pe = [] then ''name is required''
      else [])"

definition publish_event :: "pb_event option \<Rightarrow> int \<Rightarrow> event" where
  "publish_event pe now =
     \<lparr>EventID = GetEventId pe, Name = GetName pe, DistinctID = GetDistinctId pe,
      Properties = Some (map (\<lambda>(k, v). (k, JStr v)) (GetProperties pe)), TS = now\<rparr>"

text \<open>The error of a call that the queue refused; the rejection is counted. A panic yields nothing.\<close>

definition publish_refused :: "go_error \<Rightarrow> ('q, 'l) server \<Rightarrow> ('q, 'l) server \<times> grpc_code option" where
  "publish_refused err s =
     (case err of
        ErrFull \<Rightarrow> (reject_with ''queue_full'' s, Some ResourceExhausted)
      | ErrClosed \<Rightarrow> (reject_with ''shutdown'' s, Some Unavailable)
      | ErrUnavailable \<Rightarrow> (reject_with ''not_ingest'' s, Some Unavailable)
      | GoPanic \<Rightarrow> (s, None)
      | _ \<Rightarrow> (s, Some Internal))"

text \<open>The loop, from index \<open>i\<close> on.\<close>

fun publish_loop :: "'q enqueue \<Rightarrow> int \<Rightarrow> nat \<Rightarrow> pb_event option list \<Rightarrow> PublishResponse \<Rightarrow> ('q, 'l) server \<Rightarrow>
    ('q, 'l) server \<times> (grpc_code option + PublishResponse)" where
  "publish_loop enq now i [] resp s = (s, Inr resp)"
| "publish_loop enq now i (pe # pes) resp s =
     (if invalid_reason pe \<noteq> []
      then publish_loop enq now (i + 1) pes
             (resp\<lparr>Rejected := Rejected resp @ [\<lparr>Index = of_nat i, Reason = invalid_reason pe\<rparr>]\<rparr>)
             (reject_with ''invalid'' s)
      else case enq (sv_queue s) (publish_event pe now) of
        (q, None) \<Rightarrow>
          publish_loop enq now (i + 1) pes (resp\<lparr>Accepted := Accepted resp + 1\<rparr>)
            (s\<lparr>sv_queue := q, sv_metrics := inc_accepted (sv_metrics s)\<rparr>)
      | (q, Some err) \<Rightarrow>
          let (s', code) = publish_refused err (s\<lparr>sv_queue := q\<rparr>) in (s', Inl code))"

definition Publish :: "'q enqueue \<Rightarrow> ('l, 'i) allower \<Rightarrow> 'i arrival \<Rightarrow> grpc_context \<Rightarrow> PublishRequest option \<Rightarrow>
    ('q, 'l) server \<Rightarrow> ('q, 'l) server \<times> (grpc_code option + PublishResponse)" where
  "Publish enq allow ar ctx req s =
     (let (s1, hot) = limited allow s (clientKey ctx) (ar_limit ar) in
      if hot then (reject_with ''rate_limited'' s1, Inl (Some ResourceExhausted))
      else publish_loop enq (ar_now ar) 0 (GetEvents req) \<lparr>Accepted = 0, Rejected = []\<rparr> s1)"

text \<open>\<^verbatim>\<open>_TallyService_Publish_Handler\<close> without an interceptor: decode, then call.\<close>

definition TallyService_Publish_Handler :: "'q enqueue \<Rightarrow> ('l, 'i) allower \<Rightarrow> 'i arrival \<Rightarrow> grpc_context \<Rightarrow>
    (go_error + PublishRequest) \<Rightarrow> ('q, 'l) server \<Rightarrow>
    ('q, 'l) server \<times> (go_error + (grpc_code option + PublishResponse))" where
  "TallyService_Publish_Handler enq allow ar ctx dec s =
     (case dec of
        Inl err \<Rightarrow> (s, Inl err)
      | Inr req \<Rightarrow> let (s', r) = Publish enq allow ar ctx (Some req) s in (s', Inr r))"

section \<open>What a call does\<close>

text \<open>The valid events of a request and the rejections of the others, from index \<open>i\<close> on.\<close>

definition valid_events :: "int \<Rightarrow> pb_event option list \<Rightarrow> event list" where
  "valid_events now pes = map (\<lambda>pe. publish_event pe now) (filter (\<lambda>pe. invalid_reason pe = []) pes)"

fun rejections :: "nat \<Rightarrow> pb_event option list \<Rightarrow> RejectedEvent list" where
  "rejections i [] = []"
| "rejections i (pe # pes) =
     (if invalid_reason pe \<noteq> [] then [\<lparr>Index = of_nat i, Reason = invalid_reason pe\<rparr>] else []) @ rejections (i + 1) pes"

lemma length_valid_rejections: "length (valid_events now pes) + length (rejections i pes) = length pes"
  by (induction pes arbitrary: i) (auto simp: valid_events_def)

lemma publish_refused_frame:
  assumes "publish_refused err s = (s', code)"
  shows "sv_queue s' = sv_queue s" and "sv_limiter s' = sv_limiter s"
    and "m_EventsAccepted (sv_metrics s') = m_EventsAccepted (sv_metrics s)"
    and "code = None \<longleftrightarrow> err = GoPanic"
    and "err \<in> {ErrFull, ErrClosed, ErrUnavailable} \<longleftrightarrow> code \<in> {Some ResourceExhausted, Some Unavailable}"
  using assms by (cases err; auto simp: publish_refused_def reject_with_def)+

lemma publish_loop_limiter: "sv_limiter (fst (publish_loop enq now i pes resp s)) = sv_limiter s"
proof (induction enq now i pes resp s rule: publish_loop.induct)
  case (2 enq now i pe pes resp s)
  show ?case
  proof (cases "invalid_reason pe = []")
    case True
    obtain q r where e: "enq (sv_queue s) (publish_event pe now) = (q, r)" by force
    obtain s' code where ref: "publish_refused (the r) (s\<lparr>sv_queue := q\<rparr>) = (s', code)" by force
    show ?thesis using 2(2) [OF _ e [symmetric]] e True publish_refused_frame(2) [OF ref] ref
      by (cases r) simp_all
  qed (use 2(1) in \<open>simp add: reject_with_def\<close>)
qed simp

text \<open>What a refusal by the queue answers.\<close>

definition refusal :: "go_error \<Rightarrow> grpc_code option \<Rightarrow> bool" where
  "refusal err code \<longleftrightarrow> code \<noteq> None \<and>
     (err \<in> {ErrFull, ErrClosed, ErrUnavailable} \<longleftrightarrow> code \<in> {Some ResourceExhausted, Some Unavailable})"

text \<open>The events \<open>es\<close> were enqueued and counted between two server states.\<close>

definition enqueued :: "('q \<Rightarrow> 'c list) \<Rightarrow> (event \<Rightarrow> 'c) \<Rightarrow> event list \<Rightarrow> ('q, 'l) server \<Rightarrow> ('q, 'l) server \<Rightarrow> bool" where
  "enqueued contents item es s s' \<longleftrightarrow>
     contents (sv_queue s') = contents (sv_queue s) @ map item es \<and>
     m_EventsAccepted (sv_metrics s') = m_EventsAccepted (sv_metrics s) + int (length es)"

lemma enqueued_skip:
  "enqueued contents item es (reject_with r s) s' \<longleftrightarrow> enqueued contents item es s s'"
  by (simp add: enqueued_def reject_with_def)

lemma enqueued_Cons:
  assumes "contents q = contents (sv_queue s) @ [item e]"
    and "enqueued contents item es (s\<lparr>sv_queue := q, sv_metrics := inc_accepted (sv_metrics s)\<rparr>) s'"
  shows "enqueued contents item (e # es) s s'"
  using assms by (simp add: enqueued_def)

lemma valid_events_Cons:
  "valid_events now (pe # pes) =
   (if invalid_reason pe = [] then publish_event pe now # valid_events now pes else valid_events now pes)"
  by (simp add: valid_events_def)

context enqueuer
begin

text \<open>Either all events were handled, or the queue refused one and those before it were handled.\<close>

lemma publish_loop_Inr:
  assumes "inv (sv_queue s)" and "publish_loop enq now i pes resp s = (s', Inr resp')"
  shows "inv (sv_queue s') \<and> enqueued contents item (valid_events now pes) s s' \<and>
    Accepted resp' = Accepted resp + of_nat (length (valid_events now pes)) \<and>
    Rejected resp' = Rejected resp @ rejections i pes"
  using assms
proof (induction pes arbitrary: i resp s)
  case (Cons pe pes)
  show ?case
  proof (cases "invalid_reason pe = []")
    case False
    let ?resp = "resp\<lparr>Rejected := Rejected resp @ [\<lparr>Index = of_nat i, Reason = invalid_reason pe\<rparr>]\<rparr>"
    have "publish_loop enq now (i + 1) pes ?resp (reject_with ''invalid'' s) = (s', Inr resp')"
      using Cons.prems(2) False by simp
    then show ?thesis using Cons.IH [of "reject_with ''invalid'' s"] Cons.prems(1) False
      by (simp add: enqueued_skip valid_events_Cons) (simp add: reject_with_def)
  next
    case True
    obtain q err where e: "enq (sv_queue s) (publish_event pe now) = (q, err)" by force
    then have none: "err = None" using Cons.prems(2) True by (cases err) (auto split: prod.splits)
    let ?s = "s\<lparr>sv_queue := q, sv_metrics := inc_accepted (sv_metrics s)\<rparr>"
    have q: "contents q = contents (sv_queue s) @ [item (publish_event pe now)]" "inv q"
      using enq_None [OF Cons.prems(1)] enq_inv [OF Cons.prems(1)] e none by blast+
    have "publish_loop enq now (i + 1) pes (resp\<lparr>Accepted := Accepted resp + 1\<rparr>) ?s = (s', Inr resp')"
      using Cons.prems(2) True e none by simp
    then show ?thesis using Cons.IH [of ?s] q(2) enqueued_Cons [of contents q s item, OF q(1)] True
      by (auto simp: valid_events_Cons)
  qed
qed (auto simp: valid_events_def enqueued_def)

lemma publish_loop_Inl:
  assumes "inv (sv_queue s)" and "publish_loop enq now i pes resp s = (s', Inl code)"
  shows "inv (sv_queue s') \<and> (\<exists>pre pe post err. pes = pre @ pe # post \<and> invalid_reason pe = [] \<and>
    enqueued contents item (valid_events now pre) s s' \<and>
    enq (sv_queue s') (publish_event pe now) = (sv_queue s', Some err) \<and> refusal err code)"
  using assms
proof (induction pes arbitrary: i resp s)
  case (Cons pe pes)
  have more: ?case if s1: "inv (sv_queue s1)" "publish_loop enq now i1 pes resp1 s1 = (s', Inl code)"
    and ext: "\<And>es. enqueued contents item (valid_events now es) s1 s' \<Longrightarrow>
      enqueued contents item (valid_events now (pe # es)) s s'" for s1 i1 resp1
  proof -
    obtain pre pe' post err where found: "pes = pre @ pe' # post" "invalid_reason pe' = []"
      "enqueued contents item (valid_events now pre) s1 s'"
      "enq (sv_queue s') (publish_event pe' now) = (sv_queue s', Some err)" "refusal err code"
      using Cons.IH [OF s1] by blast
    then show ?thesis using Cons.IH [OF s1] ext [OF found(3)] by (metis append_Cons)
  qed
  show ?case
  proof (cases "invalid_reason pe = []")
    case False
    then show ?thesis using Cons.prems
      by (intro more [of "reject_with ''invalid'' s"])
        (simp_all add: enqueued_skip valid_events_Cons, simp add: reject_with_def)
  next
    case True
    obtain q err where e: "enq (sv_queue s) (publish_event pe now) = (q, err)" by force
    show ?thesis
    proof (cases err)
      case None
      have q: "contents q = contents (sv_queue s) @ [item (publish_event pe now)]" "inv q"
        using enq_None [OF Cons.prems(1)] enq_inv [OF Cons.prems(1)] e None by blast+
      show ?thesis using Cons.prems(2) True e None q(2) enqueued_Cons [of contents q s item, OF q(1)]
        by (intro more [of "s\<lparr>sv_queue := q, sv_metrics := inc_accepted (sv_metrics s)\<rparr>"])
          (simp_all add: valid_events_Cons)
    next
      case (Some er)
      have q: "q = sv_queue s" using enq_Some [OF Cons.prems(1)] e Some by blast
      have ref: "publish_refused er s = (s', code)" using Cons.prems(2) True e Some q by (simp split: prod.splits)
      have "er \<noteq> GoPanic" using enq_no_panic [OF Cons.prems(1), of "publish_event pe now"] e Some by simp
      then have "refusal er code" using publish_refused_frame(4,5) [OF ref] by (simp add: refusal_def)
      moreover have "enqueued contents item (valid_events now []) s s'"
        using publish_refused_frame(1,3) [OF ref] by (simp add: enqueued_def valid_events_def)
      ultimately show ?thesis using publish_refused_frame(1) [OF ref] Cons.prems(1) True e Some q
        by (metis append_Nil)
    qed
  qed
qed simp

end

section \<open>Properties\<close>

text \<open>
  C13. A call of \<^verbatim>\<open>Publish\<close> in front of the memory queue accounts for every event of the
  batch. A response means that all valid events, in order, are in the queue and that the invalid
  ones are listed by index with their reason, so that the two counts add up to the size of the
  batch. An error is \<^verbatim>\<open>RESOURCE_EXHAUSTED\<close> or \<^verbatim>\<open>UNAVAILABLE\<close>, and then the valid events
  of some prefix of the batch are in the queue. The limiter is consulted once per call, whatever the
  size of the batch.
\<close>

theorem Publish_accounts:
  assumes "mq_inv (sv_queue s)" and "Publish Enqueue allow ar ctx req s = (s', r)"
  shows "mq_inv (sv_queue s') \<and>
    sv_limiter s' = map_option (\<lambda>l. fst (allow l (clientKey ctx) (ar_limit ar))) (sv_limiter s) \<and>
    (case r of
       Inr resp \<Rightarrow>
         enqueued (\<lambda>q. buf (ch q)) (\<lambda>e. e) (valid_events (ar_now ar) (GetEvents req)) s s' \<and>
         Rejected resp = rejections 0 (GetEvents req) \<and>
         (length (GetEvents req) < 2 ^ 31 \<longrightarrow>
            sint (Accepted resp) + int (length (Rejected resp)) = int (length (GetEvents req)))
     | Inl code \<Rightarrow> code \<in> {Some ResourceExhausted, Some Unavailable} \<and>
         (\<exists>pre post. GetEvents req = pre @ post \<and>
            enqueued (\<lambda>q. buf (ch q)) (\<lambda>e. e) (valid_events (ar_now ar) pre) s s'))"
proof -
  obtain s1 hot where lim: "limited allow s (clientKey ctx) (ar_limit ar) = (s1, hot)" by force
  have s1: "sv_queue s1 = sv_queue s" "sv_metrics s1 = sv_metrics s"
    "sv_limiter s1 = map_option (\<lambda>l. fst (allow l (clientKey ctx) (ar_limit ar))) (sv_limiter s)"
    using lim by (auto simp: limited_def split: option.splits prod.splits)
  have from_s1: "enqueued c f es s1 s' \<longleftrightarrow> enqueued c f es s s'" for c f es
    by (simp add: enqueued_def s1)
  let ?pes = "GetEvents req" and ?now = "ar_now ar"
  show ?thesis
  proof (cases hot)
    case True
    then have "s' = reject_with ''rate_limited'' s1" "r = Inl (Some ResourceExhausted)"
      using assms(2) lim by (simp_all add: Publish_def)
    moreover have "enqueued (\<lambda>q. buf (ch q)) (\<lambda>e. e) (valid_events ?now []) s (reject_with ''rate_limited'' s1)"
      by (simp add: enqueued_def valid_events_def reject_with_def s1)
    ultimately show ?thesis using assms(1) s1
      by (simp add: reject_with_def) (metis append_Nil)
  next
    case False
    then have loop: "publish_loop Enqueue ?now 0 ?pes \<lparr>Accepted = 0, Rejected = []\<rparr> s1 = (s', r)"
      using assms(2) lim by (simp add: Publish_def)
    have inv1: "mq_inv (sv_queue s1)" using assms(1) s1 by simp
    have limiter: "sv_limiter s' = sv_limiter s1"
      using publish_loop_limiter [of Enqueue ?now 0 ?pes _ s1] loop by (metis fst_conv)
    show ?thesis
    proof (cases r)
      case (Inl code)
      obtain pre pe post err where found: "?pes = pre @ pe # post"
        "enqueued (\<lambda>q. buf (ch q)) (\<lambda>e. e) (valid_events ?now pre) s1 s'"
        "Enqueue (sv_queue s') (publish_event pe ?now) = (sv_queue s', Some err)" "refusal err code"
        and inv': "mq_inv (sv_queue s')"
        using mem.publish_loop_Inl [OF inv1 loop [unfolded Inl]] by blast
      have "code \<in> {Some ResourceExhausted, Some Unavailable}"
        using found(4) Enqueue_errors [OF inv' found(3)] unfolding refusal_def by blast
      then show ?thesis using found inv' limiter s1 from_s1 Inl by auto
    next
      case (Inr resp)
      note all = mem.publish_loop_Inr [OF inv1 loop [unfolded Inr]]
      have "sint (Accepted resp) + int (length (Rejected resp)) = int (length ?pes)" if "length ?pes < 2 ^ 31"
      proof -
        have le: "length (valid_events ?now ?pes) < 2 ^ 31"
          using that length_valid_rejections [of ?now ?pes 0] by simp
        then have "sint (of_nat (length (valid_events ?now ?pes)) :: int32) = int (length (valid_events ?now ?pes))"
          by (subst signed_of_nat) (simp add: signed_take_bit_int_eq_self)
        then show ?thesis using all length_valid_rejections [of ?now ?pes 0] by simp
      qed
      moreover have "enqueued (\<lambda>q. buf (ch q)) (\<lambda>e. e) (valid_events ?now ?pes) s s'"
        using all from_s1 by blast
      ultimately show ?thesis using all limiter s1(3) Inr by simp
    qed
  qed
qed

theorem Publish_accounts_witness:
  "\<exists>s' resp. Publish Enqueue (\<lambda>l k i. (l, True)) \<lparr>ar_limit = (), ar_now = 0, ar_took = 0\<rparr>
      \<lparr>metadata = None, peer_addr = None\<rparr> (Some \<lparr>Events = [None]\<rparr>) (ingest_New demo_queue (Some ()) zero_metrics) =
      (s', Inr resp) \<and> sint (Accepted resp) + int (length (Rejected resp)) = 1"
proof -
  let ?run = "Publish Enqueue (\<lambda>l k i. (l, True)) \<lparr>ar_limit = (), ar_now = 0, ar_took = 0\<rparr>
      \<lparr>metadata = None, peer_addr = None\<rparr> (Some \<lparr>Events = [None]\<rparr>) (ingest_New demo_queue (Some ()) zero_metrics)"
  obtain s' r where run: "?run = (s', r)" by force
  moreover obtain resp where "r = Inr resp"
    using run by (auto simp: Publish_def limited_def ingest_New_def GetEvents_def invalid_reason_def GetEventId_def)
  moreover have "mq_inv (sv_queue (ingest_New demo_queue (Some ()) zero_metrics))"
    by (simp add: ingest_New_def demo_queue_def mq_inv_def)
  ultimately show ?thesis using Publish_accounts [of _ "\<lambda>l k i. (l, True)", OF _ run] by (auto simp: GetEvents_def)
qed

lemma clientKey_ClientKey:
  assumes "values_Get (Header r) ''X-Api-Key'' = values_Get md ''x-api-key''"
  shows "clientKey \<lparr>metadata = Some md, peer_addr = Some (RemoteAddr r)\<rparr> = ClientKey r"
  using assms by (simp add: clientKey_def ClientKey_def Let_def split: option.splits)

text \<open>The same effects on the queue, the limiter and the counters of both front doors.\<close>

definition same_effects :: "('q, 'l) server \<Rightarrow> ('q, 'l) server \<Rightarrow> bool" where
  "same_effects s1 s2 \<longleftrightarrow> sv_queue s1 = sv_queue s2 \<and> sv_limiter s1 = sv_limiter s2 \<and>
     m_EventsAccepted (sv_metrics s1) = m_EventsAccepted (sv_metrics s2) \<and>
     (\<forall>reason. rejected (sv_metrics s1) reason = rejected (sv_metrics s2) reason)"

text \<open>Corresponding answers.\<close>

definition same_answer :: "http_response option \<Rightarrow> grpc_code option + PublishResponse \<Rightarrow> bool" where
  "same_answer resp res \<longleftrightarrow>
     (case resp of
        None \<Rightarrow> res = Inl None
      | Some rsp \<Rightarrow>
          status rsp = 202 \<and> res = Inr \<lparr>Accepted = 1, Rejected = []\<rparr> \<or>
          status rsp = 400 \<and> (\<exists>reason. res = Inr \<lparr>Accepted = 0, Rejected = [\<lparr>Index = 0, Reason = reason\<rparr>]\<rparr>) \<or>
          status rsp = 429 \<and> res = Inl (Some ResourceExhausted) \<or>
          status rsp = 503 \<and> (res = Inl (Some ResourceExhausted) \<or> res = Inl (Some Unavailable)) \<or>
          status rsp = 500 \<and> res = Inl (Some Internal))"

lemma queued_agree:
  "same_effects (fst (post_queued (Some err) ar s)) (fst (publish_refused err s)) \<and>
   same_answer (snd (post_queued (Some err) ar s)) (Inl (snd (publish_refused err s)))"
  by (cases err) (simp_all add: post_queued_def publish_refused_def same_effects_def same_answer_def http_Error_def)

text \<open>
  C11. The two front doors are equivalent: for one event sent with the same fields, by the same client,
  through HTTP or as a batch of one through gRPC, the queue, the limiter and the ingest counters end
  up the same, and the answers correspond, whatever the queue and the limiter are.
\<close>

theorem front_doors_agree:
  assumes "values_Get (Header r) ''X-Api-Key'' = values_Get md ''x-api-key''"
    and "decode (take 1048576 (Body r)) =
      Some \<lparr>req_EventID = EventId pe, req_Name = pb_Name pe, req_DistinctID = DistinctId pe,
            req_Properties = Some (map (\<lambda>(k, v). (k, JStr v)) (pb_Properties pe))\<rparr>"
    and "postEvent enq allow decode ar r s = (s1, resp)"
    and "Publish enq allow ar \<lparr>metadata = Some md, peer_addr = Some (RemoteAddr r)\<rparr>
      (Some \<lparr>Events = [Some pe]\<rparr>) s = (s2, res)"
  shows "same_effects s1 s2 \<and> same_answer resp res"
proof -
  let ?req = "\<lparr>req_EventID = EventId pe, req_Name = pb_Name pe, req_DistinctID = DistinctId pe,
      req_Properties = Some (map (\<lambda>(k, v). (k, JStr v)) (pb_Properties pe))\<rparr>"
  obtain s0 hot where lim: "limited allow s (ClientKey r) (ar_limit ar) = (s0, hot)" by force
  note http = assms(3) [unfolded postEvent_def lim prod.case Let_def assms(2) option.case]
  note grpc = assms(4) [unfolded Publish_def clientKey_ClientKey [OF assms(1)] lim prod.case Let_def]
  have ev: "publish_event (Some pe) now = request_event ?req now" for now
    by (simp add: publish_event_def request_event_def GetEventId_def GetName_def GetDistinctId_def GetProperties_def)
  show ?thesis
  proof (cases "hot \<or> EventId pe = [] \<or> pb_Name pe = []")
    case True
    then show ?thesis using http grpc
      by (auto simp: GetEvents_def invalid_reason_def GetEventId_def GetName_def same_effects_def same_answer_def
          http_Error_def split: if_splits)
  next
    case False
    then have ok: "\<not> hot" "invalid_reason (Some pe) = []" "EventId pe \<noteq> []" "pb_Name pe \<noteq> []"
      by (simp_all add: invalid_reason_def GetEventId_def GetName_def)
    obtain q err where e: "enq (sv_queue s0) (request_event ?req (ar_now ar)) = (q, err)" by force
    have h: "post_queued err ar (s0\<lparr>sv_queue := q\<rparr>) = (s1, resp)" using http ok e by simp
    show ?thesis
    proof (cases err)
      case None
      then have "s2 = s0\<lparr>sv_queue := q, sv_metrics := inc_accepted (sv_metrics s0)\<rparr>"
        "res = Inr \<lparr>Accepted = 1, Rejected = []\<rparr>"
        using grpc ok e by (simp_all add: GetEvents_def ev)
      then show ?thesis using h None
        by (auto simp: post_queued_def same_effects_def same_answer_def writeJSON_def rejected_def inc_accepted_def)
    next
      case (Some er)
      then have "publish_refused er (s0\<lparr>sv_queue := q\<rparr>) = (s2, snd (publish_refused er (s0\<lparr>sv_queue := q\<rparr>)))"
        "res = Inl (snd (publish_refused er (s0\<lparr>sv_queue := q\<rparr>)))"
        using grpc ok e by (simp_all add: GetEvents_def ev case_prod_beta Let_def prod_eq_iff)
      then show ?thesis using queued_agree [of er ar "s0\<lparr>sv_queue := q\<rparr>"] h Some by (metis fst_conv snd_conv)
    qed
  qed
qed

theorem front_doors_agree_witness:
  "same_answer
     (snd (postEvent Reject_Enqueue (\<lambda>l k i. (l, True))
        (\<lambda>_. Some \<lparr>req_EventID = ''e'', req_Name = ''n'', req_DistinctID = [], req_Properties = Some []\<rparr>)
        \<lparr>ar_limit = (), ar_now = 0, ar_took = 0\<rparr> \<lparr>Header = [], RemoteAddr = ''10.0.0.1:80'', Query = [], Body = []\<rparr>
        (ingest_New () None zero_metrics :: (unit, unit) server)))
     (snd (Publish Reject_Enqueue (\<lambda>l k i. (l, True)) \<lparr>ar_limit = (), ar_now = 0, ar_took = 0\<rparr>
        \<lparr>metadata = Some [], peer_addr = Some ''10.0.0.1:80''\<rparr>
        (Some \<lparr>Events = [Some \<lparr>EventId = ''e'', pb_Name = ''n'', DistinctId = [], pb_Properties = []\<rparr>]\<rparr>)
        (ingest_New () None zero_metrics :: (unit, unit) server)))"
  using front_doors_agree [of "\<lparr>Header = [], RemoteAddr = ''10.0.0.1:80'', Query = [], Body = []\<rparr>" "[]"
      "\<lambda>_. Some \<lparr>req_EventID = ''e'', req_Name = ''n'', req_DistinctID = [], req_Properties = Some []\<rparr>"
      "\<lparr>EventId = ''e'', pb_Name = ''n'', DistinctId = [], pb_Properties = []\<rparr>" Reject_Enqueue
      "\<lambda>l k i. (l, True)" "\<lparr>ar_limit = (), ar_now = 0, ar_took = 0\<rparr>"
      "ingest_New () None zero_metrics :: (unit, unit) server", OF _ _ surjective_pairing surjective_pairing]
  by (simp add: values_Get_def)

end
