(* ===== verification/Routes.thy ===== *)
theory Routes
  imports Ingest
begin

text \<open>
  The HTTP surface: the routes that \<^verbatim>\<open>ingest.Register\<close>, \<^verbatim>\<open>dashboard.Register\<close>
  and \<^verbatim>\<open>main\<close> attach to the mux, the mux's choice among them, and the whole service of one
  request. Paths are those a client sends in clean form; the mux redirects any other first.
\<close>

section \<open>The routing table\<close>

datatype endpoint =
    PostEvent | GetCount | GetUniques | GetStats | Health
  | Dashboard | MetricsPage | PprofIndex | PprofProfile | PprofTrace

text \<open>
  A pattern has a method and either a whole path (\<^verbatim>\<open>/{$}\<close> is the path \<^verbatim>\<open>/\<close>) or,
  ending in a slash, everything below one.
\<close>

record route =
  rt_method :: string
  rt_path :: string
  rt_subtree :: bool
  rt_endpoint :: endpoint

definition exact_route :: "string \<Rightarrow> string \<Rightarrow> endpoint \<Rightarrow> route" where
  "exact_route m p e = \<lparr>rt_method = m, rt_path = p, rt_subtree = False, rt_endpoint = e\<rparr>"

definition ingest_Register :: "route list" where
  "ingest_Register =
     [exact_route ''POST'' ''/v1/events'' PostEvent,
      exact_route ''GET'' ''/v1/counts'' GetCount,
      exact_route ''GET'' ''/v1/uniques'' GetUniques,
      exact_route ''GET'' ''/v1/stats'' GetStats,
      exact_route ''GET'' ''/healthz'' Health]"

definition dashboard_Register :: "route list" where
  "dashboard_Register = [exact_route ''GET'' ''/'' Dashboard]"

definition main_routes :: "route list" where
  "main_routes = ingest_Register @ dashboard_Register @
     [exact_route ''GET'' ''/metrics'' MetricsPage,
      \<lparr>rt_method = ''GET'', rt_path = ''/debug/pprof/'', rt_subtree = True, rt_endpoint = PprofIndex\<rparr>,
      exact_route ''GET'' ''/debug/pprof/profile'' PprofProfile,
      exact_route ''GET'' ''/debug/pprof/trace'' PprofTrace]"

section \<open>The mux\<close>

text \<open>A pattern for \<^verbatim>\<open>GET\<close> also takes \<^verbatim>\<open>HEAD\<close>.\<close>

definition method_ok :: "string \<Rightarrow> string \<Rightarrow> bool" where
  "method_ok pat m \<longleftrightarrow> pat = m \<or> pat = ''GET'' \<and> m = ''HEAD''"

definition path_ok :: "route \<Rightarrow> string \<Rightarrow> bool" where
  "path_ok rt p \<longleftrightarrow>
     (if rt_subtree rt then take (length (rt_path rt)) p = rt_path rt else p = rt_path rt)"

text \<open>The most specific pattern wins: a whole path before a subtree.\<close>

definition mux_match :: "route list \<Rightarrow> string \<Rightarrow> string \<Rightarrow> route option" where
  "mux_match rts m p =
     (let ok = filter (\<lambda>rt. method_ok (rt_method rt) m \<and> path_ok rt p) rts in
      case find (\<lambda>rt. \<not> rt_subtree rt) ok of
        Some rt \<Rightarrow> Some rt
      | None \<Rightarrow> (case ok of rt # _ \<Rightarrow> Some rt | [] \<Rightarrow> None))"

datatype mux_result = Matched endpoint | Moved string | MethodNotAllowed "string list" | NotFound

definition allowed_methods :: "route list \<Rightarrow> string \<Rightarrow> string list" where
  "allowed_methods rts p =
     remdups (concat (map (\<lambda>rt. if rt_method rt = ''GET'' then [''GET'', ''HEAD''] else [rt_method rt])
       (filter (\<lambda>rt. path_ok rt p) rts)))"

text \<open>
  \<^verbatim>\<open>findHandler\<close>: a path without a match whose subtree is registered is redirected to it.
\<close>

definition findHandler :: "route list \<Rightarrow> string \<Rightarrow> string \<Rightarrow> mux_result" where
  "findHandler rts m p =
     (case mux_match rts m p of
        Some rt \<Rightarrow> Matched (rt_endpoint rt)
      | None \<Rightarrow>
          if list_ex (\<lambda>rt. rt_subtree rt \<and> method_ok (rt_method rt) m \<and> rt_path rt = p @ ''/'') rts
          then Moved (p @ ''/'')
          else if allowed_methods rts p \<noteq> [] then MethodNotAllowed (allowed_methods rts p)
          else NotFound)"

section \<open>Serving a request\<close>

text \<open>The dashboard's handler; the page is the file embedded in the binary.\<close>

definition dashboard_page :: "string \<Rightarrow> http_response" where
  "dashboard_page indexHTML =
     \<lparr>status = 200, resp_header = [(''Content-Type'', ''text/html; charset=utf-8'')], resp_body = TextBody indexHTML\<rparr>"

text \<open>
  What the handlers take besides the request: the queue, the limiter, the decoder of bodies, the
  read side of the store, the time format, and the pages that libraries and embedded files supply.
\<close>

record ('q, 'l, 'i) surface =
  sf_enq :: "'q enqueue"
  sf_allow :: "('l, 'i) allower"
  sf_decode :: "string \<Rightarrow> eventRequest option"
  sf_stats :: stats_store
  sf_rfc3339 :: "int \<Rightarrow> string"
  sf_index :: string
  sf_library :: "endpoint \<Rightarrow> http_request \<Rightarrow> http_response"

fun join_comma :: "string list \<Rightarrow> string" where
  "join_comma [] = []"
| "join_comma [s] = s"
| "join_comma (s # t # ss) = s @ '', '' @ join_comma (t # ss)"

definition run_endpoint :: "('q, 'l, 'i) surface \<Rightarrow> 'i arrival \<Rightarrow> endpoint \<Rightarrow> http_request \<Rightarrow> ('q, 'l) server \<Rightarrow>
    ('q, 'l) server \<times> http_response option" where
  "run_endpoint F ar ep r s =
     (case ep of
        PostEvent \<Rightarrow> postEvent (sf_enq F) (sf_allow F) (sf_decode F) ar r s
      | GetCount \<Rightarrow> (s, Some (getCount (sf_stats F) r))
      | GetUniques \<Rightarrow> (s, Some (getUniques (sf_stats F) r))
      | GetStats \<Rightarrow> (s, Some (getStats (sf_rfc3339 F) (sf_stats F)))
      | Health \<Rightarrow> (s, Some health)
      | Dashboard \<Rightarrow> (s, Some (dashboard_page (sf_index F)))
      | _ \<Rightarrow> (s, Some (sf_library F ep r)))"

definition ServeHTTP :: "('q, 'l, 'i) surface \<Rightarrow> 'i arrival \<Rightarrow> string \<Rightarrow> string \<Rightarrow> http_request \<Rightarrow> ('q, 'l) server \<Rightarrow>
    ('q, 'l) server \<times> http_response option" where
  "ServeHTTP F ar m p r s =
     (case findHandler main_routes m p of
        Matched ep \<Rightarrow> run_endpoint F ar ep r s
      | Moved p' \<Rightarrow>
          (s, Some \<lparr>status = 301, resp_header = [(''Location'', p'), (''Content-Type'', ''text/html; charset=utf-8'')],
                    resp_body = TextBody (''<a href=\"'' @ p' @ ''\">Moved Permanently</a>.'' @ [CHR 0x0A, CHR 0x0A])\<rparr>)
      | MethodNotAllowed ms \<Rightarrow> (s, Some (http_Error [(''Allow'', join_comma ms)] ''Method Not Allowed'' 405))
      | NotFound \<Rightarrow> (s, Some (http_Error [] ''404 page not found'' 404)))"

section \<open>Only one route writes\<close>

lemmas route_defs = main_routes_def ingest_Register_def dashboard_Register_def exact_route_def

lemma mux_match_in: "mux_match rts m p = Some rt \<Longrightarrow> rt \<in> set rts \<and> method_ok (rt_method rt) m \<and> path_ok rt p"
  by (auto simp: mux_match_def Let_def find_Some_iff filter_eq_Cons_iff
      split: option.splits list.splits dest: nth_mem)

lemma allowed_methods_Nil: "allowed_methods rts p = [] \<longleftrightarrow> (\<forall>rt \<in> set rts. \<not> path_ok rt p)"
proof -
  let ?ms = "\<lambda>rt. if rt_method rt = ''GET'' then [''GET'', ''HEAD''] else [rt_method rt]"
  have *: "concat (map ?ms xs) = [] \<longleftrightarrow> xs = []" for xs by (cases xs) simp_all
  show ?thesis unfolding allowed_methods_def remdups_eq_nil_iff * by (simp add: filter_empty_conv)
qed

lemma Matched_in:
  assumes "findHandler rts m p = Matched ep"
  shows "\<exists>rt \<in> set rts. rt_endpoint rt = ep \<and> method_ok (rt_method rt) m \<and> path_ok rt p"
  using assms mux_match_in by (fastforce simp: findHandler_def split: option.splits if_splits)

lemma Matched_PostEvent:
  assumes "findHandler main_routes m p = Matched PostEvent"
  shows "m = ''POST'' \<and> p = ''/v1/events''"
  using Matched_in [OF assms] by (auto simp: route_defs method_ok_def path_ok_def)

lemma POST_events: "findHandler main_routes ''POST'' ''/v1/events'' = Matched PostEvent"
  by (simp add: findHandler_def mux_match_def route_defs method_ok_def path_ok_def)

lemma run_endpoint_reads: "ep \<noteq> PostEvent \<Longrightarrow> \<exists>rsp. run_endpoint F ar ep r s = (s, Some rsp)"
  by (cases ep) (simp_all add: run_endpoint_def)

lemma ServeHTTP_post: "ServeHTTP F ar ''POST'' ''/v1/events'' r s = postEvent (sf_enq F) (sf_allow F) (sf_decode F) ar r s"
  by (simp add: ServeHTTP_def POST_events run_endpoint_def)

lemma ServeHTTP_count: "ServeHTTP F ar ''GET'' ''/v1/counts'' r s = (s, Some (getCount (sf_stats F) r))"
  by (simp add: ServeHTTP_def findHandler_def mux_match_def route_defs method_ok_def path_ok_def run_endpoint_def)

lemma ServeHTTP_reads:
  assumes "\<not> (m = ''POST'' \<and> p = ''/v1/events'')"
  shows "\<exists>rsp. ServeHTTP F ar m p r s = (s, Some rsp)"
proof (cases "findHandler main_routes m p")
  case (Matched ep)
  then have "ep \<noteq> PostEvent" using Matched_PostEvent assms by blast
  then show ?thesis using run_endpoint_reads Matched by (simp add: ServeHTTP_def)
qed (simp_all add: ServeHTTP_def)

section \<open>Properties\<close>



end
