(* ===== verification/Lifecycle.thy ===== *)
theory Lifecycle
  imports Service
begin

text \<open>
  The life of one process with the memory backend, from start-up to the end of the shutdown
  sequence of \<^verbatim>\<open>main\<close>: HTTP requests, gRPC calls, worker steps, the depth sampler and the
  janitor interleave, and the steps of the shutdown come in their order. What the process does to
  the queue is shown to be a run of the worker pool of theory Worker.
\<close>

section \<open>The process\<close>

text \<open>Where \<^verbatim>\<open>main\<close> stands after the signal.\<close>

datatype phase = Serving | HttpStopped | GrpcStopped | Draining | Stopped

text \<open>
  \<open>nd_late\<close> says that \<^verbatim>\<open>srv.Shutdown\<close> gave up waiting, so that handlers may still be
  running; \<open>nd_crashed\<close> that a metric panicked.
\<close>

record ('l, 'd) node =
  nd_pool :: "'d pool"
  nd_limiter :: "'l option"
  nd_metrics :: metrics
  nd_phase :: phase
  nd_late :: bool
  nd_crashed :: bool

definition app_node :: "'d pool \<Rightarrow> 'l option \<Rightarrow> ('l, 'd) node" where
  "app_node p l = \<lparr>nd_pool = p, nd_limiter = l, nd_metrics = zero_metrics, nd_phase = Serving,
     nd_late = False, nd_crashed = False\<rparr>"

text \<open>The server as the handlers see it, and the process after a handler returned.\<close>

definition front :: "('l, 'd) node \<Rightarrow> (mem_queue, 'l) server" where
  "front n = ingest_New (p_q (nd_pool n)) (nd_limiter n) (nd_metrics n)"

definition absorb :: "('l, 'd) node \<Rightarrow> (mem_queue, 'l) server \<Rightarrow> ('l, 'd) node" where
  "absorb n s =
     n\<lparr>nd_pool := (nd_pool n)\<lparr>p_q := sv_queue s,
         p_acc := p_acc (nd_pool n) @ drop (length (buf (ch (p_q (nd_pool n))))) (buf (ch (sv_queue s)))\<rparr>,
       nd_limiter := sv_limiter s, nd_metrics := sv_metrics s\<rparr>"

text \<open>A step of the pool, its new reports handed to the hook.\<close>

definition after_pool :: "('l, 'd) node \<Rightarrow> 'd pool \<Rightarrow> ('l, 'd) node" where
  "after_pool n p =
     (case onFlush_all (nd_metrics n) (drop (length (infos (nd_pool n))) (infos p)) of
        Some m \<Rightarrow> n\<lparr>nd_pool := p, nd_metrics := m\<rparr>
      | None \<Rightarrow> n\<lparr>nd_pool := p, nd_crashed := True\<rparr>)"

inductive node_step :: "('f, 'd) sink \<Rightarrow> Config \<Rightarrow> ('l, 'i) allower \<Rightarrow> ('l \<Rightarrow> 'l \<Rightarrow> bool) \<Rightarrow>
    ('l, 'd) node \<Rightarrow> ('l, 'd) node \<Rightarrow> bool"
  for ins :: "('f, 'd) sink" and cfg :: Config and allow :: "('l, 'i) allower" and sweep :: "'l \<Rightarrow> 'l \<Rightarrow> bool" where
  http: "nd_phase n = Serving \<or> nd_late n \<Longrightarrow> sf_enq F = Enqueue \<Longrightarrow> sf_allow F = allow \<Longrightarrow>
     ServeHTTP F ar m p r (front n) = (s, resp) \<Longrightarrow>
     node_step ins cfg allow sweep n (absorb n s)"
| grpc: "nd_phase n = Serving \<or> nd_phase n = HttpStopped \<Longrightarrow>
     Publish Enqueue allow gar ctx req (front n) = (s, res) \<Longrightarrow>
     node_step ins cfg allow sweep n (absorb n s)"
| worker: "pool_step ins cfg (nd_pool n) p \<Longrightarrow> p_acc p = p_acc (nd_pool n) \<Longrightarrow>
     closed (p_q p) = closed (p_q (nd_pool n)) \<Longrightarrow>
     node_step ins cfg allow sweep n (after_pool n p)"
| sample: "nd_phase n \<noteq> Draining \<Longrightarrow> nd_phase n \<noteq> Stopped \<Longrightarrow>
     node_step ins cfg allow sweep n (n\<lparr>nd_metrics := sampleDepth (p_q (nd_pool n)) (nd_metrics n)\<rparr>)"
| janitor: "nd_limiter n = Some l \<Longrightarrow> sweep l l' \<Longrightarrow>
     node_step ins cfg allow sweep n (n\<lparr>nd_limiter := Some l'\<rparr>)"
| stop_http: "nd_phase n = Serving \<Longrightarrow>
     node_step ins cfg allow sweep n (n\<lparr>nd_phase := HttpStopped, nd_late := late\<rparr>)"
| stop_grpc: "nd_phase n = HttpStopped \<Longrightarrow>
     node_step ins cfg allow sweep n (n\<lparr>nd_phase := GrpcStopped\<rparr>)"
| close_queue: "nd_phase n = GrpcStopped \<Longrightarrow>
     node_step ins cfg allow sweep n
       (n\<lparr>nd_pool := (nd_pool n)\<lparr>p_q := Close (p_q (nd_pool n))\<rparr>, nd_phase := Draining\<rparr>)"
| wait: "nd_phase n = Draining \<Longrightarrow> pool_finished (nd_pool n) \<Longrightarrow>
     node_step ins cfg allow sweep n (n\<lparr>nd_phase := Stopped\<rparr>)"

inductive node_reach :: "('f, 'd) sink \<Rightarrow> Config \<Rightarrow> ('l, 'i) allower \<Rightarrow> ('l \<Rightarrow> 'l \<Rightarrow> bool) \<Rightarrow>
    ('l, 'd) node \<Rightarrow> ('l, 'd) node \<Rightarrow> bool"
  for ins :: "('f, 'd) sink" and cfg :: Config and allow :: "('l, 'i) allower" and sweep :: "'l \<Rightarrow> 'l \<Rightarrow> bool"
    and n0 :: "('l, 'd) node" where
  start: "node_reach ins cfg allow sweep n0 n0"
| step: "node_reach ins cfg allow sweep n0 n \<Longrightarrow> node_step ins cfg allow sweep n n' \<Longrightarrow>
     node_reach ins cfg allow sweep n0 n'"

section \<open>What a handler does to the queue\<close>

text \<open>
  \<open>feeds s s'\<close>: between the two server states the queue took some events, each by a call of
  \<^verbatim>\<open>Enqueue\<close> that returned no error, and those were counted; other worker counters are as before.
\<close>

fun enqueue_all :: "mem_queue \<Rightarrow> event list \<Rightarrow> mem_queue option" where
  "enqueue_all q [] = Some q"
| "enqueue_all q (e # es) = (case Enqueue q e of (q', None) \<Rightarrow> enqueue_all q' es | _ \<Rightarrow> None)"

definition flush_counters :: "metrics \<Rightarrow> int \<times> int \<times> int" where
  "flush_counters m = (m_EventsInserted m, m_EventsDuplicate m, m_EventsDropped m)"

definition feeds :: "(mem_queue, 'l) server \<Rightarrow> (mem_queue, 'l) server \<Rightarrow> bool" where
  "feeds s s' \<longleftrightarrow> (\<exists>es. enqueue_all (sv_queue s) es = Some (sv_queue s') \<and>
     m_EventsAccepted (sv_metrics s') = m_EventsAccepted (sv_metrics s) + int (length es)) \<and>
     flush_counters (sv_metrics s') = flush_counters (sv_metrics s)"

lemma enqueue_all_append:
  "enqueue_all q (xs @ ys) = (case enqueue_all q xs of Some q' \<Rightarrow> enqueue_all q' ys | None \<Rightarrow> None)"
  by (induction q xs rule: enqueue_all.induct) (auto split: option.splits prod.splits)

lemma enqueue_all_buf:
  assumes "enqueue_all q es = Some q'" and "mq_inv q"
  shows "buf (ch q') = buf (ch q) @ es \<and> mq_inv q'"
  using assms
proof (induction q es rule: enqueue_all.induct)
  case (2 q e es)
  obtain q1 where q1: "Enqueue q e = (q1, None)" "enqueue_all q1 es = Some q'"
    using 2(2) by (auto split: prod.splits option.splits)
  then show ?case using 2(1) [OF q1(1) [symmetric] refl q1(2)] mem.enq_None [OF 2(3) q1(1)] mem.enq_inv [OF 2(3) q1(1)]
    by simp
qed simp

lemma feeds_same:
  "sv_queue s' = sv_queue s \<Longrightarrow> m_EventsAccepted (sv_metrics s') = m_EventsAccepted (sv_metrics s) \<Longrightarrow>
   flush_counters (sv_metrics s') = flush_counters (sv_metrics s) \<Longrightarrow> feeds s s'"
  unfolding feeds_def by (rule conjI [OF exI [of _ "[]"]]) simp_all

lemma feeds_trans:
  assumes "feeds s t" and "feeds t u"
  shows "feeds s u"
proof -
  obtain xs ys where
    "enqueue_all (sv_queue s) xs = Some (sv_queue t)" "enqueue_all (sv_queue t) ys = Some (sv_queue u)"
    "m_EventsAccepted (sv_metrics t) = m_EventsAccepted (sv_metrics s) + int (length xs)"
    "m_EventsAccepted (sv_metrics u) = m_EventsAccepted (sv_metrics t) + int (length ys)"
    using assms by (auto simp: feeds_def)
  then have "enqueue_all (sv_queue s) (xs @ ys) = Some (sv_queue u) \<and>
      m_EventsAccepted (sv_metrics u) = m_EventsAccepted (sv_metrics s) + int (length (xs @ ys))"
    by (simp add: enqueue_all_append)
  moreover have "flush_counters (sv_metrics u) = flush_counters (sv_metrics s)" using assms by (simp add: feeds_def)
  ultimately show ?thesis unfolding feeds_def by blast
qed

lemma feeds_enqueue:
  assumes "Enqueue (sv_queue s) e = (sv_queue s', None)"
    and "m_EventsAccepted (sv_metrics s') = m_EventsAccepted (sv_metrics s) + 1"
    and "flush_counters (sv_metrics s') = flush_counters (sv_metrics s)"
  shows "feeds s s'"
  unfolding feeds_def using assms by (intro conjI exI [of _ "[e]"]) simp_all

lemma flush_counters_simps [simp]:
  "flush_counters (inc_accepted m) = flush_counters m"
  "flush_counters (inc_rejected r m) = flush_counters m"
  "flush_counters (m\<lparr>m_IngestDuration := x\<rparr>) = flush_counters m"
  "flush_counters (sampleDepth q m) = flush_counters m"
  by (simp_all add: flush_counters_def inc_accepted_def inc_rejected_def sampleDepth_def)

lemma feeds_reject: "sv_queue t = sv_queue s \<Longrightarrow> sv_metrics t = sv_metrics s \<Longrightarrow> feeds s (reject_with r t)"
  by (rule feeds_same) (simp_all add: reject_with_def)

lemma Enqueue_Some_same: "Enqueue q e = (q', Some err) \<Longrightarrow> q' = q"
  by (auto simp: queue_defs split: if_splits)

lemma post_queued_feeds:
  assumes s1: "sv_queue s1 = sv_queue s" "sv_metrics s1 = sv_metrics s"
    and e: "Enqueue (sv_queue s) e = (q, err)"
    and run: "post_queued err ar (s1\<lparr>sv_queue := q\<rparr>) = (s', resp)"
  shows "feeds s s'"
proof (cases err)
  case None
  show ?thesis
    by (rule feeds_enqueue [of s e]) (use e run s1 None in \<open>auto simp: post_queued_def\<close>)
next
  case (Some x)
  then have q: "q = sv_queue s" using Enqueue_Some_same e by blast
  have rej: "feeds s (reject_with r (s1\<lparr>sv_queue := q\<rparr>))" for r
    by (rule feeds_reject) (simp_all add: q s1)
  have same: "feeds s (s1\<lparr>sv_queue := q\<rparr>)" by (rule feeds_same) (simp_all add: q s1)
  show ?thesis using run rej same by (cases x) (auto simp: post_queued_def Some)
qed

lemma postEvent_feeds:
  assumes "postEvent Enqueue allow decode ar r s = (s', resp)"
  shows "feeds s s'"
proof -
  obtain s1 hot where lim: "limited allow s (ClientKey r) (ar_limit ar) = (s1, hot)" by force
  have s1: "sv_queue s1 = sv_queue s" "sv_metrics s1 = sv_metrics s" using limited_frame [OF lim] by simp_all
  note rej = feeds_reject [OF s1]
  show ?thesis
  proof (cases "hot \<or> decode (take 1048576 (Body r)) = None \<or>
      (\<exists>req. decode (take 1048576 (Body r)) = Some req \<and> \<not> valid_request req)")
    case True
    then show ?thesis using assms lim rej
      by (auto simp: postEvent_def valid_request_def split: if_splits)
  next
    case False
    then obtain req where req: "decode (take 1048576 (Body r)) = Some req" "valid_request req" "\<not> hot" by auto
    obtain q err where e: "Enqueue (sv_queue s) (request_event req (ar_now ar)) = (q, err)" by force
    have "post_queued err ar (s1\<lparr>sv_queue := q\<rparr>) = (s', resp)"
      using assms lim req e by (simp add: postEvent_def valid_request_def s1)
    then show ?thesis by (rule post_queued_feeds [OF s1 e])
  qed
qed

lemma ServeHTTP_feeds:
  assumes "sf_enq F = Enqueue" and "ServeHTTP F ar m p r s = (s', resp)"
  shows "feeds s s'"
proof (cases "m = ''POST'' \<and> p = ''/v1/events''")
  case True
  then show ?thesis using assms postEvent_feeds ServeHTTP_post [of F ar r s] by simp
next
  case False
  then have "s' = s" using ServeHTTP_reads [OF False, of F ar r s] assms(2) by auto
  then show ?thesis by (simp add: feeds_same)
qed

lemma publish_refused_feeds:
  assumes "publish_refused err s = (s', code)"
  shows "feeds s s'"
  using assms feeds_reject [of s s] feeds_same [of s s] by (cases err) (auto simp: publish_refused_def)

lemma publish_loop_feeds:
  "publish_loop Enqueue now i pes resp s = (s', res) \<Longrightarrow> feeds s s'"
proof (induction pes arbitrary: i resp s)
  case Nil
  then show ?case by (simp add: feeds_same)
next
  case (Cons pe pes)
  show ?case
  proof (cases "invalid_reason pe = []")
    case False
    then have "feeds (reject_with ''invalid'' s) s'" using Cons by simp
    then show ?thesis by (rule feeds_trans [OF feeds_reject [OF refl refl]])
  next
    case True
    obtain q err where e: "Enqueue (sv_queue s) (publish_event pe now) = (q, err)" by force
    show ?thesis
    proof (cases err)
      case None
      let ?t = "s\<lparr>sv_queue := q, sv_metrics := inc_accepted (sv_metrics s)\<rparr>"
      have "feeds s ?t" by (rule feeds_enqueue [of s "publish_event pe now"]) (simp_all add: e None)
      moreover have "feeds ?t s'" using Cons True e None by simp
      ultimately show ?thesis by (rule feeds_trans)
    next
      case (Some er)
      then have "s\<lparr>sv_queue := q\<rparr> = s" using Enqueue_Some_same e by fastforce
      then obtain code where "publish_refused er s = (s', code)"
        using Cons.prems True e Some by (auto split: prod.splits)
      then show ?thesis by (rule publish_refused_feeds)
    qed
  qed
qed

lemma Publish_feeds:
  assumes "Publish Enqueue allow ar ctx req s = (s', res)"
  shows "feeds s s'"
proof -
  obtain s1 hot where lim: "limited allow s (clientKey ctx) (ar_limit ar) = (s1, hot)" by force
  have s1: "sv_queue s1 = sv_queue s" "sv_metrics s1 = sv_metrics s" using limited_frame [OF lim] by simp_all
  show ?thesis
  proof (cases hot)
    case True
    then show ?thesis using assms lim feeds_reject [OF s1] by (auto simp: Publish_def)
  next
    case False
    then have "feeds s1 s'" using assms lim publish_loop_feeds by (auto simp: Publish_def)
    moreover have "feeds s s1" by (rule feeds_same) (simp_all add: s1)
    ultimately show ?thesis by (rule feeds_trans [rotated])
  qed
qed

section \<open>The process is a run of the pool\<close>

lemma enqueue_all_reach:
  assumes "enqueue_all (p_q p) es = Some q"
  shows "pool_reach ins cfg p (p\<lparr>p_q := q, p_acc := p_acc p @ es\<rparr>)"
  using assms
proof (induction es arbitrary: p)
  case Nil
  then show ?case using pool_reach.start [of ins cfg p] by auto
next
  case (Cons e es)
  obtain q1 where q1: "Enqueue (p_q p) e = (q1, None)" "enqueue_all q1 es = Some q"
    using Cons.prems by (auto split: prod.splits option.splits)
  let ?p1 = "p\<lparr>p_q := q1, p_acc := p_acc p @ [e]\<rparr>"
  have "pool_step ins cfg p ?p1" using pool_step.produce [OF q1(1), of ins cfg] by simp
  moreover have "pool_reach ins cfg ?p1 (p\<lparr>p_q := q, p_acc := p_acc p @ e # es\<rparr>)"
    using Cons.IH [of ?p1] q1(2) by simp
  ultimately show ?case by (rule pool_reach_step)
qed

lemma absorb_feeds:
  assumes "feeds (front n) s" and "mq_inv (p_q (nd_pool n))"
  shows "\<exists>es. pool_reach ins cfg (nd_pool n) (nd_pool (absorb n s)) \<and>
    p_acc (nd_pool (absorb n s)) = p_acc (nd_pool n) @ es \<and>
    m_EventsAccepted (nd_metrics (absorb n s)) = m_EventsAccepted (nd_metrics n) + int (length es) \<and>
    flush_counters (nd_metrics (absorb n s)) = flush_counters (nd_metrics n)"
proof -
  obtain es where es: "enqueue_all (p_q (nd_pool n)) es = Some (sv_queue s)"
    "m_EventsAccepted (sv_metrics s) = m_EventsAccepted (nd_metrics n) + int (length es)"
    "flush_counters (sv_metrics s) = flush_counters (nd_metrics n)"
    using assms(1) by (auto simp: feeds_def front_def ingest_New_def)
  have "drop (length (buf (ch (p_q (nd_pool n))))) (buf (ch (sv_queue s))) = es"
    using enqueue_all_buf [OF es(1) assms(2)] by simp
  then show ?thesis using es enqueue_all_reach [OF es(1), of ins cfg]
    by (intro exI [of _ es]) (simp add: absorb_def)
qed

lemma pool_step_frame:
  assumes "pool_step ins cfg s t"
  shows "length (p_ws t) = length (p_ws s) \<and> (\<exists>fis. infos t = infos s @ fis)"
  using assms by cases auto

lemma pool_reach_workers: "pool_reach ins cfg s t \<Longrightarrow> length (p_ws t) = length (p_ws s)"
  by (induction rule: pool_reach.induct) (auto dest: pool_step_frame)

section \<open>The invariant of a process\<close>

definition node_inv :: "('f, 'd) sink \<Rightarrow> Config \<Rightarrow> 'd pool \<Rightarrow> ('l, 'd) node \<Rightarrow> bool" where
  "node_inv ins cfg p0 n \<longleftrightarrow>
     pool_reach ins cfg p0 (nd_pool n) \<and> \<not> nd_crashed n \<and>
     m_EventsAccepted (nd_metrics n) = int (length (p_acc (nd_pool n))) \<and>
     m_EventsInserted (nd_metrics n) + m_EventsDuplicate (nd_metrics n) = (\<Sum>fi\<leftarrow>infos (nd_pool n). Inserted fi + Duplicates fi) \<and>
     m_EventsDropped (nd_metrics n) = (\<Sum>fi\<leftarrow>infos (nd_pool n). dropped_of fi) \<and>
     (nd_phase n = Draining \<or> nd_phase n = Stopped \<longrightarrow> closed (p_q (nd_pool n))) \<and>
     (nd_phase n = Stopped \<longrightarrow> pool_finished (nd_pool n))"

lemma onFlush_accepted: "onFlush m fi = Some m' \<Longrightarrow> m_EventsAccepted m' = m_EventsAccepted m"
  by (auto simp: onFlush_def Let_def split: if_splits option.splits)

lemma onFlush_all_accepted: "onFlush_all m fis = Some m' \<Longrightarrow> m_EventsAccepted m' = m_EventsAccepted m"
  by (induction m fis rule: onFlush_all.induct) (auto split: option.splits dest: onFlush_accepted)

text \<open>A finished pool stays finished: no worker can move.\<close>

lemma pool_finished_step: "pool_step ins cfg s t \<Longrightarrow> pool_finished s \<Longrightarrow> pool_finished t"
  by (erule pool_stepE) (auto simp: pool_finished_def)

lemma node_inv_absorb:
  assumes inv: "node_inv ins cfg p0 n" and mq: "mq_inv (p_q (nd_pool n))" and f: "feeds (front n) s"
  shows "node_inv ins cfg p0 (absorb n s)"
proof -
  obtain es where es: "pool_reach ins cfg (nd_pool n) (nd_pool (absorb n s))"
    "p_acc (nd_pool (absorb n s)) = p_acc (nd_pool n) @ es"
    "m_EventsAccepted (nd_metrics (absorb n s)) = m_EventsAccepted (nd_metrics n) + int (length es)"
    "flush_counters (nd_metrics (absorb n s)) = flush_counters (nd_metrics n)"
    using absorb_feeds [OF f mq] by blast
  have same: "infos (nd_pool (absorb n s)) = infos (nd_pool n)" "p_ws (nd_pool (absorb n s)) = p_ws (nd_pool n)"
    "nd_phase (absorb n s) = nd_phase n" "nd_crashed (absorb n s) = nd_crashed n"
    by (simp_all add: absorb_def)
  have "closed (p_q (nd_pool (absorb n s)))" if "closed (p_q (nd_pool n))"
  proof -
    obtain es' where es': "enqueue_all (p_q (nd_pool n)) es' = Some (sv_queue s)"
      using f by (auto simp: feeds_def front_def ingest_New_def)
    have "es' = []" using es' that by (cases es') (auto simp: Enqueue_def)
    then have "sv_queue s = p_q (nd_pool n)" using es' by simp
    then show ?thesis using that by (simp add: absorb_def)
  qed
  then show ?thesis
    using inv es pool_reach_trans [OF es(1), of p0] unfolding node_inv_def pool_finished_def same
    by (simp add: flush_counters_def)
qed

lemma node_inv_worker:
  assumes inv: "node_inv ins cfg p0 n" and step: "pool_step ins cfg (nd_pool n) p"
    and same: "p_acc p = p_acc (nd_pool n)" "closed (p_q p) = closed (p_q (nd_pool n))"
    and ok: "\<forall>fi \<in> set (infos p). info_ok cfg fi"
  shows "node_inv ins cfg p0 (after_pool n p)"
proof -
  obtain fis where fis: "infos p = infos (nd_pool n) @ fis" using pool_step_frame [OF step] by blast
  obtain m where m: "onFlush_all (nd_metrics n) fis = Some m"
    "m_EventsInserted m + m_EventsDuplicate m =
       m_EventsInserted (nd_metrics n) + m_EventsDuplicate (nd_metrics n) + (\<Sum>fi\<leftarrow>fis. Inserted fi + Duplicates fi)"
    "m_EventsDropped m = m_EventsDropped (nd_metrics n) + (\<Sum>fi\<leftarrow>fis. dropped_of fi)"
    using onFlush_all_ok [of fis cfg "nd_metrics n"] ok fis by auto
  have after: "after_pool n p = n\<lparr>nd_pool := p, nd_metrics := m\<rparr>" by (simp add: after_pool_def fis m(1))
  have "pool_reach ins cfg p0 p" using inv step by (auto simp: node_inv_def intro: pool_reach.step)
  then show ?thesis
    using inv m fis same onFlush_all_accepted [OF m(1)] pool_finished_step [OF step]
    unfolding node_inv_def after by simp
qed

inductive_cases node_stepE: "node_step ins cfg allow sweep n n'"

lemma node_inv_step:
  assumes step: "node_step ins cfg allow sweep n n'" and inv: "node_inv ins cfg p0 n"
    and good: "\<And>p. pool_reach ins cfg p0 p \<Longrightarrow> mq_inv (p_q p) \<and> (\<forall>fi \<in> set (infos p). info_ok cfg fi)"
  shows "node_inv ins cfg p0 n'"
proof -
  have reach: "pool_reach ins cfg p0 (nd_pool n)" using inv by (simp add: node_inv_def)
  have mq: "mq_inv (p_q (nd_pool n))" using good [OF reach] by blast
  show ?thesis using step
  proof cases
    case (http F ar m p r s resp)
    then show ?thesis using node_inv_absorb [OF inv mq ServeHTTP_feeds] by blast
  next
    case (grpc gar ctx req s res)
    then show ?thesis using node_inv_absorb [OF inv mq Publish_feeds] by blast
  next
    case (worker p)
    then show ?thesis using node_inv_worker [OF inv worker(2-4)] good [OF pool_reach.step [OF reach worker(2)]] by blast
  next
    case close_queue
    have "closed (Close (p_q (nd_pool n)))" by (simp add: Close_def)
    then show ?thesis using inv pool_reach.step [OF reach pool_step.close]
      unfolding close_queue node_inv_def by simp
  qed (use inv in \<open>auto simp: node_inv_def sampleDepth_def\<close>)
qed

text \<open>
  The processes of this theory: a pool started on a new queue, with a hook, in front of which the
  handlers are attached.
\<close>

lemma node_reach_inv:
  assumes "NewMemory k = Some q" and "db_inv h0 d" and "config_ok cfg"
    and "node_reach (InsertBatch env) cfg allow sweep (app_node (pool_Start cfg q d) l) n"
  shows "node_inv (InsertBatch env) cfg (pool_Start cfg q d) n"
  using assms(4)
proof (induction rule: node_reach.induct)
  case start
  have "buf (ch q) = []" using assms(1) by (auto simp: NewMemory_def split: if_splits)
  then show ?case
    by (simp add: node_inv_def app_node_def pool_Start_def zero_metrics_def pool_reach.start)
next
  case (step n n')
  have "mq_inv (p_q p) \<and> (\<forall>fi \<in> set (infos p). info_ok cfg fi)"
    if "pool_reach (InsertBatch env) cfg (pool_Start cfg q d) p" for p
    using pool_reach_Start(1,3) [OF assms(1-3) that] by (simp add: pool_inv_def pool_counts_def)
  then show ?case by (rule node_inv_step [OF step(2,3)])
qed

section \<open>Coming to a stop\<close>

lemma closed_pool_step:
  assumes "pool_step ins cfg s t" and "closed (p_q s)"
  shows "p_acc t = p_acc s \<and> closed (p_q t)"
  using assms(1)
proof cases
  case (produce e q r)
  then show ?thesis using Enqueue_cases [OF produce(2)] assms(2) by auto
next
  case close
  then show ?thesis using assms(2) by (simp add: Close_def)
next
  case (recv_event i q e batch w)
  then show ?thesis using Events_recv_cases [OF recv_event(4)] assms(2) by simp
next
  case (recv_closed i q)
  then show ?thesis using Events_recv_cases [OF recv_closed(4)] assms(2) by simp
qed (use assms(2) in simp_all)

lemma after_pool_simps [simp]: "nd_pool (after_pool n p) = p" "nd_phase (after_pool n p) = nd_phase n"
  by (simp_all add: after_pool_def split: option.splits)

lemma node_reach_trans:
  assumes "node_reach ins cfg allow sweep m n" and "node_reach ins cfg allow sweep k m"
  shows "node_reach ins cfg allow sweep k n"
  using assms by (induction rule: node_reach.induct) (auto intro: node_reach.step)

text \<open>Once the queue is closed, the process can follow every run of its pool.\<close>

lemma node_follows_pool:
  assumes "pool_reach ins cfg (nd_pool n) p" and "closed (p_q (nd_pool n))"
  shows "\<exists>n'. node_reach ins cfg allow sweep n n' \<and> nd_pool n' = p \<and> nd_phase n' = nd_phase n \<and> closed (p_q p)"
  using assms
proof (induction rule: pool_reach.induct)
  case start
  then show ?case using node_reach.start by blast
next
  case (step s t)
  then obtain n' where n': "node_reach ins cfg allow sweep n n'" "nd_pool n' = s" "nd_phase n' = nd_phase n" "closed (p_q s)"
    by blast
  note keeps = closed_pool_step [OF step(2) n'(4)]
  have "node_step ins cfg allow sweep n' (after_pool n' t)"
    using step(2) keeps n'(2,4) by (intro node_step.worker) simp_all
  then show ?case using node_reach.step [OF n'(1)] keeps n'(3) by (intro exI [of _ "after_pool n' t"]) simp
qed

lemma drained_node_stops:
  assumes "nd_phase n = Draining" and "pool_inv cfg (nd_pool n)" and "config_ok cfg" and "closed (p_q (nd_pool n))"
  shows "\<exists>n'. node_reach ins cfg allow sweep n n' \<and> nd_phase n' = Stopped"
proof -
  obtain p where p: "pool_reach ins cfg (nd_pool n) p" "pool_finished p"
    using pool_can_finish [OF assms(2-4)] by blast
  obtain n' where n': "node_reach ins cfg allow sweep n n'" "nd_pool n' = p" "nd_phase n' = Draining"
    using node_follows_pool [OF p(1) assms(4)] assms(1) by metis
  then have "node_step ins cfg allow sweep n' (n'\<lparr>nd_phase := Stopped\<rparr>)"
    using p(2) by (intro node_step.wait) simp_all
  then show ?thesis using node_reach.step [OF n'(1)] by (intro exI [of _ "n'\<lparr>nd_phase := Stopped\<rparr>"]) simp
qed

text \<open>The steps of \<^verbatim>\<open>main\<close> from the signal to the closed queue.\<close>

lemma node_reaches_Draining:
  assumes "nd_phase n = Serving \<or> nd_phase n = HttpStopped \<or> nd_phase n = GrpcStopped"
  shows "\<exists>n'. node_reach ins cfg allow sweep n n' \<and> nd_phase n' = Draining \<and>
    nd_pool n' = (nd_pool n)\<lparr>p_q := Close (p_q (nd_pool n))\<rparr>"
proof -
  let ?R = "node_reach ins cfg allow sweep"
  let ?goal = "\<lambda>n. \<exists>n'. ?R n n' \<and> nd_phase n' = Draining \<and> nd_pool n' = (nd_pool n)\<lparr>p_q := Close (p_q (nd_pool n))\<rparr>"
  have close: "?goal n" if "nd_phase n = GrpcStopped" for n
    by (rule exI, rule conjI [OF node_reach.step [OF node_reach.start node_step.close_queue [OF that]]]) simp
  have on: "?goal n" if "node_step ins cfg allow sweep n m" "nd_pool m = nd_pool n" "?goal m" for n m
    using that node_reach_trans [OF _ node_reach.step [OF node_reach.start that(1)]] by metis
  have grpc: "?goal n" if "nd_phase n = HttpStopped" for n
    by (rule on [OF node_step.stop_grpc [OF that]]) (simp, rule close, simp)
  have http: "?goal n" if "nd_phase n = Serving" for n
    by (rule on [OF node_step.stop_http [OF that, where late = False]]) (simp, rule grpc, simp)
  show ?thesis using assms close grpc http by blast
qed

lemma memory_boot:
  assumes "main_boot K h out env k d = Inr (cfg, ap)" and "queueBackend cfg = ''memory''"
  shows "\<exists>q. NewMemory (queueSize cfg) = Some q \<and> ap_pool ap = Some (pool_Start (pool_config cfg) q d)"
  using main_boot_parts [OF assms(1)] assms(2) by (auto simp: memory_app_def)

lemma pool_config_ok [simp]: "config_ok (pool_config cfg)" "cfg_OnFlush (pool_config cfg)"
  by (simp_all add: pool_config_def) (simp add: worker_New_def)

text \<open>What the metrics and the database of a stopped process say.\<close>

lemma stopped_node:
  assumes q: "NewMemory k = Some q" and d: "db_inv h0 d" and cfg: "config_ok cfg" "cfg_OnFlush cfg"
    and run: "node_reach (InsertBatch env) cfg allow sweep (app_node (pool_Start cfg q d) l) n"
    and stop: "nd_phase n = Stopped"
  shows "m_EventsAccepted (nd_metrics n) = m_EventsInserted (nd_metrics n) + m_EventsDuplicate (nd_metrics n) +
      m_EventsDropped (nd_metrics n)"
    and "m_EventsDropped (nd_metrics n) = int (length (p_drop (nd_pool n)))"
    and "p_drop (nd_pool n) = [] \<Longrightarrow> db_inv (h0 @ p_acc (nd_pool n)) (p_db (nd_pool n))"
proof -
  note inv = node_reach_inv [OF q d cfg(1) run]
  have reach: "pool_reach (InsertBatch env) cfg (pool_Start cfg q d) (nd_pool n)" using inv by (simp add: node_inv_def)
  have fin: "pool_finished (nd_pool n)" using inv stop by (simp add: node_inv_def)
  have ws: "p_ws (nd_pool n) \<noteq> []"
    using pool_reach_workers [OF reach] cfg(1) by (auto simp: pool_Start_def config_ok_def)
  have new: "worker_New cfg = cfg" using cfg(1) by (simp add: worker_New_def config_ok_def)
  note drained = pool_drained [OF q d, of env cfg "nd_pool n", unfolded new, OF reach fin ws]
  have "pool_counts cfg stored_ids (card (stored_ids d)) (nd_pool n)"
    by (rule pool_reach_Start(3) [OF q d cfg(1) reach])
  then have sums: "(\<Sum>fi\<leftarrow>infos (nd_pool n). Inserted fi + Duplicates fi) = int (length (p_done (nd_pool n)))"
    "(\<Sum>fi\<leftarrow>infos (nd_pool n). dropped_of fi) = int (length (p_drop (nd_pool n)))"
    using cfg(2) by (simp_all add: pool_counts_def)
  show dropped: "m_EventsDropped (nd_metrics n) = int (length (p_drop (nd_pool n)))"
    using inv sums by (simp add: node_inv_def)
  have "size (mset (p_acc (nd_pool n))) = size (mset (p_done (nd_pool n)) + mset (p_drop (nd_pool n)))"
    using drained by simp
  then have "length (p_acc (nd_pool n)) = length (p_done (nd_pool n)) + length (p_drop (nd_pool n))" by simp
  then show "m_EventsAccepted (nd_metrics n) = m_EventsInserted (nd_metrics n) + m_EventsDuplicate (nd_metrics n) +
      m_EventsDropped (nd_metrics n)"
    using inv sums dropped by (simp add: node_inv_def)
  show "p_drop (nd_pool n) = [] \<Longrightarrow> db_inv (h0 @ p_acc (nd_pool n)) (p_db (nd_pool n))" using drained by blast
qed

section \<open>Properties\<close>

text \<open>A life for the witnesses: one event is posted, then the process is told to stop.\<close>

definition demo_environ :: environ where
  "demo_environ = [(''WORKERS'', ''1''), (''BATCH_SIZE'', ''1''), (''QUEUE_SIZE'', ''1'')]"

definition demo_request :: eventRequest where
  "demo_request = \<lparr>req_EventID = ''evt-1'', req_Name = ''buy_click'', req_DistinctID = ''user_42'', req_Properties = None\<rparr>"

definition demo_allow :: "'l \<Rightarrow> string \<Rightarrow> unit \<Rightarrow> 'l \<times> bool" where
  "demo_allow l k i = (l, True)"

definition demo_surface :: "(mem_queue, 'l, unit) surface" where
  "demo_surface = \<lparr>sf_enq = Enqueue, sf_allow = demo_allow, sf_decode = (\<lambda>_. Some demo_request),
     sf_stats = pg_stats \<lparr>math_log = ln, conv_oob = (\<lambda>_. 0)\<rparr> (\<lambda>_. 0) (\<lambda>_. no_faults) 0 (\<lambda>_. 0) empty_db,
     sf_rfc3339 = (\<lambda>_. []), sf_index = [], sf_library = (\<lambda>ep r. health)\<rparr>"

lemma demo_boot:
  "\<exists>cfg (ap :: (demo_world, db, unit) app).
     main_boot demo_kgo 0 demo_outside demo_environ \<lparr>dw_log = [], dw_pos = (\<lambda>_. 0), dw_com = 0\<rparr> empty_db = Inr (cfg, ap) \<and>
     queueBackend cfg = ''memory'' \<and> pool_config cfg = demo_cfg \<and>
     ap_pool ap = Some (pool_Start demo_cfg demo_queue empty_db)"
  by (simp add: main_boot_def loadConfig_def read_config_def check_config_def default_burst_def getenv_def getenvInt_def
      getenvDuration_def os_Getenv_def wrap64_def demo_environ_def Atoi_def split_sign_def is_digit_def digits_val_def
      digit_val_def demo_outside_def store_New_def ping_loop.simps boot_connect_def start_backend_def start_memory_def
      start_limiter_def start_grpc_def bare_app_def pool_config_def demo_cfg_def worker_New_def)

lemma demo_node_run:
  "\<exists>n. node_reach (InsertBatch demo_env) demo_cfg demo_allow (\<lambda>l l'. False)
       (app_node (pool_Start demo_cfg demo_queue empty_db) (l :: unit lim_impl option)) n \<and>
     nd_phase n = Stopped \<and> p_acc (nd_pool n) = [demo_event] \<and> p_drop (nd_pool n) = []"
proof -
  let ?R = "node_reach (InsertBatch demo_env) demo_cfg demo_allow (\<lambda>l l'. False)"
  let ?n0 = "app_node (pool_Start demo_cfg demo_queue empty_db) l"
  let ?ar = "\<lparr>ar_limit = (), ar_now = 1000000000, ar_took = 0\<rparr>"
  let ?r = "\<lparr>Header = [], RemoteAddr = [], Query = [], Body = []\<rparr>"
  obtain s resp where srv: "ServeHTTP demo_surface ?ar ''POST'' ''/v1/events'' ?r (front ?n0) = (s, resp)" by force
  have q: "sv_queue s = demo_queue\<lparr>ch := (ch demo_queue)\<lparr>buf := [demo_event]\<rparr>\<rparr>"
    using srv by (cases l) (auto simp: ServeHTTP_post demo_surface_def postEvent_def front_def app_node_def limited_def demo_allow_def
        ingest_New_def demo_request_def request_event_def post_queued_def queue_defs pool_Start_def demo_queue_def demo_event_def)
  let ?n1 = "absorb ?n0 s"
  have "node_step (InsertBatch demo_env) demo_cfg demo_allow (\<lambda>l l'. False) ?n0 ?n1"
    using srv by (intro node_step.http [of ?n0 demo_surface]) (simp_all add: app_node_def demo_surface_def)
  then have r1: "?R ?n0 ?n1" by (rule node_reach.step [OF node_reach.start])
  have ph: "nd_phase ?n1 = Serving" by (simp add: absorb_def app_node_def)
  obtain n2 where n2: "?R ?n1 n2" "nd_phase n2 = Draining" "nd_pool n2 = (nd_pool ?n1)\<lparr>p_q := Close (p_q (nd_pool ?n1))\<rparr>"
    using node_reaches_Draining [of ?n1] ph by blast
  have "nd_pool n2 = demo_closed"
    unfolding n2(3) by (simp add: absorb_def q app_node_def demo_closed_def pool_Start_def demo_queue_def)
  moreover obtain p where p: "pool_reach (InsertBatch demo_env) demo_cfg demo_closed p" "pool_finished p"
    "p_acc p = [demo_event]" "p_drop p = []"
    using demo_pool_drain by blast
  moreover have "closed (p_q demo_closed)" by (simp add: demo_closed_def Close_def)
  ultimately obtain n3 where n3: "?R n2 n3" "nd_pool n3 = p" "nd_phase n3 = Draining"
    using node_follows_pool [of "InsertBatch demo_env" demo_cfg n2 p] n2(2) by metis
  have "?R n3 (n3\<lparr>nd_phase := Stopped\<rparr>)"
    using p(2) n3 by (intro node_reach.step [OF node_reach.start] node_step.wait) simp_all
  then have "?R ?n0 (n3\<lparr>nd_phase := Stopped\<rparr>)" using r1 n2(1) n3(1) node_reach_trans by meson
  then show ?thesis using p n3(2) by (intro exI [of _ "n3\<lparr>nd_phase := Stopped\<rparr>"]) simp
qed







end
