(* ===== verification/Loadgen.thy ===== *)
theory Loadgen
  imports Ingest Settings
begin

text \<open>
  The traffic generator of \<^verbatim>\<open>src/cmd/loadgen/main.go\<close>: one send with its retry, the job of a
  sender with its duplicates, the ticker that hands out jobs, and the report. The counters are
  updated atomically, so the jobs of all senders are one list, in the order they finish.
\<close>

section \<open>Sending\<close>

text \<open>How a \<^verbatim>\<open>client.Post\<close> ends: a transport error or a status.\<close>

datatype post = PostErr | PostStatus int

record loadgen =
  lg_sent :: int
  lg_failed :: int
  lg_retried :: int
  lg_latencies :: "int list"

record sending =
  se_first :: post
  se_took :: int
  se_second :: post

definition lg_fail :: "loadgen \<Rightarrow> loadgen \<times> bool" where
  "lg_fail s = (s\<lparr>lg_failed := lg_failed s + 1\<rparr>, False)"

definition lg_ok :: "int \<Rightarrow> loadgen \<Rightarrow> loadgen \<times> bool" where
  "lg_ok took s = (s\<lparr>lg_sent := lg_sent s + 1, lg_latencies := lg_latencies s @ [took]\<rparr>, True)"

definition send :: "sending \<Rightarrow> loadgen \<Rightarrow> loadgen \<times> bool" where
  "send x s =
     (case se_first x of
        PostErr \<Rightarrow> lg_fail s
      | PostStatus code \<Rightarrow>
          if code = 503
          then let s = s\<lparr>lg_retried := lg_retried s + 1\<rparr> in
               (case se_second x of
                  PostErr \<Rightarrow> lg_fail s
                | PostStatus code2 \<Rightarrow> if code2 \<ge> 300 then lg_fail s else lg_ok (se_took x) s)
          else if code \<ge> 300 then lg_fail s
          else lg_ok (se_took x) s)"

section \<open>A job\<close>

text \<open>What a job draws and meets: the clock, the random numbers, and how its sends end.\<close>

record job =
  jb_nano :: nat
  jb_rand :: nat
  jb_name :: nat
  jb_user :: nat
  jb_send :: sending
  jb_draw :: int
  jb_again :: sending

definition event_names :: "string \<Rightarrow> string list" where
  "event_names eventName =
     (if eventName \<noteq> [] then [eventName]
      else [''buy_click'', ''page_view'', ''signup'', ''song_play'', ''add_to_cart''])"

definition job_id :: "job \<Rightarrow> string" where
  "job_id j = decimal (jb_nano j) @ ''-'' @ decimal (jb_rand j)"

text \<open>The request in the body; \<^verbatim>\<open>rng.Intn(n)\<close> is below \<open>n\<close>.\<close>

definition job_request :: "string list \<Rightarrow> job \<Rightarrow> eventRequest" where
  "job_request names j =
     \<lparr>req_EventID = job_id j, req_Name = names ! (jb_name j mod length names),
      req_DistinctID = ''user_'' @ decimal (jb_user j mod 10000),
      req_Properties = Some [(''source'', JStr ''loadgen'')]\<rparr>"

definition run_job :: "int \<Rightarrow> job \<Rightarrow> loadgen \<Rightarrow> loadgen" where
  "run_job dupes j s =
     (let (s1, ok) = send (jb_send j) s in
      if ok \<and> dupes > 0 \<and> jb_draw j < dupes
      then let (s2, _) = send (jb_again j) s1 in s2\<lparr>lg_sent := lg_sent s2 - 1\<rparr>
      else s1)"

definition run_jobs :: "int \<Rightarrow> job list \<Rightarrow> loadgen \<Rightarrow> loadgen" where
  "run_jobs dupes js s = foldl (\<lambda>s j. run_job dupes j s) s js"

section \<open>Handing out jobs\<close>

text \<open>
  The channel of \<^verbatim>\<open>rate\<close> places and the ticker. A negative capacity, a division by zero and an
  interval that is not positive are panics.
\<close>

definition lg_setup :: "int \<Rightarrow> (nat \<times> int) option" where
  "lg_setup rate =
     (if rate < 0 then None
      else if rate = 0 then None
      else let every = 1000000000 div rate in if every \<le> 0 then None else Some (nat rate, every))"

datatype lg_event = LgTick | LgTake

record dispatch =
  dp_jobs :: nat
  dp_taken :: nat
  dp_skipped :: nat

definition dispatch_step :: "nat \<Rightarrow> lg_event \<Rightarrow> dispatch \<Rightarrow> dispatch" where
  "dispatch_step places a s =
     (case a of
        LgTick \<Rightarrow> if dp_jobs s < places then s\<lparr>dp_jobs := dp_jobs s + 1\<rparr> else s\<lparr>dp_skipped := dp_skipped s + 1\<rparr>
      | LgTake \<Rightarrow> if dp_jobs s > 0 then s\<lparr>dp_jobs := dp_jobs s - 1, dp_taken := dp_taken s + 1\<rparr> else s)"

section \<open>The report\<close>

definition pct :: "int list \<Rightarrow> real \<Rightarrow> int option" where
  "pct latencies p =
     (let idx = nat \<lfloor>round64 (round64 p * round64 (real (length latencies - 1)))\<rfloor> in
      if idx < length latencies then Some (latencies ! idx) else None)"

text \<open>The percentiles 50, 95 and 99 and the maximum, over the sorted latencies.\<close>

definition latency_report :: "int list \<Rightarrow> (int option \<times> int option \<times> int option \<times> int option) option" where
  "latency_report latencies =
     (if latencies = [] then None
      else let ls = sort latencies in Some (pct ls 0.50, pct ls 0.95, pct ls 0.99, Some (ls ! (length ls - 1))))"

definition exact_file :: "bool \<Rightarrow> loadgen \<Rightarrow> string option" where
  "exact_file exact s = (if exact then Some (Itoa (lg_sent s)) else None)"

section \<open>Accounting\<close>

text \<open>Whether a send succeeds is decided by the answers alone.\<close>

definition send_ok :: "sending \<Rightarrow> bool" where
  "send_ok x = (case se_first x of
     PostErr \<Rightarrow> False
   | PostStatus code \<Rightarrow>
       if code = 503 then (case se_second x of PostErr \<Rightarrow> False | PostStatus code2 \<Rightarrow> code2 < 300) else code < 300)"

definition duplicated :: "int \<Rightarrow> job \<Rightarrow> bool" where
  "duplicated dupes j \<longleftrightarrow> send_ok (jb_send j) \<and> dupes > 0 \<and> jb_draw j < dupes"

lemma send_effect:
  assumes "send x s = (s', ok)"
  shows "ok = send_ok x \<and> lg_sent s' = lg_sent s + (if send_ok x then 1 else 0) \<and>
    lg_failed s' = lg_failed s + (if send_ok x then 0 else 1) \<and>
    lg_latencies s' = lg_latencies s @ (if send_ok x then [se_took x] else [])"
  using assms by (auto simp: send_def send_ok_def lg_fail_def lg_ok_def Let_def split: post.splits if_splits)

lemma run_job_effect:
  "lg_sent (run_job dupes j s) = lg_sent s + (if send_ok (jb_send j) then 1 else 0) -
     (if duplicated dupes j \<and> \<not> send_ok (jb_again j) then 1 else 0) \<and>
   lg_failed (run_job dupes j s) = lg_failed s + (if send_ok (jb_send j) then 0 else 1) +
     (if duplicated dupes j \<and> \<not> send_ok (jb_again j) then 1 else 0)"
proof -
  obtain s1 ok where s1: "send (jb_send j) s = (s1, ok)" by force
  obtain s2 ok2 where s2: "send (jb_again j) s1 = (s2, ok2)" by force
  show ?thesis using send_effect [OF s1] send_effect [OF s2]
    by (auto simp: run_job_def s1 s2 duplicated_def)
qed

text \<open>
  No tick is lost track of: each filled a place or was skipped, the places are never exceeded, and
  start-up panics exactly for rates that are not positive or above one per nanosecond.
\<close>

lemma dispatch_conserves:
  assumes "s = foldl (\<lambda>s a. dispatch_step places a s) \<lparr>dp_jobs = 0, dp_taken = 0, dp_skipped = 0\<rparr> as"
  shows "dp_jobs s + dp_taken s + dp_skipped s = count_list as LgTick \<and> dp_jobs s \<le> places"
  unfolding assms
proof (induction as rule: rev_induct)
  case (snoc a as)
  then show ?case by (cases a) (auto simp: dispatch_step_def)
qed simp

lemma lg_setup_None: "lg_setup rate = None \<longleftrightarrow> rate \<le> 0 \<or> rate > 1000000000"
proof (cases "rate \<le> 0")
  case False
  then have "1000000000 div rate \<le> 0 \<longleftrightarrow> rate > 1000000000"
    using pos_imp_zdiv_pos_iff [of rate 1000000000] by auto
  then show ?thesis using False by (simp add: lg_setup_def Let_def)
qed (simp add: lg_setup_def)

section \<open>Identifiers\<close>

lemma decimal_inj: "decimal m = decimal n \<Longrightarrow> m = n"
  using decimal_digits by metis

lemma takeWhile_decimal: "takeWhile is_digit (decimal n @ ''-'' @ t) = decimal n"
  using decimal_digits [of n] by (simp add: takeWhile_append2 list_all_iff)

lemma job_id_inj:
  assumes "job_id j = job_id j'"
  shows "jb_nano j = jb_nano j' \<and> jb_rand j = jb_rand j'"
proof -
  have "decimal (jb_nano j) = decimal (jb_nano j')"
    using assms takeWhile_decimal [of "jb_nano j" "decimal (jb_rand j)"] takeWhile_decimal [of "jb_nano j'" "decimal (jb_rand j')"]
    unfolding job_id_def by simp
  moreover from this have "decimal (jb_rand j) = decimal (jb_rand j')" using assms by (simp add: job_id_def)
  ultimately show ?thesis using decimal_inj by blast
qed

lemma event_names_ok: "event_names n \<noteq> [] \<and> (\<forall>x \<in> set (event_names n). x \<noteq> [])"
  by (auto simp: event_names_def)

section \<open>Percentiles\<close>

lemma round64_upper:
  assumes "0 \<le> x" and "x \<le> y"
  shows "0 \<le> round64 x" and "round64 x \<le> y * (1001 / 1000)"
proof -
  have e: "2 powr (-53) \<le> (1 / 1000 :: real)" by (simp add: powr_minus powr_numeral)
  have "x * 2 powr (-53) \<le> x * (1 / 1000)" by (rule mult_left_mono [OF e assms(1)])
  moreover have "\<bar>round64 x - x\<bar> \<le> x * 2 powr (-53)" using round64_error [of x] assms(1) by simp
  ultimately have "\<bar>round64 x - x\<bar> \<le> x * (1 / 1000)" by linarith
  then have "round64 x - x \<le> x * (1 / 1000)" "x - round64 x \<le> x * (1 / 1000)" by linarith+
  then show "0 \<le> round64 x" "round64 x \<le> y * (1001 / 1000)" using assms by linarith+
qed

lemma pct_index:
  assumes "0 \<le> p" and "p \<le> 99 / 100" and "0 < n"
  shows "nat \<lfloor>round64 (round64 p * round64 (real (n - 1)))\<rfloor> < n"
proof -
  let ?k = "real (n - 1)"
  note p = round64_upper [OF assms(1,2)]
  have k: "0 \<le> round64 ?k" "round64 ?k \<le> ?k * (1001 / 1000)" using round64_upper [of ?k ?k] by simp_all
  have "round64 p * round64 ?k \<le> (99 / 100 * (1001 / 1000)) * (?k * (1001 / 1000))"
    using p k by (intro mult_mono) simp_all
  then have "round64 (round64 p * round64 ?k) \<le> (99 / 100 * (1001 / 1000)) * (?k * (1001 / 1000)) * (1001 / 1000)"
    using p(1) k(1) by (intro round64_upper(2)) simp_all
  also have "\<dots> \<le> ?k" by (simp add: field_simps)
  finally have "\<lfloor>round64 (round64 p * round64 ?k)\<rfloor> \<le> int (n - 1)" by (simp add: floor_le_iff)
  then show ?thesis using assms(3) by linarith
qed

section \<open>Properties\<close>

text \<open>
  C38. What the generator reports as sent. The counter is the number of events whose first send
  succeeded, less one for every event whose duplicate was refused or lost: such an event was accepted
  once and is not counted. The failures are the failed first sends and the failed duplicates.
\<close>

theorem loadgen_counts:
  "lg_sent (run_jobs dupes js s) = lg_sent s + int (length (filter (\<lambda>j. send_ok (jb_send j)) js)) -
     int (length (filter (\<lambda>j. duplicated dupes j \<and> \<not> send_ok (jb_again j)) js)) \<and>
   lg_failed (run_jobs dupes js s) = lg_failed s + int (length (filter (\<lambda>j. \<not> send_ok (jb_send j)) js)) +
     int (length (filter (\<lambda>j. duplicated dupes j \<and> \<not> send_ok (jb_again j)) js))"
proof (induction js arbitrary: s)
  case (Cons j js)
  have "run_jobs dupes (j # js) s = run_jobs dupes js (run_job dupes j s)" by (simp add: run_jobs_def)
  then show ?case using Cons.IH [of "run_job dupes j s"] run_job_effect [of dupes j s] by simp
qed (simp add: run_jobs_def)

text \<open>
  The generated traffic is well formed: every body is a valid event whatever is drawn, and two jobs
  carry the same identifier only if they drew the same clock reading and the same random number.
\<close>

lemma loadgen_requests:
  "valid_request (job_request (event_names n) j) \<and>
   (req_EventID (job_request (event_names n) j) = req_EventID (job_request (event_names n) j') \<longleftrightarrow>
      jb_nano j = jb_nano j' \<and> jb_rand j = jb_rand j')"
proof -
  let ?ns = "event_names n"
  have "jb_name j mod length ?ns < length ?ns" using event_names_ok [of n] by simp
  then have "?ns ! (jb_name j mod length ?ns) \<noteq> []" using event_names_ok [of n] nth_mem by blast
  moreover have "job_id j \<noteq> []" by (simp add: job_id_def)
  moreover have "job_id j = job_id j' \<longleftrightarrow> jb_nano j = jb_nano j' \<and> jb_rand j = jb_rand j'"
    using job_id_inj [of j j'] unfolding job_id_def by metis
  ultimately show ?thesis by (simp add: valid_request_def job_request_def)
qed

text \<open>
  C39. The report never indexes out of range: for every non-empty list of latencies each
  percentile is one of them and at most the maximum.
\<close>

theorem latency_report_in_range:
  assumes "latencies \<noteq> []"
  shows "\<exists>a b c m. latency_report latencies = Some (Some a, Some b, Some c, Some m) \<and>
    {a, b, c, m} \<subseteq> set latencies \<and> (\<forall>x \<in> set latencies. x \<le> m)"
proof -
  let ?ls = "sort latencies"
  have n: "0 < length ?ls" using assms by simp
  have pct: "\<exists>x. pct ?ls p = Some x \<and> x \<in> set latencies" if "0 \<le> p" "p \<le> 99 / 100" for p
  proof -
    note i = pct_index [OF that n]
    have "pct ?ls p = Some (?ls ! nat \<lfloor>round64 (round64 p * round64 (real (length ?ls - 1)))\<rfloor>)"
      using i by (simp only: pct_def Let_def if_True)
    moreover have "?ls ! nat \<lfloor>round64 (round64 p * round64 (real (length ?ls - 1)))\<rfloor> \<in> set latencies"
      using nth_mem [OF i] unfolding set_sort .
    ultimately show ?thesis by blast
  qed
  have p: "0 \<le> (0.50 :: real)" "(0.50 :: real) \<le> 99 / 100" "0 \<le> (0.95 :: real)" "(0.95 :: real) \<le> 99 / 100"
    "0 \<le> (0.99 :: real)" "(0.99 :: real) \<le> 99 / 100" by simp_all
  obtain a where a: "pct ?ls 0.50 = Some a" "a \<in> set latencies" using pct [OF p(1,2)] by (elim exE conjE) (rule that)
  obtain b where b: "pct ?ls 0.95 = Some b" "b \<in> set latencies" using pct [OF p(3,4)] by (elim exE conjE) (rule that)
  obtain c where c: "pct ?ls 0.99 = Some c" "c \<in> set latencies" using pct [OF p(5,6)] by (elim exE conjE) (rule that)
  let ?m = "?ls ! (length ?ls - 1)"
  have "?m \<in> set latencies" using nth_mem [of "length ?ls - 1" ?ls] n by simp
  moreover have "x \<le> ?m" if "x \<in> set latencies" for x
  proof -
    have "x \<in> set ?ls" using that by simp
    then obtain i where "i < length ?ls" "?ls ! i = x" unfolding in_set_conv_nth by blast
    then show ?thesis using sorted_nth_mono [of ?ls i "length ?ls - 1"] by simp
  qed
  moreover have "latency_report latencies = Some (Some a, Some b, Some c, Some ?m)"
    unfolding latency_report_def Let_def a(1) b(1) c(1) using assms by simp
  ultimately show ?thesis using a(2) b(2) c(2) by (intro exI conjI) (assumption, simp, blast)
qed

theorem latency_report_in_range_witness:
  "\<exists>a b c m. latency_report [30, 10, 20] = Some (Some a, Some b, Some c, Some m) \<and> 30 \<le> m"
proof -
  have "[30, 10, 20] \<noteq> ([] :: int list)" by simp
  from latency_report_in_range [OF this] obtain a b c m
    where "latency_report [30, 10, 20] = Some (Some a, Some b, Some c, Some m)" "\<forall>x \<in> set [30, 10, 20]. x \<le> m"
    by (elim exE conjE)
  then show ?thesis by (intro exI conjI) (assumption, simp)
qed

end
