(* ===== verification/Spec2Isabelle.thy ===== *)
theory Spec2Isabelle
  imports Lifecycle Loadgen
begin

text \<open>
  This development models Tally, an event counting service in Go (\<^verbatim>\<open>src/\<close>), and proves what
  makes it correct. Events arrive over HTTP or gRPC, wait in a queue, are written in batches to
  PostgreSQL with per-minute rollups and unique-user sketches, and are counted by queries. The queue
  is an in-process channel or a Kafka topic; with Kafka, ingest and workers may be separate processes.

  \<^bold>\<open>Theories and code.\<close>
  \<^item> Prelude: error values, error returns, fact collections shared by all theories.
  \<^item> Hll, Float64, HllEstimate: \<^verbatim>\<open>internal/hll/hll.go\<close>. Registers are bytes, hashes 64-bit
    words; \<^verbatim>\<open>Estimate\<close> runs in \<^verbatim>\<open>float64\<close> arithmetic with every operation rounded. A sketch
    refines a set of strings: \<^verbatim>\<open>Add\<close> is insertion, \<^verbatim>\<open>Merge\<close> is union, and the byte format
    is read back exactly if it was written.
  \<^item> Store, StoreQueries: \<^verbatim>\<open>internal/store/store.go\<close>. The database is a record of three tables;
    \<^verbatim>\<open>InsertBatch\<close> runs its statement, the rollup and the sketch updates as one transaction
    under explicit faults, a lost acknowledgement of the commit among them. The relation
    \<open>db_inv hist d\<close> says that \<open>d\<close> is the database of the events \<open>hist\<close>: rows, counts and
    sketches. The locale \<open>batch_inserter\<close> is the contract the workers use.
  \<^item> Queue: \<^verbatim>\<open>internal/queue/queue.go\<close>, sequentially and with \<^verbatim>\<open>Enqueue\<close> and \<^verbatim>\<open>Close\<close>
    split into their atomic accesses. The locale \<open>enqueuer\<close> is \<^verbatim>\<open>ingest.Enqueuer\<close>, interpreted on
    the memory queue, the rejecting queue, the Kafka producer and the choice of \<^verbatim>\<open>main\<close> among them.
  \<^item> Worker: \<^verbatim>\<open>internal/worker/worker.go\<close>. \<open>run_iter\<close> and \<open>flush\<close> are the code as written;
    \<open>pool_step\<close> interleaves all workers, producers, ticks, the shutdown and single insert attempts,
    and contains every run of the sequential code.
  \<^item> Kafka: \<^verbatim>\<open>internal/queue/kafka.go\<close>. \<open>Run_step\<close> is the consumer loop between two calls of
    its client; \<open>group_step\<close> runs a group of consumers that join, crash and are rebalanced.
  \<^item> Ratelimit: \<^verbatim>\<open>internal/ratelimit/ratelimit.go\<close>, both limiters under the locale \<open>limiter\<close>.
  \<^item> Metrics: \<^verbatim>\<open>internal/metrics/metrics.go\<close> and the flush hook of \<^verbatim>\<open>main\<close>.
  \<^item> Ingest, Grpcingest, Routes: the handlers of \<^verbatim>\<open>internal/ingest\<close>, the service of
    \<^verbatim>\<open>internal/grpcingest\<close> over the messages of \<^verbatim>\<open>gen/tally/v1\<close>, and the HTTP surface with the
    dashboard. A handler maps the server's queue, limiter and metrics to new ones and a response.
  \<^item> Settings, Service, Lifecycle: \<^verbatim>\<open>cmd/tally/main.go\<close>. The configuration from the environment,
    what \<^verbatim>\<open>main\<close> builds from it, and the life of a process with the memory backend up to the end of
    its shutdown sequence (\<open>node_step\<close>).
  \<^item> Loadgen: \<^verbatim>\<open>cmd/loadgen/main.go\<close>.
  \<^item> This theory: durable mode from the producer to the database.

  \<^bold>\<open>What is shown.\<close> A process accounts for every event: accepted equals inserted plus duplicate
  plus dropped after shutdown, shutdown can always complete, and the count query answers the number of
  different identifiers accepted. The same holds across the broker for any crashes of consumers.
  Underneath: a batch is stored as a whole or not at all and may be replayed; the pool and the queue
  conserve events; both front doors do the same to the same event; each limiter keeps its bound and
  keys apart; sketches refine sets; configuration is total and read back as written. Some theorems
  record behaviour the documentation does not promise: a duplicate on another day enters the sketch
  of that day, an event that cannot be stored takes its batch with it or holds up its partition, a
  session outside UTC misses the sketches, a late handler can panic on the closed queue.

  \<^bold>\<open>Conventions.\<close> Error returns are sums with the error on the left, a panic is \<open>GoPanic\<close> or
  \<open>None\<close>. Times are integers, in nanoseconds in the program and microseconds in the database. Faults
  of the database, the broker and the clock are inputs of the operations that meet them. All loops of
  the code are total functions with a measure, so no fuel is needed; the endless loops of workers and
  consumers are step relations. Fields \<open>p_acc\<close>, \<open>p_done\<close>, \<open>p_drop\<close> and \<open>kp_calls\<close> only record
  what happened.

  \<^bold>\<open>Parameters.\<close> The Kafka client (\<open>kgo_ok\<close> states its documented promises), the rate limiter
  library, collation and input checks of PostgreSQL, the logarithm and out-of-range conversions of
  the platform, and the pages that libraries serve.

  \<^bold>\<open>Not modelled.\<close> Logging, HTTP and gRPC transport, protobuf encoding and reflection, metric names
  and buckets, the dashboard page, deployment files. Concurrent transactions of the database are
  serialised; the order of lock acquisition in the statements is represented but not its timing.
\<close>

section \<open>Durable mode, end to end\<close>

text \<open>
  In durable mode an ingest instance and worker instances share only the broker. The ingest side is
  a sequence of calls of \<^verbatim>\<open>Enqueue\<close>; those that return no error have been answered with 202.
\<close>

fun produce_all :: "'k kgo \<Rightarrow> json_codec \<Rightarrow> event list \<Rightarrow> 'k producer \<Rightarrow> 'k producer \<times> event list" where
  "produce_all K J [] p = (p, [])"
| "produce_all K J (e # es) p =
     (let (p1, err) = KafkaProducer_Enqueue K J p e; (p2, ok) = produce_all K J es p1
      in (p2, if err = None then e # ok else ok))"

text \<open>
  What the encoding keeps of an event. Only events whose strings are valid UTF-8 can be asked to
  satisfy this; those that come through the front doors are.
\<close>

definition codec_keeps :: "json_codec \<Rightarrow> event \<Rightarrow> bool" where
  "codec_keeps J e \<longleftrightarrow> (\<forall>b. marshal_event J e = Some b \<longrightarrow> (\<exists>e'. unmarshal_event J b = Some e' \<and>
     EventID e' = EventID e \<and> Name e' = Name e \<and> DistinctID e' = DistinctID e \<and> TS e' = TS e))"

lemma produce_all_calls:
  assumes "produce_all K J es p = (p', ok)"
  shows "\<exists>bs. map Some bs = map (marshal_event J) ok \<and> map kr_Value (kp_calls p') = map kr_Value (kp_calls p) @ bs"
  using assms
proof (induction es arbitrary: p ok)
  case (Cons e es)
  obtain p1 err where e: "KafkaProducer_Enqueue K J p e = (p1, err)" by force
  obtain ok1 where es: "produce_all K J es p1 = (p', ok1)" and ok: "ok = (if err = None then e # ok1 else ok1)"
    using Cons.prems e by (auto split: prod.splits)
  obtain bs where bs: "map Some bs = map (marshal_event J) ok1"
    "map kr_Value (kp_calls p') = map kr_Value (kp_calls p1) @ bs"
    using Cons.IH [OF es] by blast
  show ?case
  proof (cases err)
    case None
    then obtain b where b: "marshal_event J e = Some b" "map kr_Value (kp_calls p1) = map kr_Value (kp_calls p) @ [b]"
      using e by (auto simp: KafkaProducer_Enqueue_def event_record_def Let_def split: if_splits option.splits)
    then show ?thesis using bs None ok by (intro exI [of _ "b # bs"]) simp
  next
    case (Some x)
    then have "p1 = p" using kp.enq_Some [OF TrueI] e by blast
    then show ?thesis using bs Some ok by auto
  qed
qed auto

lemma produced_values:
  assumes "produce_all K J es p = (p', ok)" and "kp_calls p = []" and "e \<in> set ok"
  shows "\<exists>b. marshal_event J e = Some b \<and> b \<in> kr_Value ` set (kp_calls p')"
proof -
  obtain bs where bs: "map Some bs = map (marshal_event J) ok" "map kr_Value (kp_calls p') = bs"
    using produce_all_calls [OF assms(1)] unfolding assms(2) list.map append_Nil by blast
  have "marshal_event J e \<in> Some ` set bs" using bs(1) assms(3) by (metis image_eqI list.set_map)
  then show ?thesis using bs(2) by (metis image_iff list.set_map)
qed



end
